(* ===== verification/Prelude.thy ===== *)
theory Prelude
  imports Main "HOL-Library.Word" "HOL-Library.Multiset"
begin

section \<open>Shared vocabulary of the model\<close>

text \<open>
  What every component of the model shares: machine integers at the width the code has them,
  \<open>NonZeroU64\<close> / \<open>NonZeroUsize\<close> as a type without zero, \<open>checked_add\<close> and \<open>checked_sub\<close>,
  \<open>Ordering\<close>, and panics as values.  A Rust function that may panic is a HOL function into
  \<open>panic + 'a\<close>: \<open>Inl p\<close> is the panic with its message, \<open>Inr x\<close> the value returned.
  \<open>Clone\<close> is the identity: a clone of a value is that value.
\<close>

named_theorems executor_defs \<open>the definitions of the operations of an executor\<close>

subsection \<open>Machine integers\<close>

type_synonym u8 = "8 word"
type_synonym u64 = "64 word"
type_synonym usize = "64 word"

definition checked_add :: "u64 \<Rightarrow> u64 \<Rightarrow> u64 option" where
  "checked_add a b = (if unat a + unat b < 2 ^ 64 then Some (a + b) else None)"

definition checked_sub :: "u64 \<Rightarrow> u64 \<Rightarrow> u64 option" where
  "checked_sub a b = (if unat b \<le> unat a then Some (a - b) else None)"

lemma checked_add_Some: "checked_add a b = Some c \<Longrightarrow> c = a + b \<and> unat c = unat a + unat b"
  by (auto simp: checked_add_def unat_word_ariths split: if_splits)

lemma checked_add_None: "checked_add a b = None \<longleftrightarrow> 2 ^ 64 \<le> unat a + unat b"
  by (auto simp: checked_add_def)

text \<open>The way the machine computes it, for evaluation.\<close>

lemma checked_add_code [code]: "checked_add a b = (if a + b < a then None else Some (a + b))"
proof (cases "unat a + unat b < 2 ^ 64")
  case True
  then have "unat (a + b) = unat a + unat b" by (simp add: unat_word_ariths)
  then show ?thesis using True by (simp add: checked_add_def word_less_nat_alt)
next
  case False
  have less: "unat a < 2 ^ 64" "unat b < 2 ^ 64"
    using unsigned_less [of a, where 'a = nat] unsigned_less [of b, where 'a = nat] by simp_all
  then have "unat a + unat b < 2 ^ 64 + 2 ^ 64" by (rule add_strict_mono)
  with False have "unat (a + b) = unat a + unat b - 2 ^ 64"
    unfolding unat_word_ariths by (simp add: le_mod_geq del: power_numeral)
  then have "a + b < a" using False less unfolding word_less_nat_alt by linarith
  then show ?thesis using False by (simp add: checked_add_def)
qed

lemma checked_sub_Some: "checked_sub a b = Some c \<Longrightarrow> c = a - b \<and> unat c = unat a - unat b"
  by (auto simp: checked_sub_def unat_sub word_le_nat_alt split: if_splits)

lemma unat_u64_less [simp]: "unat (w :: u64) < 18446744073709551616"
  using unsigned_less [of w] by simp

lemma unat_of_nat_u64: "n < 2 ^ 64 \<Longrightarrow> unat (of_nat n :: u64) = n"
  by (simp add: unat_of_nat)

lemma of_nat_u64_eq_0: "n < 2 ^ 64 \<Longrightarrow> (of_nat n :: u64) = 0 \<longleftrightarrow> n = 0"
  by (simp add: word_unat_eq_iff unat_of_nat_u64)

subsection \<open>Non-zero integers\<close>

text \<open>
  \<open>NonZeroU64\<close> and (on the supported 64-bit targets) \<open>NonZeroUsize\<close>: \<open>nz_new\<close> is the checked
  constructor \<open>NonZero::new\<close>, \<open>nz_get\<close> is \<open>get\<close>, \<open>nz_min\<close> is \<open>MIN\<close>.  \<open>nz w\<close> is the constructor
  followed by \<open>unwrap\<close> where \<open>w\<close> is not zero; the witnesses write their identities with it.
\<close>

typedef NonZeroU64 = "{w :: u64. w \<noteq> 0}" morphisms nz_get nz_abs
  by (rule exI [of _ 1]) simp

type_synonym NonZeroUsize = NonZeroU64

declare nz_get_inverse [code abstype]

definition nz :: "u64 \<Rightarrow> NonZeroU64" where
  "nz w = nz_abs (if w = 0 then 1 else w)"

definition nz_min :: NonZeroU64 where
  "nz_min = nz 1"

definition nz_new :: "u64 \<Rightarrow> NonZeroU64 option" where
  "nz_new w = (if w = 0 then None else Some (nz w))"

instantiation NonZeroU64 :: equal
begin

definition equal_NonZeroU64 :: "NonZeroU64 \<Rightarrow> NonZeroU64 \<Rightarrow> bool" where
  "equal_NonZeroU64 a b \<longleftrightarrow> nz_get a = nz_get b"

instance
  by standard (simp add: equal_NonZeroU64_def nz_get_inject)

end

instantiation NonZeroU64 :: linorder
begin

definition less_eq_NonZeroU64 :: "NonZeroU64 \<Rightarrow> NonZeroU64 \<Rightarrow> bool" where
  "a \<le> b \<longleftrightarrow> nz_get a \<le> nz_get b"

definition less_NonZeroU64 :: "NonZeroU64 \<Rightarrow> NonZeroU64 \<Rightarrow> bool" where
  "a < b \<longleftrightarrow> nz_get a < nz_get b"

instance
  by standard (auto simp: less_eq_NonZeroU64_def less_NonZeroU64_def nz_get_inject order.strict_iff_order)

end

lemma nz_get_nonzero [simp]: "nz_get n \<noteq> 0"
  using nz_get [of n] by simp

lemma nz_get_pos [simp]: "0 < unat (nz_get n)"
  by (simp add: unat_gt_0)

lemma nz_get_nz [simp, code abstract]: "nz_get (nz w) = (if w = 0 then 1 else w)"
  by (simp add: nz_def nz_abs_inverse)

lemma nz_get_nz_min [simp]: "nz_get nz_min = 1"
  by (simp add: nz_min_def)

lemma nz_eq_iff [simp]: "nz v = nz w \<longleftrightarrow> (if v = 0 then 1 else v) = (if w = 0 then 1 else w)"
  by (simp only: nz_get_inject [symmetric] nz_get_nz)

lemma nz_new_get [simp]: "nz_new (nz_get n) = Some n"
  by (simp add: nz_new_def nz_get_inject [symmetric])

lemma nz_new_None [simp]: "nz_new w = None \<longleftrightarrow> w = 0"
  by (simp add: nz_new_def)

lemma nz_new_Some: "nz_new w = Some n \<Longrightarrow> nz_get n = w"
  by (auto simp: nz_new_def split: if_splits)

subsection \<open>Comparison\<close>

datatype Ordering = Less | Equal | Greater

definition cmp :: "'a::linorder \<Rightarrow> 'a \<Rightarrow> Ordering" where
  "cmp a b = (if a < b then Less else if a = b then Equal else Greater)"

lemma cmp_simps [simp]:
  "cmp a b = Less \<longleftrightarrow> a < b"
  "cmp a b = Equal \<longleftrightarrow> a = b"
  "cmp a b = Greater \<longleftrightarrow> b < a"
  by (auto simp: cmp_def)

subsection \<open>Panics\<close>

datatype panic = Panic string

text \<open>The \<open>?\<close> operator and the propagation of a panic: the first \<open>Inl\<close> is the result.\<close>

fun and_then :: "'x + 'a \<Rightarrow> ('a \<Rightarrow> 'x + 'b) \<Rightarrow> 'x + 'b" where
  "and_then (Inl p) f = Inl p"
| "and_then (Inr x) f = f x"

fun expect :: "'a option \<Rightarrow> string \<Rightarrow> panic + 'a" where
  "expect None msg = Inl (Panic msg)"
| "expect (Some x) msg = Inr x"

lemma and_then_Inr [simp]: "and_then r f = Inr y \<longleftrightarrow> (\<exists>x. r = Inr x \<and> f x = Inr y)"
  by (cases r) auto

lemma and_then_Inl: "and_then r f = Inl p \<longleftrightarrow> r = Inl p \<or> (\<exists>x. r = Inr x \<and> f x = Inl p)"
  by (cases r) auto

lemma and_then_return [simp]: "and_then r Inr = r"
  by (cases r) auto

lemma and_then_assoc: "and_then (and_then r f) g = and_then r (\<lambda>x. and_then (f x) g)"
  by (cases r) auto

lemma and_then_cong [fundef_cong]:
  "r = r' \<Longrightarrow> (\<And>x. r' = Inr x \<Longrightarrow> f x = f' x) \<Longrightarrow> and_then r f = and_then r' f'"
  by (cases r') auto

lemma expect_Inr [simp]: "expect v msg = Inr x \<longleftrightarrow> v = Some x"
  by (cases v) auto

lemma expect_Inl [simp]: "expect v msg = Inl p \<longleftrightarrow> v = None \<and> p = Panic msg"
  by (cases v) auto

subsection \<open>Lists and multisets\<close>

lemma sum_list_singletons [simp]: "(\<Sum>x\<leftarrow>xs. {#f x#}) = mset (map f xs)"
  by (induction xs) auto

lemma mset_filter_split: "mset xs = mset (filter P xs) + mset (filter (\<lambda>x. \<not> P x) xs)"
  by (induction xs) auto

text \<open>Two conservation laws in sequence make one.\<close>

lemma conserve_trans:
  fixes s :: "'a multiset"
  assumes "s + e = s1 + b1" and "s1 + x = s2 + b2"
  shows "s + (e + x) = s2 + (b1 + b2)"
proof -
  have "s + (e + x) = s1 + b1 + x" using assms(1) by (simp add: add.assoc [symmetric])
  also have "\<dots> = s1 + x + b1" by (simp add: ac_simps)
  also have "\<dots> = s2 + b2 + b1" using assms(2) by simp
  finally show ?thesis by (simp add: ac_simps)
qed

text \<open>The first element of a list with a property, and \<open>find\<close>, by the prefix before it.\<close>

lemma first_in_list:
  "(\<exists>pre y post. x # xs = pre @ y # post \<and> P pre y) \<longleftrightarrow>
     P [] x \<or> (\<exists>pre y post. xs = pre @ y # post \<and> P (x # pre) y)"
  by (auto simp: Cons_eq_append_conv)

lemma find_Some_first:
  "find P xs = Some x \<longleftrightarrow>
     (\<exists>pre y post. xs = pre @ y # post \<and> (y = x \<and> P y \<and> (\<forall>z\<in>set pre. \<not> P z)))"
proof (induction xs)
  case (Cons y ys)
  then show ?case by (subst first_in_list) auto
qed simp

subsection \<open>Sums over the entries of a map\<close>

text \<open>The sum of what the entries of a finite map hold.\<close>

definition holdings :: "('x \<Rightarrow> 'a :: comm_monoid_add) \<Rightarrow> (nat \<Rightarrow> 'x option) \<Rightarrow> 'a" where
  "holdings f m = (\<Sum>k\<in>dom m. f (the (m k)))"

lemma holdings_empty [simp]: "holdings f (\<lambda>_. None) = 0"
  by (simp add: holdings_def dom_def)

lemma holdings_update:
  assumes "finite (dom m)"
  shows "holdings f (m(k \<mapsto> v)) + (case m k of None \<Rightarrow> 0 | Some u \<Rightarrow> f u) = holdings f m + f v"
proof -
  let ?A = "dom m - {k}"
  have rest: "(\<Sum>j\<in>?A. f (the ((m(k \<mapsto> v)) j))) = (\<Sum>j\<in>?A. f (the (m j)))"
    by (rule sum.cong) auto
  have "holdings f (m(k \<mapsto> v)) = f v + (\<Sum>j\<in>?A. f (the (m j)))"
    unfolding holdings_def dom_fun_upd using assms rest by (simp add: sum.insert_remove)
  moreover have "holdings f m = (case m k of None \<Rightarrow> 0 | Some u \<Rightarrow> f u) + (\<Sum>j\<in>?A. f (the (m j)))"
  proof (cases "m k")
    case None
    then have "?A = dom m" by auto
    with None show ?thesis by (simp add: holdings_def)
  next
    case (Some u)
    then have "k \<in> dom m" by auto
    with Some show ?thesis using sum.remove [OF assms, of k "\<lambda>j. f (the (m j))"] by (simp add: holdings_def)
  qed
  ultimately show ?thesis by (simp add: ac_simps)
qed

lemma holdings_upper:
  fixes f :: "'x \<Rightarrow> nat"
  shows "finite (dom m) \<Longrightarrow> m k = Some v \<Longrightarrow> f v \<le> holdings f m"
  using member_le_sum [of k "dom m" "\<lambda>k. f (the (m k))"] by (auto simp: holdings_def)

lemma holdings_member:
  fixes f :: "'x \<Rightarrow> 'a multiset"
  shows "finite (dom m) \<Longrightarrow> m k = Some v \<Longrightarrow> f v \<subseteq># holdings f m"
  unfolding holdings_def by (subst sum.remove [of _ k]) auto

end
