(* ===== verification/Slot_Types.thy ===== *)
theory Slot_Types
  imports Prelude
begin

section \<open>The data of one entity slot\<close>

text \<open>
  The types of \<open>crates/entity/src/lifecycle/mod.rs\<close> and the phase and trigger enumerations of
  \<open>lifecycle/machine.rs\<close>: activation and dispatch identities, refusals, reservation counts,
  drain progress, the slot itself, the events it consumes and the effects it emits.  The type
  variables \<open>'c\<close>, \<open>'e\<close>, \<open>'l\<close> are the code's \<open>C\<close> (commands), \<open>E\<close> (endpoints) and \<open>L\<close> (leases).
  A constructor keeps the source's name; where two enums share one, the second carries a prefix
  (\<open>P\<close> phases, \<open>T\<close> triggers, \<open>St\<close> drain stages, \<open>Ref\<close> refusals, \<open>Res\<close> resolutions).
\<close>

subsection \<open>Identities\<close>

datatype ActivationId = ActivationId (activation_get: NonZeroU64)

datatype DispatchId = DispatchId (dispatch_get: NonZeroU64)

instantiation ActivationId :: linorder
begin

definition less_eq_ActivationId :: "ActivationId \<Rightarrow> ActivationId \<Rightarrow> bool" where
  "a \<le> b \<longleftrightarrow> activation_get a \<le> activation_get b"

definition less_ActivationId :: "ActivationId \<Rightarrow> ActivationId \<Rightarrow> bool" where
  "a < b \<longleftrightarrow> activation_get a < activation_get b"

instance
  by standard (auto simp: less_eq_ActivationId_def less_ActivationId_def
      order.strict_iff_order activation_get_def split: ActivationId.splits)

end

instantiation DispatchId :: linorder
begin

definition less_eq_DispatchId :: "DispatchId \<Rightarrow> DispatchId \<Rightarrow> bool" where
  "a \<le> b \<longleftrightarrow> dispatch_get a \<le> dispatch_get b"

definition less_DispatchId :: "DispatchId \<Rightarrow> DispatchId \<Rightarrow> bool" where
  "a < b \<longleftrightarrow> dispatch_get a < dispatch_get b"

instance
  by standard (auto simp: less_eq_DispatchId_def less_DispatchId_def
      order.strict_iff_order dispatch_get_def split: DispatchId.splits)

end

datatype 'a Generation = Current 'a | Stale 'a

definition classify :: "ActivationId \<Rightarrow> ActivationId \<Rightarrow> 'a \<Rightarrow> 'a Generation" where
  "classify self observed v =
     (case cmp self observed of
        Equal \<Rightarrow> Current v
      | Less \<Rightarrow> Stale v
      | Greater \<Rightarrow> Stale v)"

lemma classify_eq [simp]:
  "classify self observed v = (if self = observed then Current v else Stale v)"
  by (auto simp: classify_def cmp_def)

subsection \<open>Refusals, drain failures and retirement modes\<close>

datatype Refusal = Busy | RefDraining | Unavailable

datatype DrainStage = StReservations | StFenceEnqueue | StFenceAcknowledgement | StRetirement

record DrainFailure =
  stage :: DrainStage
  outstanding_reservations :: usize

datatype RetirementMode = Graceful | Forced DrainFailure

subsection \<open>Reservation counts\<close>

datatype ReservationCount = Drained | Pending NonZeroUsize

datatype ReservationResolution = Unexpected | ResPending ReservationCount | ResDrained

definition from_len :: "usize \<Rightarrow> ReservationCount" where
  "from_len v = (case nz_new v of Some pending \<Rightarrow> Pending pending | None \<Rightarrow> Drained)"

fun reserve :: "ReservationCount \<Rightarrow> panic + ReservationCount" where
  "reserve Drained = Inr (Pending nz_min)"
| "reserve (Pending v) =
     and_then (expect (checked_add (nz_get v) 1) ''reservations bounded by live dispatches'')
       (\<lambda>n. and_then (expect (nz_new n) ''non-zero count remains non-zero'')
         (\<lambda>m. Inr (Pending m)))"

fun resolve :: "ReservationCount \<Rightarrow> ReservationResolution" where
  "resolve Drained = Unexpected"
| "resolve (Pending v) =
     (case Option.bind (checked_sub (nz_get v) 1) nz_new of
        Some remaining \<Rightarrow> ResPending (Pending remaining)
      | None \<Rightarrow> ResDrained)"

text \<open>The number a count stands for, and the arithmetic of the three operations on it.\<close>

fun reservation_number :: "ReservationCount \<Rightarrow> nat" where
  "reservation_number Drained = 0"
| "reservation_number (Pending v) = unat (nz_get v)"

lemma reservation_number_less: "reservation_number r < 2 ^ 64"
  by (cases r) auto

lemma reservation_number_0 [simp]: "reservation_number r = 0 \<longleftrightarrow> r = Drained"
  by (cases r) (auto simp: unat_eq_0)

lemma reservation_number_from_len: "reservation_number (from_len v) = unat v"
  by (auto simp: from_len_def nz_new_def)

lemma reserve_Inr: "reserve r = Inr r' \<Longrightarrow> reservation_number r' = Suc (reservation_number r)"
  by (cases r) (auto dest!: checked_add_Some nz_new_Some)

lemma reserve_Inr_exists: "Suc (reservation_number r) < 2 ^ 64 \<Longrightarrow> \<exists>r'. reserve r = Inr r'"
proof (cases r)
  case (Pending v)
  moreover assume "Suc (reservation_number r) < 2 ^ 64"
  ultimately have le: "unat (nz_get v) + unat (1 :: u64) < 2 ^ 64" by simp
  then have "nz_get v + 1 \<noteq> 0"
    using unat_word_ariths(1) [of "nz_get v" 1] by fastforce
  with le Pending show ?thesis by (simp add: checked_add_def nz_new_def)
qed simp

lemma reserve_Inl:
  "reserve r = Inl p \<longleftrightarrow>
     reservation_number r = 2 ^ 64 - 1 \<and> p = Panic ''reservations bounded by live dispatches''"
proof (cases "Suc (reservation_number r) < 2 ^ 64")
  case True
  then show ?thesis using reserve_Inr_exists [of r] by auto
next
  case False
  then have n: "reservation_number r = 2 ^ 64 - 1"
    using reservation_number_less [of r] by simp
  show ?thesis
  proof (cases r)
    case (Pending v)
    with n have "checked_add (nz_get v) 1 = None" by (simp add: checked_add_None)
    with Pending n show ?thesis by (auto simp: and_then_Inl)
  qed (use n in simp)
qed

lemma resolve_Unexpected: "resolve r = Unexpected \<longleftrightarrow> r = Drained"
  by (cases r) (auto split: option.splits)

lemma resolve_ResDrained: "resolve r = ResDrained \<Longrightarrow> reservation_number r = 1"
proof (cases r)
  case (Pending v)
  assume "resolve r = ResDrained"
  with Pending have "nz_get v - 1 = 0"
    using nz_get_pos [of v]
    by (auto simp: checked_sub_def nz_new_def simp del: nz_get_pos split: option.splits if_splits)
  then show ?thesis using Pending by simp
qed simp

lemma resolve_ResPending:
  "resolve r = ResPending r' \<Longrightarrow> Suc (reservation_number r') = reservation_number r"
  by (cases r) (auto dest!: checked_sub_Some nz_new_Some split: option.splits bind_splits)

subsection \<open>The slot\<close>

datatype DrainProgress = Reservations NonZeroUsize | FenceAcknowledgement

record 'c ActivationWaiter =
  wt_dispatch_id :: DispatchId
  wt_command :: 'c

record 'c ActivatingSlot =
  ag_activation_id :: ActivationId
  ag_waiters :: "'c ActivationWaiter list"
  ag_waiter_limit :: NonZeroUsize

record ('e, 'l) ActiveSlot =
  ac_activation_id :: ActivationId
  ac_endpoint :: 'e
  ac_lease :: 'l
  ac_reservations :: ReservationCount

record ('e, 'l) DrainingSlot =
  dr_activation_id :: ActivationId
  dr_endpoint :: 'e
  dr_lease :: 'l
  dr_progress :: DrainProgress

datatype ('c, 'e, 'l) EntitySlot =
    Inactive
  | Activating "'c ActivatingSlot"
  | Active "('e, 'l) ActiveSlot"
  | Draining "('e, 'l) DrainingSlot"
  | Retiring ActivationId

subsection \<open>Events and effects\<close>

datatype ('c, 'e, 'l) SlotEvent =
    ClaimActivation ActivationId DispatchId 'c NonZeroUsize
  | Dispatch DispatchId 'c
  | CancelWaiter ActivationId DispatchId
  | ActivationSucceeded ActivationId 'e 'l
  | ActivationFailed ActivationId
  | DeliveryResolved ActivationId "(DispatchId \<times> 'c) option"
  | BeginDrain ActivationId
  | FenceAcknowledged ActivationId
  | ForceDrain ActivationId DrainFailure
  | Terminated ActivationId

datatype ('c, 'e, 'l) SlotEffect =
    StartActivation ActivationId
  | Deliver ActivationId DispatchId 'e 'c
  | Reject DispatchId 'c Refusal
  | EnqueueFence ActivationId 'e
  | Retire ActivationId 'l RetirementMode
  | Remove ActivationId

subsection \<open>Phases and triggers\<close>

datatype LifecyclePhase = PInactive | PActivating | PActive | PDraining | PRetiring

datatype LifecycleTrigger =
    TClaimActivation
  | TDispatch
  | TCancelWaiter
  | TActivationSucceeded
  | TActivationFailed
  | TDeliveryResolved
  | TBeginDrain
  | TFenceAcknowledged
  | TForceDrain
  | TTerminated

fun phase :: "('c, 'e, 'l) EntitySlot \<Rightarrow> LifecyclePhase" where
  "phase Inactive = PInactive"
| "phase (Activating _) = PActivating"
| "phase (Active _) = PActive"
| "phase (Draining _) = PDraining"
| "phase (Retiring _) = PRetiring"

fun slot_activation_id :: "('c, 'e, 'l) EntitySlot \<Rightarrow> ActivationId option" where
  "slot_activation_id Inactive = None"
| "slot_activation_id (Activating st) = Some (ag_activation_id st)"
| "slot_activation_id (Active st) = Some (ac_activation_id st)"
| "slot_activation_id (Draining st) = Some (dr_activation_id st)"
| "slot_activation_id (Retiring a) = Some a"

fun trigger :: "('c, 'e, 'l) SlotEvent \<Rightarrow> LifecycleTrigger" where
  "trigger (ClaimActivation _ _ _ _) = TClaimActivation"
| "trigger (Dispatch _ _) = TDispatch"
| "trigger (CancelWaiter _ _) = TCancelWaiter"
| "trigger (ActivationSucceeded _ _ _) = TActivationSucceeded"
| "trigger (ActivationFailed _) = TActivationFailed"
| "trigger (DeliveryResolved _ _) = TDeliveryResolved"
| "trigger (BeginDrain _) = TBeginDrain"
| "trigger (FenceAcknowledged _) = TFenceAcknowledged"
| "trigger (ForceDrain _ _) = TForceDrain"
| "trigger (Terminated _) = TTerminated"

text \<open>
  Which events the current state handles: the \<open>handles\<close> classification of \<open>lifecycle/mod.rs\<close>,
  arm by arm and in its order.
\<close>

fun handles :: "('c, 'e, 'l) EntitySlot \<Rightarrow> ('c, 'e, 'l) SlotEvent \<Rightarrow> bool" where
  "handles Inactive (Dispatch _ _) = True"
| "handles (Activating _) (Dispatch _ _) = True"
| "handles (Active _) (Dispatch _ _) = True"
| "handles (Draining _) (Dispatch _ _) = True"
| "handles (Retiring _) (Dispatch _ _) = True"
| "handles (Activating _) (ClaimActivation _ _ _ _) = True"
| "handles (Active _) (ClaimActivation _ _ _ _) = True"
| "handles (Draining _) (ClaimActivation _ _ _ _) = True"
| "handles (Retiring _) (ClaimActivation _ _ _ _) = True"
| "handles (Activating st) (CancelWaiter a _) = (ag_activation_id st = a)"
| "handles (Activating st) (ActivationSucceeded a _ _) = (ag_activation_id st = a)"
| "handles (Activating st) (ActivationFailed a) = (ag_activation_id st = a)"
| "handles (Active st) (DeliveryResolved a _) = (ac_activation_id st = a)"
| "handles (Active st) (BeginDrain a) = (ac_activation_id st = a)"
| "handles (Draining st) (DeliveryResolved a _) = (dr_activation_id st = a)"
| "handles (Draining st) (FenceAcknowledged a) = (dr_activation_id st = a)"
| "handles (Draining st) (ForceDrain a _) = (dr_activation_id st = a)"
| "handles (Retiring a) (Terminated observed) = (a = observed)"
| "handles _ _ = False"

subsection \<open>Sample identities\<close>

text \<open>The identities the concrete instances below are written with.\<close>

abbreviation act :: "u64 \<Rightarrow> ActivationId" where
  "act n \<equiv> ActivationId (nz n)"

abbreviation dsp :: "u64 \<Rightarrow> DispatchId" where
  "dsp n \<equiv> DispatchId (nz n)"

end
