(* ===== verification/Effect_Batch.thy ===== *)
theory Effect_Batch
  imports Slot_Types
begin

section \<open>Ordered batches of slot effects\<close>

text \<open>
  \<open>SlotEffectBatch\<close> of \<open>lifecycle/mod.rs\<close>: the storage that keeps no, one or many effects, and
  its operations.  \<open>batch_for_each\<close> threads the closure's captured state \<open>'s\<close>.  The lemmas show
  that the storage is a canonical representation of the effect list (\<open>batch_wf\<close>), that every
  operation keeps it canonical, and that \<open>batch_add\<close> is list concatenation.
\<close>

datatype ('c, 'e, 'l) EffectStorage =
    Empty
  | One "('c, 'e, 'l) SlotEffect"
  | Many "('c, 'e, 'l) SlotEffect list"

datatype ('c, 'e, 'l) SlotEffectBatch =
  SlotEffectBatch (batch_storage: "('c, 'e, 'l) EffectStorage")

definition batch_default :: "('c, 'e, 'l) SlotEffectBatch" where
  "batch_default = SlotEffectBatch Empty"

definition batch_one :: "('c, 'e, 'l) SlotEffect \<Rightarrow> ('c, 'e, 'l) SlotEffectBatch" where
  "batch_one e = SlotEffectBatch (One e)"

definition as_slice :: "('c, 'e, 'l) SlotEffectBatch \<Rightarrow> ('c, 'e, 'l) SlotEffect list" where
  "as_slice b = (case batch_storage b of Empty \<Rightarrow> [] | One e \<Rightarrow> [e] | Many es \<Rightarrow> es)"

definition into_vec :: "('c, 'e, 'l) SlotEffectBatch \<Rightarrow> ('c, 'e, 'l) SlotEffect list" where
  "into_vec b = (case batch_storage b of Empty \<Rightarrow> [] | One e \<Rightarrow> [e] | Many es \<Rightarrow> es)"

definition batch_for_each ::
  "('c, 'e, 'l) SlotEffectBatch \<Rightarrow> ('s \<Rightarrow> ('c, 'e, 'l) SlotEffect \<Rightarrow> 's) \<Rightarrow> 's \<Rightarrow> 's" where
  "batch_for_each b interpret s =
     (case batch_storage b of
        Empty \<Rightarrow> s
      | One e \<Rightarrow> interpret s e
      | Many es \<Rightarrow> foldl interpret s es)"

definition batch_push ::
  "('c, 'e, 'l) SlotEffectBatch \<Rightarrow> ('c, 'e, 'l) SlotEffect \<Rightarrow> ('c, 'e, 'l) SlotEffectBatch" where
  "batch_push b e =
     (case batch_storage b of
        Empty \<Rightarrow> SlotEffectBatch (One e)
      | One first \<Rightarrow> SlotEffectBatch (Many [first, e])
      | Many es \<Rightarrow> SlotEffectBatch (Many (es @ [e])))"

definition batch_extend ::
  "('c, 'e, 'l) SlotEffectBatch \<Rightarrow> ('c, 'e, 'l) SlotEffect list \<Rightarrow> ('c, 'e, 'l) SlotEffectBatch" where
  "batch_extend b es = foldl batch_push b es"

definition batch_from_iter :: "('c, 'e, 'l) SlotEffect list \<Rightarrow> ('c, 'e, 'l) SlotEffectBatch" where
  "batch_from_iter es = batch_extend batch_default es"

definition batch_add ::
  "('c, 'e, 'l) SlotEffectBatch \<Rightarrow> ('c, 'e, 'l) SlotEffectBatch \<Rightarrow> ('c, 'e, 'l) SlotEffectBatch" where
  "batch_add b rhs = batch_for_each rhs batch_push b"

subsection \<open>Canonical form\<close>

text \<open>The batches the operations build: \<open>Many\<close> only ever holds two or more effects.\<close>

fun batch_wf :: "('c, 'e, 'l) SlotEffectBatch \<Rightarrow> bool" where
  "batch_wf (SlotEffectBatch (Many es)) = (2 \<le> length es)"
| "batch_wf _ = True"

lemma as_slice_default [simp]: "as_slice batch_default = []"
  by (simp add: as_slice_def batch_default_def)

lemma as_slice_one [simp]: "as_slice (batch_one e) = [e]"
  by (simp add: as_slice_def batch_one_def)

lemma into_vec_as_slice [simp]: "into_vec b = as_slice b"
  by (simp add: into_vec_def as_slice_def)

lemma as_slice_push [simp]: "as_slice (batch_push b e) = as_slice b @ [e]"
  by (simp add: as_slice_def batch_push_def split: EffectStorage.splits)

lemma batch_for_each_foldl [simp]: "batch_for_each b f s = foldl f s (as_slice b)"
  by (simp add: batch_for_each_def as_slice_def split: EffectStorage.splits)

lemma as_slice_extend [simp]: "as_slice (batch_extend b es) = as_slice b @ es"
  unfolding batch_extend_def by (induction es arbitrary: b) auto

lemma as_slice_from_iter [simp]: "as_slice (batch_from_iter es) = es"
  by (simp add: batch_from_iter_def)

lemma batch_add_extend: "batch_add a b = batch_extend a (as_slice b)"
  by (simp add: batch_add_def batch_extend_def)

lemma as_slice_add [simp]: "as_slice (batch_add a b) = as_slice a @ as_slice b"
  by (simp add: batch_add_extend)

lemma batch_wf_default [simp]: "batch_wf batch_default"
  by (simp add: batch_default_def)

lemma batch_wf_one [simp]: "batch_wf (batch_one e)"
  by (simp add: batch_one_def)

lemma batch_wf_push [simp]: "batch_wf b \<Longrightarrow> batch_wf (batch_push b e)"
  by (cases b rule: batch_wf.cases) (auto simp: batch_push_def)

lemma batch_wf_extend [simp]: "batch_wf b \<Longrightarrow> batch_wf (batch_extend b es)"
  unfolding batch_extend_def by (induction es arbitrary: b) auto

lemma batch_wf_from_iter [simp]: "batch_wf (batch_from_iter es)"
  by (simp add: batch_from_iter_def)

lemma batch_wf_add [simp]: "batch_wf a \<Longrightarrow> batch_wf (batch_add a b)"
  by (simp add: batch_add_extend)

lemma batch_wf_unique: "batch_wf a \<Longrightarrow> batch_wf b \<Longrightarrow> as_slice a = as_slice b \<Longrightarrow> a = b"
  by (cases a rule: batch_wf.cases; cases b rule: batch_wf.cases) (auto simp: as_slice_def)

lemma batch_from_iter_as_slice: "batch_wf b \<Longrightarrow> batch_from_iter (as_slice b) = b"
  by (rule batch_wf_unique) simp_all

lemma batch_add_assoc: "batch_add (batch_add a b) c = batch_add a (batch_add b c)"
  by (simp add: batch_add_extend) (simp add: batch_extend_def)

lemma batch_add_default_right [simp]: "batch_add b batch_default = b"
  by (simp add: batch_add_extend batch_extend_def)

lemma batch_add_default_left [simp]: "batch_wf b \<Longrightarrow> batch_add batch_default b = b"
  by (rule batch_wf_unique) simp_all

subsection \<open>Properties\<close>

text \<open>
  On the batches the code builds, \<open>+\<close> with the empty batch is a monoid that appends effect
  lists in order, and a batch is determined by its effect list (so collecting the slice of a
  batch gives the batch back).
\<close>

theorem effect_batch_monoid:
  "as_slice (batch_add a b) = as_slice a @ as_slice b \<and>
   batch_add (batch_add a b) c = batch_add a (batch_add b c) \<and>
   batch_add a batch_default = a \<and>
   batch_add batch_default (batch_from_iter es) = batch_from_iter es \<and>
   batch_from_iter (as_slice (batch_from_iter es)) = batch_from_iter es \<and>
   into_vec (batch_from_iter es) = es"
  by (simp add: batch_add_assoc)

end
