(* ===== verification/Decision.thy ===== *)
theory Decision
  imports Prelude
begin

section \<open>Decisions of a reducer\<close>

text \<open>
  \<open>Decision\<close> of \<open>crates/transition/src/lib.rs\<close>: the successor state and the effects of one
  reduction, with its constructor and its three maps.  An instance of the trait \<open>Reducer\<close> is a
  function \<open>'s \<Rightarrow> 'ev \<Rightarrow> panic + ('s, 'f) Decision\<close>.
\<close>

record ('s, 'f) Decision =
  dec_state :: 's
  dec_effects :: 'f

definition decision_new :: "'s \<Rightarrow> 'f \<Rightarrow> ('s, 'f) Decision" where
  "decision_new s f = \<lparr>dec_state = s, dec_effects = f\<rparr>"

definition map_effects :: "('s, 'f) Decision \<Rightarrow> ('f \<Rightarrow> 'g) \<Rightarrow> ('s, 'g) Decision" where
  "map_effects d g = decision_new (dec_state d) (g (dec_effects d))"

definition map_state :: "('s, 'f) Decision \<Rightarrow> ('s \<Rightarrow> 't) \<Rightarrow> ('t, 'f) Decision" where
  "map_state d g = decision_new (g (dec_state d)) (dec_effects d)"

definition decision_map :: "('s, 'f) Decision \<Rightarrow> ('s \<Rightarrow> 't) \<Rightarrow> ('f \<Rightarrow> 'g) \<Rightarrow> ('t, 'g) Decision" where
  "decision_map d g h = decision_new (g (dec_state d)) (h (dec_effects d))"

lemma dec_state_new [simp]: "dec_state (decision_new s f) = s"
  by (simp add: decision_new_def)

lemma dec_effects_new [simp]: "dec_effects (decision_new s f) = f"
  by (simp add: decision_new_def)

lemma decision_new_collapse [simp]: "decision_new (dec_state d) (dec_effects d) = d"
  by (simp add: decision_new_def)

lemma decision_new_eq [simp]: "decision_new s f = decision_new s' f' \<longleftrightarrow> s = s' \<and> f = f'"
  by (simp add: decision_new_def)

lemma decision_map_split:
  "decision_map d g h = map_effects (map_state d g) h"
  "decision_map d g h = map_state (map_effects d h) g"
  by (simp_all add: decision_map_def map_state_def map_effects_def)

end
