(* ===== verification/Slot_Reducer.thy ===== *)
theory Slot_Reducer
  imports Decision Effect_Batch
begin

section \<open>The reducer of one entity slot\<close>

text \<open>
  The decision functions of \<open>lifecycle/mod.rs\<close>, \<open>lifecycle/inactive.rs\<close> and
  \<open>lifecycle/retiring.rs\<close>, one HOL function per Rust function and one equation per match arm, in
  the code's order.  Only \<open>decide_active\<close> can panic (the reservation count's \<open>expect\<close>), so it
  and everything that calls it return \<open>panic + decision\<close>.
\<close>

type_synonym ('c, 'e, 'l) SlotDecision =
  "(('c, 'e, 'l) EntitySlot, ('c, 'e, 'l) SlotEffectBatch) Decision"

definition decision ::
  "('c, 'e, 'l) EntitySlot \<Rightarrow> ('c, 'e, 'l) SlotEffectBatch \<Rightarrow> ('c, 'e, 'l) SlotDecision" where
  "decision st effects = decision_new st effects"

definition reject ::
  "('c, 'e, 'l) EntitySlot \<Rightarrow> DispatchId \<Rightarrow> 'c \<Rightarrow> Refusal \<Rightarrow> ('c, 'e, 'l) SlotDecision" where
  "reject st d c reason = decision st (batch_one (Reject d c reason))"

fun reject_failed_delivery ::
  "('c, 'e, 'l) EntitySlot \<Rightarrow> (DispatchId \<times> 'c) option \<Rightarrow> Refusal \<Rightarrow> ('c, 'e, 'l) SlotDecision" where
  "reject_failed_delivery st (Some (d, c)) reason = reject st d c reason"
| "reject_failed_delivery st None reason = decision st batch_default"

definition retire_stale ::
  "('c, 'e, 'l) EntitySlot \<Rightarrow> ActivationId \<Rightarrow> 'l \<Rightarrow> ('c, 'e, 'l) SlotDecision" where
  "retire_stale st a lease =
     decision st
       (batch_one (Retire a lease
          (Forced \<lparr>stage = StRetirement, outstanding_reservations = 0\<rparr>)))"

definition with_effect ::
  "('c, 'e, 'l) SlotDecision \<Rightarrow> ('c, 'e, 'l) SlotEffect \<Rightarrow> ('c, 'e, 'l) SlotDecision" where
  "with_effect d effect =
     decision_new (dec_state d) (batch_add (dec_effects d) (batch_one effect))"

subsection \<open>Inactive\<close>

fun decide_inactive :: "('c, 'e, 'l) SlotEvent \<Rightarrow> ('c, 'e, 'l) SlotDecision" where
  "decide_inactive (ClaimActivation a d c limit) =
     decision
       (Activating \<lparr>ag_activation_id = a,
          ag_waiters = [\<lparr>wt_dispatch_id = d, wt_command = c\<rparr>], ag_waiter_limit = limit\<rparr>)
       (batch_one (StartActivation a))"
| "decide_inactive (Dispatch d c) = reject Inactive d c Unavailable"
| "decide_inactive (ActivationSucceeded a endpoint lease) = retire_stale Inactive a lease"
| "decide_inactive (DeliveryResolved _ failure) =
     reject_failed_delivery Inactive failure Unavailable"
| "decide_inactive _ = decision Inactive batch_default"

subsection \<open>Activating\<close>

definition finish_activation ::
  "'c ActivatingSlot \<Rightarrow> ActivationId \<Rightarrow> 'e \<Rightarrow> 'l \<Rightarrow> ('c, 'e, 'l) SlotDecision" where
  "finish_activation st a endpoint lease =
     (case classify (ag_activation_id st) a (endpoint, lease) of
        Current (endpoint, lease) \<Rightarrow>
          decision
            (Active \<lparr>ac_activation_id = a, ac_endpoint = endpoint, ac_lease = lease,
               ac_reservations = from_len (of_nat (length (ag_waiters st)))\<rparr>)
            (batch_from_iter
               (map (\<lambda>w. Deliver a (wt_dispatch_id w) endpoint (wt_command w)) (ag_waiters st)))
      | Stale (_, lease) \<Rightarrow> retire_stale (Activating st) a lease)"

definition fail_activation :: "'c ActivatingSlot \<Rightarrow> ActivationId \<Rightarrow> ('c, 'e, 'l) SlotDecision" where
  "fail_activation st a =
     (case classify (ag_activation_id st) a () of
        Current _ \<Rightarrow>
          decision Inactive
            (batch_from_iter
               (map (\<lambda>w. Reject (wt_dispatch_id w) (wt_command w) Unavailable) (ag_waiters st)
                @ [Remove a]))
      | Stale _ \<Rightarrow> decision (Activating st) batch_default)"

fun decide_activating ::
  "'c ActivatingSlot \<Rightarrow> ('c, 'e, 'l) SlotEvent \<Rightarrow> ('c, 'e, 'l) SlotDecision" where
  "decide_activating st (Dispatch d c) =
     (case cmp (length (ag_waiters st)) (unat (nz_get (ag_waiter_limit st))) of
        Less \<Rightarrow>
          decision
            (Activating (st\<lparr>ag_waiters :=
               ag_waiters st @ [\<lparr>wt_dispatch_id = d, wt_command = c\<rparr>]\<rparr>))
            batch_default
      | Equal \<Rightarrow> reject (Activating st) d c Busy
      | Greater \<Rightarrow> reject (Activating st) d c Busy)"
| "decide_activating st (CancelWaiter a d) =
     (case classify (ag_activation_id st) a d of
        Current d \<Rightarrow>
          decision
            (Activating (st\<lparr>ag_waiters := filter (\<lambda>w. wt_dispatch_id w \<noteq> d) (ag_waiters st)\<rparr>))
            batch_default
      | Stale _ \<Rightarrow> decision (Activating st) batch_default)"
| "decide_activating st (ActivationSucceeded a endpoint lease) =
     finish_activation st a endpoint lease"
| "decide_activating st (ActivationFailed a) = fail_activation st a"
| "decide_activating st (ClaimActivation _ d c _) = reject (Activating st) d c Busy"
| "decide_activating st (DeliveryResolved _ failure) =
     reject_failed_delivery (Activating st) failure Unavailable"
| "decide_activating st _ = decision (Activating st) batch_default"

subsection \<open>Active\<close>

definition resolve_active_delivery ::
  "('e, 'l) ActiveSlot \<Rightarrow> (DispatchId \<times> 'c) option \<Rightarrow> ('c, 'e, 'l) SlotDecision" where
  "resolve_active_delivery st failure =
     (case resolve (ac_reservations st) of
        Unexpected \<Rightarrow> reject_failed_delivery (Active st) failure Unavailable
      | ResPending reservations \<Rightarrow>
          reject_failed_delivery (Active (st\<lparr>ac_reservations := reservations\<rparr>)) failure Unavailable
      | ResDrained \<Rightarrow>
          reject_failed_delivery (Active (st\<lparr>ac_reservations := Drained\<rparr>)) failure Unavailable)"

definition begin_drain :: "('e, 'l) ActiveSlot \<Rightarrow> ('c, 'e, 'l) SlotDecision" where
  "begin_drain st =
     (case ac_reservations st of
        Drained \<Rightarrow>
          decision
            (Draining \<lparr>dr_activation_id = ac_activation_id st, dr_endpoint = ac_endpoint st,
               dr_lease = ac_lease st, dr_progress = FenceAcknowledgement\<rparr>)
            (batch_one (EnqueueFence (ac_activation_id st) (ac_endpoint st)))
      | Pending pending \<Rightarrow>
          decision
            (Draining \<lparr>dr_activation_id = ac_activation_id st, dr_endpoint = ac_endpoint st,
               dr_lease = ac_lease st, dr_progress = Reservations pending\<rparr>)
            batch_default)"

fun decide_active ::
  "('e, 'l) ActiveSlot \<Rightarrow> ('c, 'e, 'l) SlotEvent \<Rightarrow> panic + ('c, 'e, 'l) SlotDecision" where
  "decide_active st (Dispatch d c) =
     and_then (reserve (ac_reservations st)) (\<lambda>reservations.
       Inr (decision (Active (st\<lparr>ac_reservations := reservations\<rparr>))
              (batch_one (Deliver (ac_activation_id st) d (ac_endpoint st) c))))"
| "decide_active st (DeliveryResolved a failure) =
     (case classify (ac_activation_id st) a failure of
        Current failure \<Rightarrow> Inr (resolve_active_delivery st failure)
      | Stale failure \<Rightarrow> Inr (reject_failed_delivery (Active st) failure Unavailable))"
| "decide_active st (BeginDrain a) =
     (case classify (ac_activation_id st) a () of
        Current _ \<Rightarrow> Inr (begin_drain st)
      | Stale _ \<Rightarrow> Inr (decision (Active st) batch_default))"
| "decide_active st (ActivationSucceeded a _ lease) = Inr (retire_stale (Active st) a lease)"
| "decide_active st (ClaimActivation _ d c _) = Inr (reject (Active st) d c Busy)"
| "decide_active st _ = Inr (decision (Active st) batch_default)"

subsection \<open>Draining\<close>

definition resolve_draining_delivery ::
  "('e, 'l) DrainingSlot \<Rightarrow> (DispatchId \<times> 'c) option \<Rightarrow> ('c, 'e, 'l) SlotDecision" where
  "resolve_draining_delivery st failure =
     (case dr_progress st of
        FenceAcknowledgement \<Rightarrow> reject_failed_delivery (Draining st) failure Unavailable
      | Reservations pending \<Rightarrow>
          (case Option.bind (checked_sub (nz_get pending) 1) nz_new of
             Some remaining \<Rightarrow>
               reject_failed_delivery (Draining (st\<lparr>dr_progress := Reservations remaining\<rparr>))
                 failure Unavailable
           | None \<Rightarrow>
               with_effect
                 (reject_failed_delivery (Draining (st\<lparr>dr_progress := FenceAcknowledgement\<rparr>))
                    failure Unavailable)
                 (EnqueueFence (dr_activation_id st) (dr_endpoint st))))"

definition acknowledge_fence :: "('e, 'l) DrainingSlot \<Rightarrow> ('c, 'e, 'l) SlotDecision" where
  "acknowledge_fence st =
     (case dr_progress st of
        Reservations _ \<Rightarrow> decision (Draining st) batch_default
      | FenceAcknowledgement \<Rightarrow>
          decision (Retiring (dr_activation_id st))
            (batch_one (Retire (dr_activation_id st) (dr_lease st) Graceful)))"

definition force_drain :: "('e, 'l) DrainingSlot \<Rightarrow> DrainFailure \<Rightarrow> ('c, 'e, 'l) SlotDecision" where
  "force_drain st failure =
     decision (Retiring (dr_activation_id st))
       (batch_one (Retire (dr_activation_id st) (dr_lease st) (Forced failure)))"

fun decide_draining ::
  "('e, 'l) DrainingSlot \<Rightarrow> ('c, 'e, 'l) SlotEvent \<Rightarrow> ('c, 'e, 'l) SlotDecision" where
  "decide_draining st (Dispatch d c) = reject (Draining st) d c RefDraining"
| "decide_draining st (ClaimActivation _ d c _) = reject (Draining st) d c RefDraining"
| "decide_draining st (DeliveryResolved a failure) =
     (case classify (dr_activation_id st) a failure of
        Current failure \<Rightarrow> resolve_draining_delivery st failure
      | Stale failure \<Rightarrow> reject_failed_delivery (Draining st) failure Unavailable)"
| "decide_draining st (FenceAcknowledged a) =
     (case classify (dr_activation_id st) a () of
        Current _ \<Rightarrow> acknowledge_fence st
      | Stale _ \<Rightarrow> decision (Draining st) batch_default)"
| "decide_draining st (ForceDrain a failure) =
     (case classify (dr_activation_id st) a failure of
        Current failure \<Rightarrow> force_drain st failure
      | Stale _ \<Rightarrow> decision (Draining st) batch_default)"
| "decide_draining st (ActivationSucceeded a _ lease) = retire_stale (Draining st) a lease"
| "decide_draining st _ = decision (Draining st) batch_default"

subsection \<open>Retiring\<close>

fun decide_retiring ::
  "ActivationId \<Rightarrow> ('c, 'e, 'l) SlotEvent \<Rightarrow> ('c, 'e, 'l) SlotDecision" where
  "decide_retiring a (Terminated observed) =
     (case classify a observed () of
        Current _ \<Rightarrow> decision Inactive (batch_one (Remove a))
      | Stale _ \<Rightarrow> decision (Retiring a) batch_default)"
| "decide_retiring a (Dispatch d c) = reject (Retiring a) d c RefDraining"
| "decide_retiring a (ClaimActivation _ d c _) = reject (Retiring a) d c RefDraining"
| "decide_retiring a (ActivationSucceeded stale_id _ lease) =
     retire_stale (Retiring a) stale_id lease"
| "decide_retiring a (DeliveryResolved _ failure) =
     reject_failed_delivery (Retiring a) failure Unavailable"
| "decide_retiring a _ = decision (Retiring a) batch_default"

subsection \<open>The reducer and its folds\<close>

fun reduce ::
  "('c, 'e, 'l) EntitySlot \<Rightarrow> ('c, 'e, 'l) SlotEvent \<Rightarrow> panic + ('c, 'e, 'l) SlotDecision" where
  "reduce Inactive ev = Inr (decide_inactive ev)"
| "reduce (Activating st) ev = Inr (decide_activating st ev)"
| "reduce (Active st) ev = decide_active st ev"
| "reduce (Draining st) ev = Inr (decide_draining st ev)"
| "reduce (Retiring a) ev = Inr (decide_retiring a ev)"

definition decide ::
  "('c, 'e, 'l) EntitySlot \<Rightarrow> ('c, 'e, 'l) SlotEvent \<Rightarrow> panic + ('c, 'e, 'l) SlotDecision" where
  "decide slot ev = reduce slot ev"

definition decide_all_step ::
  "panic + ('c, 'e, 'l) SlotDecision \<Rightarrow> ('c, 'e, 'l) SlotEvent \<Rightarrow> panic + ('c, 'e, 'l) SlotDecision"
where
  "decide_all_step acc ev =
     and_then acc (\<lambda>accumulated.
       and_then (reduce (dec_state accumulated) ev) (\<lambda>d.
         Inr (decision_new (dec_state d) (batch_add (dec_effects accumulated) (dec_effects d)))))"

definition decide_all ::
  "('c, 'e, 'l) EntitySlot \<Rightarrow> ('c, 'e, 'l) SlotEvent list \<Rightarrow> panic + ('c, 'e, 'l) SlotDecision" where
  "decide_all slot events =
     foldl decide_all_step (Inr (decision_new slot batch_default)) events"

end
