(* ===== verification/Slot_Invariants.thy ===== *)
theory Slot_Invariants
  imports Slot_Reducer
begin

section \<open>What every slot decision keeps\<close>

text \<open>
  The properties of one reduction and of a stream of them: commands and leases are neither lost
  nor copied, events of another generation are inert, a closed incarnation never admits again,
  the bounds of waiter sets and reservation counts, and \<open>decide_all\<close> as the fold it is meant
  to be.
\<close>

lemmas decision_defs =
  decision_def reject_def retire_stale_def with_effect_def
  finish_activation_def fail_activation_def resolve_active_delivery_def begin_drain_def
  resolve_draining_delivery_def acknowledge_fence_def force_drain_def

lemma reject_failed_delivery_eq:
  "reject_failed_delivery st failure reason =
     decision_new st
       (case failure of None \<Rightarrow> batch_default | Some (d, c) \<Rightarrow> batch_one (Reject d c reason))"
  by (cases failure) (auto simp: decision_defs)

lemmas reducer_simps = decision_defs reject_failed_delivery_eq

subsection \<open>Effects of a slot, one equation per outcome\<close>

text \<open>The effects a decision emits when its event has nothing to do with the current state.\<close>

fun cleanup :: "('c, 'e, 'l) SlotEvent \<Rightarrow> ('c, 'e, 'l) SlotEffect list" where
  "cleanup (ActivationSucceeded a _ lease) =
     [Retire a lease (Forced \<lparr>stage = StRetirement, outstanding_reservations = 0\<rparr>)]"
| "cleanup (DeliveryResolved _ (Some (d, c))) = [Reject d c Unavailable]"
| "cleanup _ = []"

text \<open>The activation an event is a fact about; a claim and a dispatch are about none.\<close>

fun event_generation :: "('c, 'e, 'l) SlotEvent \<Rightarrow> ActivationId option" where
  "event_generation (ClaimActivation _ _ _ _) = None"
| "event_generation (Dispatch _ _) = None"
| "event_generation (CancelWaiter a _) = Some a"
| "event_generation (ActivationSucceeded a _ _) = Some a"
| "event_generation (ActivationFailed a) = Some a"
| "event_generation (DeliveryResolved a _) = Some a"
| "event_generation (BeginDrain a) = Some a"
| "event_generation (FenceAcknowledged a) = Some a"
| "event_generation (ForceDrain a _) = Some a"
| "event_generation (Terminated a) = Some a"

lemma cleanup_DeliveryResolved:
  "cleanup (DeliveryResolved a failure) =
     (case failure of None \<Rightarrow> [] | Some (d, c) \<Rightarrow> [Reject d c Unavailable])"
  by (cases failure) auto

lemma unhandled_reduce:
  assumes "\<not> handles slot ev" and "slot = Inactive \<Longrightarrow> trigger ev \<noteq> TClaimActivation"
  shows "\<exists>b. reduce slot ev = Inr (decision_new slot b) \<and> as_slice b = cleanup ev"
  using assms
  by (cases slot; cases ev)
    (auto simp: reducer_simps cleanup_DeliveryResolved split: option.splits prod.splits)

lemma stale_unhandled:
  "event_generation ev = Some a \<Longrightarrow> slot_activation_id slot \<noteq> Some a \<Longrightarrow> \<not> handles slot ev"
  by (cases slot; cases ev) auto

subsection \<open>Command ownership\<close>

fun slot_commands :: "('c, 'e, 'l) EntitySlot \<Rightarrow> (DispatchId \<times> 'c) multiset" where
  "slot_commands (Activating st) =
     mset (map (\<lambda>w. (wt_dispatch_id w, wt_command w)) (ag_waiters st))"
| "slot_commands _ = {#}"

fun event_commands :: "('c, 'e, 'l) SlotEvent \<Rightarrow> (DispatchId \<times> 'c) multiset" where
  "event_commands (ClaimActivation _ d c _) = {#(d, c)#}"
| "event_commands (Dispatch d c) = {#(d, c)#}"
| "event_commands (DeliveryResolved _ (Some dc)) = {#dc#}"
| "event_commands _ = {#}"

fun effect_commands :: "('c, 'e, 'l) SlotEffect \<Rightarrow> (DispatchId \<times> 'c) multiset" where
  "effect_commands (Deliver _ d _ c) = {#(d, c)#}"
| "effect_commands (Reject d c _) = {#(d, c)#}"
| "effect_commands _ = {#}"

definition batch_commands :: "('c, 'e, 'l) SlotEffectBatch \<Rightarrow> (DispatchId \<times> 'c) multiset" where
  "batch_commands b = (\<Sum>e\<leftarrow>as_slice b. effect_commands e)"

text \<open>The commands a canceled caller gives up: dropped with its waiter seat.\<close>

fun canceled_commands ::
  "('c, 'e, 'l) EntitySlot \<Rightarrow> ('c, 'e, 'l) SlotEvent \<Rightarrow> (DispatchId \<times> 'c) multiset" where
  "canceled_commands (Activating st) (CancelWaiter a d) =
     (if ag_activation_id st = a
      then mset (map (\<lambda>w. (wt_dispatch_id w, wt_command w))
             (filter (\<lambda>w. wt_dispatch_id w = d) (ag_waiters st)))
      else {#})"
| "canceled_commands _ _ = {#}"

lemma batch_commands_simps [simp]:
  "batch_commands batch_default = {#}"
  "batch_commands (batch_one e) = effect_commands e"
  "batch_commands (batch_add a b) = batch_commands a + batch_commands b"
  "batch_commands (batch_from_iter es) = (\<Sum>e\<leftarrow>es. effect_commands e)"
  by (simp_all add: batch_commands_def)

lemma event_commands_DeliveryResolved [simp]:
  "event_commands (DeliveryResolved a failure) =
     (case failure of None \<Rightarrow> {#} | Some dc \<Rightarrow> {#dc#})"
  by (cases failure) auto

lemma reject_failed_delivery_commands [simp]:
  "batch_commands (dec_effects (reject_failed_delivery st failure reason)) =
     (case failure of None \<Rightarrow> {#} | Some dc \<Rightarrow> {#dc#})"
  by (auto simp: reject_failed_delivery_eq split: option.splits)

lemma reject_failed_delivery_state [simp]:
  "dec_state (reject_failed_delivery st failure reason) = st"
  by (simp add: reject_failed_delivery_eq)

lemma reduce_commands:
  "reduce slot ev = Inr d \<Longrightarrow>
     slot_commands slot + event_commands ev =
     slot_commands (dec_state d) + batch_commands (dec_effects d) + canceled_commands slot ev"
proof (cases slot)
  case (Activating st)
  have "mset (map f xs) = mset (map f (filter (\<lambda>w. wt_dispatch_id w \<noteq> i) xs))
      + mset (map f (filter (\<lambda>w. wt_dispatch_id w = i) xs))" for f :: "'a ActivationWaiter \<Rightarrow> DispatchId \<times> 'a" and i xs
    by (induction xs) auto
  moreover assume "reduce slot ev = Inr d"
  ultimately show ?thesis using Activating
    by (cases ev) (auto simp: decision_defs comp_def split: Ordering.splits)
next
  case (Draining st)
  moreover assume "reduce slot ev = Inr d"
  ultimately show ?thesis
    by (cases ev) (auto simp: decision_defs split: option.splits DrainProgress.splits)
next
  case (Active st)
  moreover assume "reduce slot ev = Inr d"
  ultimately show ?thesis
    by (cases ev)
      (auto simp: decision_defs split: option.splits ReservationCount.splits
        ReservationResolution.splits if_splits)
next
  case Inactive
  moreover assume "reduce slot ev = Inr d"
  ultimately show ?thesis
    by (cases ev) (auto simp: decision_defs)
next
  case (Retiring a)
  moreover assume "reduce slot ev = Inr d"
  ultimately show ?thesis
    by (cases ev) (auto simp: decision_defs)
qed

subsection \<open>Lease ownership\<close>

fun slot_leases :: "('c, 'e, 'l) EntitySlot \<Rightarrow> (ActivationId \<times> 'l) multiset" where
  "slot_leases (Active st) = {#(ac_activation_id st, ac_lease st)#}"
| "slot_leases (Draining st) = {#(dr_activation_id st, dr_lease st)#}"
| "slot_leases _ = {#}"

fun event_leases :: "('c, 'e, 'l) SlotEvent \<Rightarrow> (ActivationId \<times> 'l) multiset" where
  "event_leases (ActivationSucceeded a _ lease) = {#(a, lease)#}"
| "event_leases _ = {#}"

fun effect_leases :: "('c, 'e, 'l) SlotEffect \<Rightarrow> (ActivationId \<times> 'l) multiset" where
  "effect_leases (Retire a lease _) = {#(a, lease)#}"
| "effect_leases _ = {#}"

definition batch_leases :: "('c, 'e, 'l) SlotEffectBatch \<Rightarrow> (ActivationId \<times> 'l) multiset" where
  "batch_leases b = (\<Sum>e\<leftarrow>as_slice b. effect_leases e)"

lemma batch_leases_simps [simp]:
  "batch_leases batch_default = {#}"
  "batch_leases (batch_one e) = effect_leases e"
  "batch_leases (batch_add a b) = batch_leases a + batch_leases b"
  "batch_leases (batch_from_iter es) = (\<Sum>e\<leftarrow>es. effect_leases e)"
  by (simp_all add: batch_leases_def)

lemma reduce_leases:
  "reduce slot ev = Inr d \<Longrightarrow>
     slot_leases slot + event_leases ev = slot_leases (dec_state d) + batch_leases (dec_effects d)"
  by (cases slot; cases ev)
    (auto simp: reducer_simps comp_def sum_list_0 split: option.splits prod.splits Ordering.splits
      DrainProgress.splits ReservationCount.splits ReservationResolution.splits if_splits)

subsection \<open>Streams of events\<close>

lemma reduce_batch_wf: "reduce slot ev = Inr d \<Longrightarrow> batch_wf (dec_effects d)"
  by (cases slot; cases ev)
    (auto simp: reducer_simps split: option.splits prod.splits Ordering.splits
      DrainProgress.splits ReservationCount.splits ReservationResolution.splits if_splits)

lemma decide_all_Nil [simp]: "decide_all slot [] = Inr (decision_new slot batch_default)"
  by (simp add: decide_all_def)

lemma decide_all_step_Inl [simp]: "foldl decide_all_step (Inl p) evs = Inl p"
  by (induction evs) (auto simp: decide_all_step_def)

lemma decide_all_from:
  "foldl decide_all_step (Inr (decision_new slot (batch_add b c))) evs =
   and_then (foldl decide_all_step (Inr (decision_new slot c)) evs) (\<lambda>d.
     Inr (decision_new (dec_state d) (batch_add b (dec_effects d))))"
proof (induction evs rule: rev_induct)
  case (snoc ev evs)
  then show ?case
    by (cases "foldl decide_all_step (Inr (decision_new slot c)) evs")
      (simp_all add: decide_all_step_def batch_add_assoc and_then_assoc)
qed simp

lemma decide_all_append:
  "decide_all slot (xs @ ys) =
     and_then (decide_all slot xs) (\<lambda>d.
       and_then (decide_all (dec_state d) ys) (\<lambda>d'.
         Inr (decision_new (dec_state d') (batch_add (dec_effects d) (dec_effects d')))))"
proof (cases "decide_all slot xs")
  case (Inr d)
  then show ?thesis
    using decide_all_from [of "dec_state d" "dec_effects d" batch_default ys]
    by (simp add: decide_all_def)
qed (simp add: decide_all_def)

lemma decide_all_single: "decide_all slot [ev] = reduce slot ev"
  by (cases "reduce slot ev")
    (auto simp: decide_all_def decide_all_step_def dest: reduce_batch_wf)

lemma decide_all_Cons:
  "decide_all slot (ev # evs) =
     and_then (reduce slot ev) (\<lambda>d.
       and_then (decide_all (dec_state d) evs) (\<lambda>d'.
         Inr (decision_new (dec_state d') (batch_add (dec_effects d) (dec_effects d')))))"
  using decide_all_append [of slot "[ev]" evs] by (simp add: decide_all_single)

fun canceled_all ::
  "('c, 'e, 'l) EntitySlot \<Rightarrow> ('c, 'e, 'l) SlotEvent list \<Rightarrow> (DispatchId \<times> 'c) multiset" where
  "canceled_all slot [] = {#}"
| "canceled_all slot (ev # evs) =
     canceled_commands slot ev +
     (case reduce slot ev of Inl _ \<Rightarrow> {#} | Inr d \<Rightarrow> canceled_all (dec_state d) evs)"

lemma decide_all_commands:
  "decide_all slot evs = Inr d \<Longrightarrow>
     slot_commands slot + (\<Sum>ev\<leftarrow>evs. event_commands ev) =
     slot_commands (dec_state d) + (batch_commands (dec_effects d) + canceled_all slot evs)"
proof (induction evs arbitrary: slot d)
  case (Cons ev evs)
  from Cons.prems obtain d1 d2 where step: "reduce slot ev = Inr d1"
    and rest: "decide_all (dec_state d1) evs = Inr d2"
    and d: "d = decision_new (dec_state d2) (batch_add (dec_effects d1) (dec_effects d2))"
    by (auto simp: decide_all_Cons)
  have first: "slot_commands slot + event_commands ev =
      slot_commands (dec_state d1) + (batch_commands (dec_effects d1) + canceled_commands slot ev)"
    using reduce_commands [OF step] by (simp add: add.assoc)
  from conserve_trans [OF first Cons.IH [OF rest]] show ?case
    unfolding d using step by (simp add: ac_simps)
qed auto

lemma decide_all_leases:
  "decide_all slot evs = Inr d \<Longrightarrow>
     slot_leases slot + (\<Sum>ev\<leftarrow>evs. event_leases ev) =
     slot_leases (dec_state d) + batch_leases (dec_effects d)"
proof (induction evs arbitrary: slot d)
  case (Cons ev evs)
  from Cons.prems obtain d1 d2 where step: "reduce slot ev = Inr d1"
    and rest: "decide_all (dec_state d1) evs = Inr d2"
    and d: "d = decision_new (dec_state d2) (batch_add (dec_effects d1) (dec_effects d2))"
    by (auto simp: decide_all_Cons)
  from conserve_trans [OF reduce_leases [OF step] Cons.IH [OF rest]] show ?case
    unfolding d by simp
qed auto

subsection \<open>Bounds and panics\<close>

fun slot_wf :: "('c, 'e, 'l) EntitySlot \<Rightarrow> bool" where
  "slot_wf (Activating st) = (length (ag_waiters st) \<le> unat (nz_get (ag_waiter_limit st)))"
| "slot_wf _ = True"

lemma reduce_wf: "slot_wf slot \<Longrightarrow> reduce slot ev = Inr d \<Longrightarrow> slot_wf (dec_state d)"
proof (cases slot)
  case (Activating st)
  moreover assume "slot_wf slot" and "reduce slot ev = Inr d"
  ultimately show ?thesis
    by (cases ev)
      (auto simp: decision_defs Suc_le_eq intro: le_trans [OF length_filter_le] split: Ordering.splits)
next
  case (Active st)
  moreover assume "reduce slot ev = Inr d"
  ultimately show ?thesis
    by (cases ev)
      (auto simp: decision_defs split: ReservationCount.splits ReservationResolution.splits if_splits)
next
  case Inactive
  moreover assume "reduce slot ev = Inr d"
  ultimately show ?thesis using nz_get_pos by (cases ev) (auto simp: decision_defs Suc_le_eq)
next
  case (Draining st)
  moreover assume "reduce slot ev = Inr d"
  ultimately show ?thesis
    by (cases ev) (auto simp: decision_defs split: option.splits DrainProgress.splits)
next
  case (Retiring a)
  moreover assume "reduce slot ev = Inr d"
  ultimately show ?thesis by (cases ev) (auto simp: decision_defs)
qed

lemma decide_all_wf: "slot_wf slot \<Longrightarrow> decide_all slot evs = Inr d \<Longrightarrow> slot_wf (dec_state d)"
  by (induction evs arbitrary: slot d) (auto simp: decide_all_Cons dest: reduce_wf)

lemma reduce_panics:
  "reduce slot ev = Inl p \<longleftrightarrow>
     p = Panic ''reservations bounded by live dispatches'' \<and>
     (\<exists>st d c. slot = Active st \<and> ev = Dispatch d c \<and>
        reservation_number (ac_reservations st) = 2 ^ 64 - 1)"
  by (cases slot; cases ev) (auto simp: and_then_Inl reserve_Inl)

subsection \<open>Admission\<close>

text \<open>A slot that still admits commands to incarnation \<open>a\<close>, or will once its activation commits.\<close>

fun admits_for :: "ActivationId \<Rightarrow> ('c, 'e, 'l) EntitySlot \<Rightarrow> bool" where
  "admits_for a (Activating st) = (ag_activation_id st = a)"
| "admits_for a (Active st) = (ac_activation_id st = a)"
| "admits_for a _ = False"

fun claims :: "ActivationId \<Rightarrow> ('c, 'e, 'l) SlotEvent \<Rightarrow> bool" where
  "claims a (ClaimActivation b _ _ _) = (a = b)"
| "claims a _ = False"

fun delivers_to :: "ActivationId \<Rightarrow> ('c, 'e, 'l) SlotEffect \<Rightarrow> bool" where
  "delivers_to a (Deliver b _ _ _) = (a = b)"
| "delivers_to a _ = False"

lemma reduce_delivers:
  "reduce slot ev = Inr d \<Longrightarrow> e \<in> set (as_slice (dec_effects d)) \<Longrightarrow> delivers_to a e \<Longrightarrow>
     admits_for a slot"
  by (cases slot; cases ev)
    (auto simp: reducer_simps split: option.splits prod.splits Ordering.splits
      DrainProgress.splits ReservationCount.splits ReservationResolution.splits if_splits)

lemma reduce_admits:
  "reduce slot ev = Inr d \<Longrightarrow> admits_for a (dec_state d) \<Longrightarrow> \<not> claims a ev \<Longrightarrow> admits_for a slot"
  by (cases slot; cases ev)
    (auto simp: decision_defs split: option.splits prod.splits Ordering.splits
      DrainProgress.splits ReservationCount.splits ReservationResolution.splits if_splits)

lemma decide_all_closed:
  "\<not> admits_for a slot \<Longrightarrow> \<not> list_ex (claims a) evs \<Longrightarrow> decide_all slot evs = Inr d \<Longrightarrow>
     \<not> admits_for a (dec_state d) \<and> \<not> list_ex (delivers_to a) (as_slice (dec_effects d))"
proof (induction evs arbitrary: slot d)
  case (Cons ev evs)
  from Cons.prems(3) obtain d1 d2 where step: "reduce slot ev = Inr d1"
    and rest: "decide_all (dec_state d1) evs = Inr d2"
    and d: "d = decision_new (dec_state d2) (batch_add (dec_effects d1) (dec_effects d2))"
    by (auto simp: decide_all_Cons)
  from Cons.prems step have "\<not> admits_for a (dec_state d1)"
    using reduce_admits by fastforce
  then show ?case
    using Cons.IH [OF _ _ rest] Cons.prems reduce_delivers [OF step] d
    by (auto simp: list_ex_iff)
qed auto

subsection \<open>Incarnations come and go exactly once\<close>

lemma reduce_activation_stable:
  "reduce slot ev = Inr d \<Longrightarrow> slot_activation_id slot = Some a \<Longrightarrow>
     slot_activation_id (dec_state d) = Some a \<and> Remove a \<notin> set (as_slice (dec_effects d)) \<or>
     dec_state d = Inactive \<and> filter (\<lambda>e. e = Remove a) (as_slice (dec_effects d)) = [Remove a]"
  by (cases slot; cases ev)
    (auto simp: reducer_simps filter_empty_conv split: option.splits prod.splits Ordering.splits
      DrainProgress.splits ReservationCount.splits ReservationResolution.splits if_splits)

lemma reduce_start:
  "reduce slot ev = Inr d \<Longrightarrow>
     StartActivation a \<in> set (as_slice (dec_effects d)) \<longleftrightarrow> slot = Inactive \<and> claims a ev"
  by (cases slot; cases ev)
    (auto simp: reducer_simps split: option.splits prod.splits Ordering.splits
      DrainProgress.splits ReservationCount.splits ReservationResolution.splits if_splits)

lemma reduce_remove:
  "reduce slot ev = Inr d \<Longrightarrow> Remove a \<in> set (as_slice (dec_effects d)) \<Longrightarrow>
     slot_activation_id slot = Some a \<and> dec_state d = Inactive"
  by (cases slot; cases ev)
    (auto simp: reducer_simps split: option.splits prod.splits Ordering.splits
      DrainProgress.splits ReservationCount.splits ReservationResolution.splits if_splits)

subsection \<open>A burst of dispatches around one activation\<close>

definition waiter_of :: "DispatchId \<times> 'c \<Rightarrow> 'c ActivationWaiter" where
  "waiter_of dc = \<lparr>wt_dispatch_id = fst dc, wt_command = snd dc\<rparr>"

definition dispatch_of :: "DispatchId \<times> 'c \<Rightarrow> ('c, 'e, 'l) SlotEvent" where
  "dispatch_of dc = Dispatch (fst dc) (snd dc)"

definition busy_of :: "DispatchId \<times> 'c \<Rightarrow> ('c, 'e, 'l) SlotEffect" where
  "busy_of dc = Reject (fst dc) (snd dc) Busy"

definition deliver_of :: "ActivationId \<Rightarrow> 'e \<Rightarrow> DispatchId \<times> 'c \<Rightarrow> ('c, 'e, 'l) SlotEffect" where
  "deliver_of a endpoint dc = Deliver a (fst dc) endpoint (snd dc)"

lemma decide_all_waiting:
  assumes "length (ag_waiters st) \<le> unat (nz_get (ag_waiter_limit st))"
  shows "\<exists>b. decide_all (Activating st) (map dispatch_of ds) =
      Inr (decision_new
        (Activating (st\<lparr>ag_waiters := ag_waiters st @
           map waiter_of (take (unat (nz_get (ag_waiter_limit st)) - length (ag_waiters st)) ds)\<rparr>)) b) \<and>
    as_slice b = map busy_of (drop (unat (nz_get (ag_waiter_limit st)) - length (ag_waiters st)) ds)"
  using assms
proof (induction ds arbitrary: st)
  case (Cons dc ds)
  show ?case
  proof (cases "length (ag_waiters st) < unat (nz_get (ag_waiter_limit st))")
    case True
    let ?st = "st\<lparr>ag_waiters := ag_waiters st @ [waiter_of dc]\<rparr>"
    have "reduce (Activating st) (dispatch_of dc :: ('a, 'b, 'c) SlotEvent) =
        Inr (decision_new (Activating ?st) batch_default)"
      using True by (simp add: dispatch_of_def waiter_of_def decision_def cmp_def)
    moreover have "length (ag_waiters ?st) \<le> unat (nz_get (ag_waiter_limit ?st))"
      using True by simp
    ultimately show ?thesis
      using True Cons.IH [of ?st] by (force simp: decide_all_Cons take_Cons' drop_Cons' Suc_diff_Suc)
  next
    case False
    then have "reduce (Activating st) (dispatch_of dc :: ('a, 'b, 'c) SlotEvent) =
        Inr (decision_new (Activating st) (batch_one (busy_of dc)))"
      using Cons.prems by (simp add: dispatch_of_def busy_of_def decision_defs cmp_def)
    then show ?thesis
      using False Cons.IH [OF Cons.prems] by (force simp: decide_all_Cons)
  qed
qed simp

lemma finish_activation_slice:
  "\<exists>b. reduce (Activating st) (ActivationSucceeded (ag_activation_id st) endpoint lease) =
     Inr (decision_new
       (Active \<lparr>ac_activation_id = ag_activation_id st, ac_endpoint = endpoint, ac_lease = lease,
          ac_reservations = from_len (of_nat (length (ag_waiters st)))\<rparr>) b) \<and>
     as_slice b =
       map (\<lambda>w. Deliver (ag_activation_id st) (wt_dispatch_id w) endpoint (wt_command w)) (ag_waiters st)"
  by (simp add: decision_defs)

subsection \<open>Properties\<close>

text \<open>
  C9: Command ownership is conserved by every stream of events: the commands (with their
  dispatch identities) a slot held before plus those the events brought are exactly those it
  holds after, those its effects deliver or reject, and those of callers that canceled while
  waiting. No command is lost, duplicated or handed to another dispatch.
\<close>

theorem command_conservation:
  assumes "decide_all slot evs = Inr d"
  shows "slot_commands slot + (\<Sum>ev\<leftarrow>evs. event_commands ev) =
    slot_commands (dec_state d) + batch_commands (dec_effects d) + canceled_all slot evs"
  using decide_all_commands [OF assms] by (simp add: add.assoc)

definition sample_events :: "(nat, nat, nat) SlotEvent list" where
  "sample_events =
     [ClaimActivation (act 1) (dsp 1) 10 (nz 2), Dispatch (dsp 2) 20, Dispatch (dsp 3) 30,
      CancelWaiter (act 1) (dsp 1), ActivationSucceeded (act 1) 7 8, BeginDrain (act 1),
      DeliveryResolved (act 1) (Some (dsp 2, 20))]"

lemma sample_events_run: "\<exists>d. decide_all Inactive sample_events = Inr d"
  by (simp add: sample_events_def decide_all_Cons decision_defs cmp_def from_len_def nz_new_def)

theorem command_conservation_witness:
  "\<exists>d. decide_all Inactive sample_events = Inr d \<and>
     slot_commands (Inactive :: (nat, nat, nat) EntitySlot) + (\<Sum>ev\<leftarrow>sample_events. event_commands ev) =
     slot_commands (dec_state d) + batch_commands (dec_effects d) +
     canceled_all Inactive sample_events"
proof -
  obtain d where run: "decide_all Inactive sample_events = Inr d"
    using sample_events_run by blast
  show ?thesis by (intro exI conjI) (rule run, rule command_conservation [OF run])
qed

text \<open>
  C10: Retirement leases are linear: the leases a slot held plus those successful activations
  brought are exactly the one it still holds and those its \<open>Retire\<close> effects hand out, each with
  its own activation identity. No event, stale or current, leaks or copies a lease.
\<close>

theorem lease_conservation:
  assumes "decide_all slot evs = Inr d"
  shows "slot_leases slot + (\<Sum>ev\<leftarrow>evs. event_leases ev) =
    slot_leases (dec_state d) + batch_leases (dec_effects d)"
  using assms by (rule decide_all_leases)

theorem lease_conservation_witness:
  "\<exists>d. decide_all Inactive sample_events = Inr d \<and>
     slot_leases (Inactive :: (nat, nat, nat) EntitySlot) + (\<Sum>ev\<leftarrow>sample_events. event_leases ev) =
     slot_leases (dec_state d) + batch_leases (dec_effects d)"
proof -
  obtain d where run: "decide_all Inactive sample_events = Inr d"
    using sample_events_run by blast
  show ?thesis by (intro exI conjI) (rule run, rule lease_conservation [OF run])
qed

text \<open>
  C16: An event about another generation is inert: if the activation an event names is not the
  one the slot represents, the reduction leaves the slot as it is and emits only the cleanup that
  returns what the event owns (a rejected command, a forcibly retired lease).
\<close>

theorem stale_event_inert:
  assumes "event_generation ev = Some a" and "slot_activation_id slot \<noteq> Some a"
  shows "\<exists>b. reduce slot ev = Inr (decision_new slot b) \<and> as_slice b = cleanup ev"
proof (rule unhandled_reduce)
  show "\<not> handles slot ev" using assms by (rule stale_unhandled)
qed (use assms in \<open>cases ev; auto\<close>)

theorem stale_event_inert_witness:
  "\<exists>b. reduce (Retiring (act 7)) (Terminated (act 6) :: (nat, nat, nat) SlotEvent) =
     Inr (decision_new (Retiring (act 7)) b) \<and>
     as_slice b = cleanup (Terminated (act 6) :: (nat, nat, nat) SlotEvent)"
  by (rule stale_event_inert [of _ "act 6"]) simp_all

text \<open>
  C17: Draining closes admission for good: once an incarnation's slot is draining or retiring (or
  any slot that does not admit for it), no stream of events that does not claim that activation
  again makes the slot admit for it, and none of the emitted effects delivers to it.
\<close>

theorem closed_admission_stays_closed:
  assumes "\<not> admits_for a slot" and "\<not> list_ex (claims a) evs" and "decide_all slot evs = Inr d"
  shows "\<not> admits_for a (dec_state d) \<and> \<not> list_ex (delivers_to a) (as_slice (dec_effects d))"
  using assms by (rule decide_all_closed)

definition sample_retiring_events :: "(nat, nat, nat) SlotEvent list" where
  "sample_retiring_events =
     [Dispatch (dsp 2) 20, ActivationSucceeded (act 1) 7 8, Terminated (act 1),
      ClaimActivation (act 2) (dsp 3) 30 (nz 4), ActivationSucceeded (act 2) 9 9]"

theorem closed_admission_stays_closed_witness:
  "\<exists>d. decide_all (Retiring (act 1)) sample_retiring_events = Inr d \<and>
     \<not> admits_for (act 1) (dec_state d) \<and>
     \<not> list_ex (delivers_to (act 1)) (as_slice (dec_effects d))"
proof -
  have "\<exists>d. decide_all (Retiring (act 1)) sample_retiring_events = Inr d"
    by (simp add: sample_retiring_events_def decide_all_Cons decision_defs)
  moreover have "\<not> list_ex (claims (act 1)) sample_retiring_events"
    by (simp add: sample_retiring_events_def)
  ultimately show ?thesis
    using closed_admission_stays_closed [of "act 1" "Retiring (act 1)" sample_retiring_events] by auto
qed

text \<open>
  The represented incarnation leaves a slot only by its own removal: a reduction keeps the
  slot's activation identity, or returns the slot to \<open>Inactive\<close> and emits exactly one \<open>Remove\<close>,
  for that activation. A new activation starts only from \<open>Inactive\<close>, by a claim, and a \<open>Remove\<close>
  is only emitted on the way out.
\<close>

theorem incarnation_leaves_by_removal:
  assumes "reduce slot ev = Inr d"
  shows "(slot_activation_id slot = Some a \<longrightarrow>
      slot_activation_id (dec_state d) = Some a \<and> Remove a \<notin> set (as_slice (dec_effects d)) \<or>
      dec_state d = Inactive \<and> filter (\<lambda>e. e = Remove a) (as_slice (dec_effects d)) = [Remove a]) \<and>
    (StartActivation a \<in> set (as_slice (dec_effects d)) \<longleftrightarrow> slot = Inactive \<and> claims a ev) \<and>
    (Remove a \<in> set (as_slice (dec_effects d)) \<longrightarrow> slot_activation_id slot = Some a)"
  using reduce_activation_stable [OF assms] reduce_start [OF assms] reduce_remove [OF assms] by blast

theorem incarnation_leaves_by_removal_witness:
  "\<exists>d. reduce (Retiring (act 1)) (Terminated (act 1) :: (nat, nat, nat) SlotEvent) = Inr d \<and>
     (slot_activation_id (Retiring (act 1) :: (nat, nat, nat) EntitySlot) = Some (act 1) \<longrightarrow>
      slot_activation_id (dec_state d) = Some (act 1) \<and> Remove (act 1) \<notin> set (as_slice (dec_effects d)) \<or>
      dec_state d = Inactive \<and> filter (\<lambda>e. e = Remove (act 1)) (as_slice (dec_effects d)) = [Remove (act 1)])"
proof -
  have "\<exists>d. reduce (Retiring (act 1)) (Terminated (act 1) :: (nat, nat, nat) SlotEvent) = Inr d"
    by simp
  then show ?thesis using incarnation_leaves_by_removal by blast
qed

text \<open>
  C19: One burst of demand, whatever its size: a claim followed by any number of dispatches and
  the success of the activation starts one activation, admits waiters in arrival order up to the
  limit, rejects exactly the rest as busy, and delivers the admitted ones in arrival order to the
  new endpoint with one reservation each.
\<close>

theorem activation_burst:
  "\<exists>d. decide_all (Inactive :: ('c, 'e, 'l) EntitySlot)
         (ClaimActivation a i c limit # map dispatch_of ds @ [ActivationSucceeded a endpoint lease]) =
       Inr d \<and>
     as_slice (dec_effects d) =
       StartActivation a # map busy_of (drop (unat (nz_get limit) - 1) ds) @
       map (deliver_of a endpoint) ((i, c) # take (unat (nz_get limit) - 1) ds) \<and>
     (\<exists>r. dec_state d =
        Active \<lparr>ac_activation_id = a, ac_endpoint = endpoint, ac_lease = lease, ac_reservations = r\<rparr> \<and>
        reservation_number r = min (unat (nz_get limit)) (Suc (length ds)))"
proof -
  let ?n = "unat (nz_get limit)"
  let ?st = "\<lparr>ag_activation_id = a, ag_waiters = [\<lparr>wt_dispatch_id = i, wt_command = c\<rparr>],
    ag_waiter_limit = limit\<rparr>"
  define full where "full = ?st\<lparr>ag_waiters := ag_waiters ?st @ map waiter_of (take (?n - 1) ds)\<rparr>"
  define r where "r = from_len (of_nat (length (ag_waiters full)))"
  define final :: "('c, 'e, 'l) EntitySlot" where
    "final = Active \<lparr>ac_activation_id = a, ac_endpoint = endpoint, ac_lease = lease,
       ac_reservations = r\<rparr>"
  have n: "1 \<le> ?n" using nz_get_pos [of limit] by linarith
  have full: "ag_activation_id full = a" "ag_waiters full = map waiter_of ((i, c) # take (?n - 1) ds)"
    by (simp_all add: full_def waiter_of_def)
  obtain b1 :: "('c, 'e, 'l) SlotEffectBatch" where
    wait: "decide_all (Activating ?st) (map dispatch_of ds) = Inr (decision_new (Activating full) b1)" and b1: "as_slice b1 = map busy_of (drop (?n - 1) ds)"
    using decide_all_waiting [of ?st ds] n unfolding full_def by auto
  obtain b2 :: "('c, 'e, 'l) SlotEffectBatch" where
    finish: "reduce (Activating full) (ActivationSucceeded a endpoint lease) = Inr (decision_new final b2)"
    and b2: "as_slice b2 =
      map (\<lambda>w. Deliver a (wt_dispatch_id w) endpoint (wt_command w)) (ag_waiters full)"
    using finish_activation_slice [of full endpoint lease] full(1) unfolding r_def final_def by auto
  have len: "length (ag_waiters full) = min ?n (Suc (length ds))" using n full(2) by simp
  have "length (ag_waiters full) < 2 ^ 64"
    unfolding len by (rule le_less_trans [OF min.cobounded1]) simp
  then have r: "reservation_number r = min ?n (Suc (length ds))"
    unfolding r_def reservation_number_from_len len [symmetric] by (rule unat_of_nat_u64)
  have "decide_all Inactive
      (ClaimActivation a i c limit # map dispatch_of ds @ [ActivationSucceeded a endpoint lease]) =
    Inr (decision_new final (batch_add (batch_one (StartActivation a)) (batch_add b1 b2)))"
    by (simp add: decide_all_Cons decide_all_append decide_all_single decision_def wait
        finish [simplified])
  then show ?thesis
    using r b1 b2 full(2) unfolding final_def by (simp add: deliver_of_def waiter_of_def comp_def)
qed

text \<open>
  C26: Bounds: from an inactive slot, no stream of events ever makes an activation hold more
  waiters than its limit.
\<close>

theorem waiters_bounded:
  assumes "decide_all Inactive evs = Inr d" and "dec_state d = Activating st"
  shows "length (ag_waiters st) \<le> unat (nz_get (ag_waiter_limit st))"
  using decide_all_wf [OF _ assms(1)] assms(2) by simp

theorem waiters_bounded_witness:
  "\<exists>d st. decide_all Inactive
       [ClaimActivation (act 1) (dsp 1) 10 (nz 1), Dispatch (dsp 2) 20 :: (nat, nat, nat) SlotEvent] = Inr d \<and>
     dec_state d = Activating st \<and> length (ag_waiters st) \<le> unat (nz_get (ag_waiter_limit st))"
proof -
  have "\<exists>d st. decide_all Inactive
       [ClaimActivation (act 1) (dsp 1) 10 (nz 1), Dispatch (dsp 2) 20 :: (nat, nat, nat) SlotEvent] = Inr d \<and>
     dec_state d = Activating st"
    by (simp add: decide_all_Cons decision_defs cmp_def)
  then show ?thesis using waiters_bounded by blast
qed

text \<open>
  The reducer panics in one situation only: a dispatch to an active slot whose reservation
  count is already \<open>usize::MAX\<close>. Every other event in every other state gives a decision.
\<close>

theorem reduce_panics_only_at_reservation_limit:
  "(\<exists>p. reduce slot ev = Inl p) \<longleftrightarrow>
     (\<exists>st d c. slot = Active st \<and> ev = Dispatch d c \<and>
        reservation_number (ac_reservations st) = 2 ^ 64 - 1)"
  by (auto simp: reduce_panics)

end
