(* ===== verification/Topology.thy ===== *)
theory Topology
  imports Prelude
begin

section \<open>Topologies of base machines\<close>

text \<open>
  The structural half of \<open>crates/transition/src/machine.rs\<close>: vertices, edges, \<open>Topology\<close>, its
  validation and its Mermaid rendering.  \<open>validate\<close> follows the Rust loops: the index loops carry
  the prefix already seen, and reachability is the \<open>[bool; 256]\<close> table relaxed once per declared
  vertex.  The lemmas show that the table is the reachable set (\<open>reachable_table_correct\<close>), that
  \<open>validate\<close> accepts exactly the well-formed topologies, and which defect it reports.
\<close>

datatype VertexId = VertexId (vertex_byte: u8)

datatype TriggerId = TriggerId (trigger_byte: u8)

record Vertex =
  v_id :: VertexId
  v_label :: string

record Transition =
  t_from :: VertexId
  t_trigger :: TriggerId
  t_to :: VertexId
  t_label :: string

record Topology =
  tp_name :: string
  tp_initial :: VertexId
  tp_vertices :: "Vertex list"
  tp_transitions :: "Transition list"

datatype ValidatedTopology = ValidatedTopology (validated_topology: Topology)

datatype TopologyError =
    DuplicateVertex VertexId
  | DuplicateTransition Transition
  | UnknownInitial VertexId
  | UnknownVertex VertexId
  | UnreachableVertex VertexId

subsection \<open>Validation\<close>

definition declared :: "Vertex list \<Rightarrow> VertexId \<Rightarrow> bool" where
  "declared vertices i = list_ex (\<lambda>v. v_id v = i) vertices"

fun validate_vertices :: "Vertex list \<Rightarrow> Vertex list \<Rightarrow> TopologyError + unit" where
  "validate_vertices known [] = Inr ()"
| "validate_vertices known (v # vs) =
     (if declared known (v_id v) then Inl (DuplicateVertex (v_id v))
      else validate_vertices (known @ [v]) vs)"

fun validate_endpoints :: "Vertex list \<Rightarrow> VertexId list \<Rightarrow> TopologyError + unit" where
  "validate_endpoints vertices [] = Inr ()"
| "validate_endpoints vertices (i # is) =
     (if \<not> declared vertices i then Inl (UnknownVertex i) else validate_endpoints vertices is)"

fun validate_edges ::
  "Vertex list \<Rightarrow> Transition list \<Rightarrow> Transition list \<Rightarrow> TopologyError + unit" where
  "validate_edges vertices known [] = Inr ()"
| "validate_edges vertices known (e # es) =
     (if list_ex (\<lambda>k. t_from k = t_from e \<and> t_trigger k = t_trigger e) known
      then Inl (DuplicateTransition e)
      else and_then (validate_endpoints vertices [t_from e, t_to e])
             (\<lambda>_. validate_edges vertices (known @ [e]) es))"

definition table_index :: "VertexId \<Rightarrow> nat" where
  "table_index i = unat (vertex_byte i)"

definition relax_edge :: "bool list \<Rightarrow> Transition \<Rightarrow> bool list" where
  "relax_edge table e =
     (if table ! table_index (t_from e) then table[table_index (t_to e) := True] else table)"

fun relax_rounds :: "nat \<Rightarrow> Transition list \<Rightarrow> bool list \<Rightarrow> bool list" where
  "relax_rounds 0 edges table = table"
| "relax_rounds (Suc n) edges table = relax_rounds n edges (foldl relax_edge table edges)"

definition reachable_table :: "Topology \<Rightarrow> bool list" where
  "reachable_table t =
     relax_rounds (length (tp_vertices t)) (tp_transitions t)
       ((replicate 256 False)[table_index (tp_initial t) := True])"

definition validate_reachable :: "Topology \<Rightarrow> TopologyError + unit" where
  "validate_reachable t =
     (case find (\<lambda>v. \<not> reachable_table t ! table_index (v_id v)) (tp_vertices t) of
        None \<Rightarrow> Inr ()
      | Some v \<Rightarrow> Inl (UnreachableVertex (v_id v)))"

definition validate :: "Topology \<Rightarrow> TopologyError + unit" where
  "validate t =
     and_then (validate_vertices [] (tp_vertices t)) (\<lambda>_.
       if \<not> declared (tp_vertices t) (tp_initial t) then Inl (UnknownInitial (tp_initial t))
       else and_then (validate_edges (tp_vertices t) [] (tp_transitions t)) (\<lambda>_.
         validate_reachable t))"

definition validated :: "Topology \<Rightarrow> TopologyError + ValidatedTopology" where
  "validated t = and_then (validate t) (\<lambda>_. Inr (ValidatedTopology t))"

subsection \<open>The reachability table is the reachable set\<close>

definition edge_rel :: "Transition list \<Rightarrow> (VertexId \<times> VertexId) set" where
  "edge_rel edges = (\<lambda>e. (t_from e, t_to e)) ` set edges"

definition marked :: "bool list \<Rightarrow> VertexId set" where
  "marked table = {i. table ! table_index i}"

lemma table_index_less [simp]: "table_index i < 256"
  using unsigned_less [of "vertex_byte i"] by (simp add: table_index_def)

lemma table_index_eq [simp]: "table_index i = table_index j \<longleftrightarrow> i = j"
  by (cases i; cases j) (simp add: table_index_def word_unat_eq_iff)

lemma length_relax_edge [simp]: "length (relax_edge table e) = length table"
  by (simp add: relax_edge_def)

lemma length_relax_edges [simp]: "length (foldl relax_edge table es) = length table"
  by (induction es arbitrary: table) auto

lemma length_relax_rounds [simp]: "length (relax_rounds n es table) = length table"
  by (induction n arbitrary: table) auto

lemma marked_update:
  "length table = 256 \<Longrightarrow> marked (table[table_index i := True]) = insert i (marked table)"
  by (auto simp: marked_def nth_list_update)

lemma marked_relax_edge:
  "length table = 256 \<Longrightarrow>
     marked (relax_edge table e) =
       (if t_from e \<in> marked table then insert (t_to e) (marked table) else marked table)"
  by (simp add: relax_edge_def marked_update) (simp add: marked_def)

lemma marked_relax_edge_mono: "length table = 256 \<Longrightarrow> marked table \<subseteq> marked (relax_edge table e)"
  by (auto simp: marked_relax_edge)

lemma marked_sweep_mono:
  "length table = 256 \<Longrightarrow> marked table \<subseteq> marked (foldl relax_edge table es)"
proof (induction es arbitrary: table)
  case (Cons e es)
  then have "marked (relax_edge table e) \<subseteq> marked (foldl relax_edge (relax_edge table e) es)"
    by simp
  with marked_relax_edge_mono [OF Cons.prems, of e] show ?case by auto
qed simp

text \<open>A sweep that marks nothing new proves the marked set closed under the edges.\<close>

lemma stable_sweep_closed:
  assumes "length table = 256" and "marked (foldl relax_edge table es) = marked table"
    and "e \<in> set es" and "t_from e \<in> marked table"
  shows "t_to e \<in> marked table"
  using assms
proof (induction es arbitrary: table)
  case (Cons x xs)
  have len: "length (relax_edge table x) = 256" using Cons.prems by simp
  have up: "marked table \<subseteq> marked (relax_edge table x)"
    using Cons.prems(1) by (rule marked_relax_edge_mono)
  have "marked (relax_edge table x) \<subseteq> marked (foldl relax_edge (relax_edge table x) xs)"
    by (rule marked_sweep_mono [OF len])
  with up Cons.prems(2) have same: "marked (relax_edge table x) = marked table" by auto
  show ?case
  proof (cases "e = x")
    case True
    with same Cons.prems show ?thesis by (auto simp: marked_relax_edge)
  next
    case False
    have "t_to e \<in> marked (relax_edge table x)"
      using Cons.IH [OF len] Cons.prems False same by simp
    with same show ?thesis by simp
  qed
qed simp

lemma marked_sweep_sound:
  "length table = 256 \<Longrightarrow> marked table \<subseteq> R \<Longrightarrow>
     (\<And>e. e \<in> set es \<Longrightarrow> t_from e \<in> R \<Longrightarrow> t_to e \<in> R) \<Longrightarrow> marked (foldl relax_edge table es) \<subseteq> R"
proof (induction es arbitrary: table)
  case (Cons e es)
  from Cons.prems have "marked (relax_edge table e) \<subseteq> R"
    by (auto simp: marked_relax_edge)
  with Cons show ?case by simp
qed simp

lemma marked_rounds_sound:
  "length table = 256 \<Longrightarrow> marked table \<subseteq> R \<Longrightarrow>
     (\<And>e. e \<in> set es \<Longrightarrow> t_from e \<in> R \<Longrightarrow> t_to e \<in> R) \<Longrightarrow> marked (relax_rounds n es table) \<subseteq> R"
  by (induction n arbitrary: table) (simp_all add: marked_sweep_sound)

lemma marked_rounds_mono: "length table = 256 \<Longrightarrow> marked table \<subseteq> marked (relax_rounds n es table)"
proof (induction n arbitrary: table)
  case (Suc n)
  then have "marked (foldl relax_edge table es) \<subseteq> marked (relax_rounds n es (foldl relax_edge table es))"
    by simp
  with marked_sweep_mono [OF Suc.prems, of es] show ?case by auto
qed simp

definition edge_closed :: "Transition list \<Rightarrow> VertexId set \<Rightarrow> bool" where
  "edge_closed es M \<longleftrightarrow> (\<forall>e\<in>set es. t_from e \<in> M \<longrightarrow> t_to e \<in> M)"

lemma marked_finite [simp]: "finite (marked table)"
proof -
  have "table_index ` marked table \<subseteq> {..<256}" by auto
  then have "finite (table_index ` marked table)" by (rule finite_subset) simp
  then show ?thesis by (rule finite_imageD) (simp add: inj_on_def)
qed

lemma stable_rounds:
  assumes "length table = 256" and "edge_closed es (marked table)"
  shows "marked (relax_rounds n es table) = marked table"
  using marked_rounds_mono [OF assms(1), of n es]
    marked_rounds_sound [OF assms(1) order.refl, of es n] assms(2)
  by (auto simp: edge_closed_def)

text \<open>Each round that does not close the marked set adds a vertex to it.\<close>

lemma rounds_close_or_grow:
  "length table = 256 \<Longrightarrow>
     edge_closed es (marked (relax_rounds n es table)) \<or>
     card (marked table) + n \<le> card (marked (relax_rounds n es table))"
proof (induction n arbitrary: table)
  case (Suc n)
  let ?next = "foldl relax_edge table es"
  have len: "length ?next = 256" using Suc.prems by simp
  show ?case
  proof (cases "marked ?next = marked table")
    case True
    then have closed: "edge_closed es (marked ?next)"
      using stable_sweep_closed [OF Suc.prems True] by (simp add: edge_closed_def)
    then show ?thesis using stable_rounds [OF len closed, of n] by simp
  next
    case False
    with marked_sweep_mono [OF Suc.prems, of es] have "marked table \<subset> marked ?next" by auto
    then have "card (marked table) < card (marked ?next)"
      by (rule psubset_card_mono [OF marked_finite])
    with Suc.IH [OF len] show ?thesis by auto
  qed
qed simp

lemma edge_closed_rtrancl:
  assumes "edge_closed es M" and "i \<in> M" and "(i, j) \<in> (edge_rel es)\<^sup>*"
  shows "j \<in> M"
  using assms(3,2) by (induction rule: rtrancl_induct) (use assms(1) in \<open>auto simp: edge_closed_def edge_rel_def\<close>)

lemma reachable_table_correct:
  assumes init: "tp_initial t \<in> v_id ` set (tp_vertices t)"
    and ends: "\<And>e. e \<in> set (tp_transitions t) \<Longrightarrow> t_to e \<in> v_id ` set (tp_vertices t)"
  shows "marked (reachable_table t) = (edge_rel (tp_transitions t))\<^sup>* `` {tp_initial t}"
proof -
  let ?es = "tp_transitions t" and ?ids = "v_id ` set (tp_vertices t)"
  let ?start = "(replicate 256 False)[table_index (tp_initial t) := True]"
  let ?M = "marked (relax_rounds (length (tp_vertices t)) ?es ?start)"
  have len: "length ?start = 256" by simp
  have start: "marked ?start = {tp_initial t}"
    by (simp add: marked_update) (simp add: marked_def)
  have declared: "?M \<subseteq> ?ids"
    by (rule marked_rounds_sound [OF len]) (use start init ends in auto)
  have "card ?M \<le> length (tp_vertices t)"
    using card_mono [OF _ declared] card_image_le [of "set (tp_vertices t)" v_id]
      card_length [of "tp_vertices t"] by (meson finite_imageI finite_set le_trans)
  with rounds_close_or_grow [OF len, of ?es "length (tp_vertices t)"] start
  have closed: "edge_closed ?es ?M" by auto
  have "tp_initial t \<in> ?M"
    using marked_rounds_mono [OF len, of "length (tp_vertices t)" ?es] start by auto
  then have "(edge_rel ?es)\<^sup>* `` {tp_initial t} \<subseteq> ?M"
    using edge_closed_rtrancl [OF closed] by auto
  moreover have "?M \<subseteq> (edge_rel ?es)\<^sup>* `` {tp_initial t}"
  proof (rule marked_rounds_sound [OF len])
    show "marked ?start \<subseteq> (edge_rel ?es)\<^sup>* `` {tp_initial t}" using start by auto
  next
    fix e assume "e \<in> set ?es" and "t_from e \<in> (edge_rel ?es)\<^sup>* `` {tp_initial t}"
    then show "t_to e \<in> (edge_rel ?es)\<^sup>* `` {tp_initial t}"
      by (auto simp: edge_rel_def intro: rtrancl.rtrancl_into_rtrancl)
  qed
  ultimately show ?thesis by (simp add: reachable_table_def)
qed

subsection \<open>What validation accepts and what it reports\<close>

definition edge_key :: "Transition \<Rightarrow> VertexId \<times> TriggerId" where
  "edge_key e = (t_from e, t_trigger e)"

definition vertex_ids :: "Topology \<Rightarrow> VertexId set" where
  "vertex_ids t = v_id ` set (tp_vertices t)"

text \<open>
  The well-formed topologies: distinct vertex identities, a declared initial vertex, at most one
  edge per source and trigger, declared endpoints, and every vertex reachable.
\<close>

definition well_formed :: "Topology \<Rightarrow> bool" where
  "well_formed t \<longleftrightarrow>
     distinct (map v_id (tp_vertices t)) \<and>
     tp_initial t \<in> vertex_ids t \<and>
     distinct (map edge_key (tp_transitions t)) \<and>
     (\<forall>e\<in>set (tp_transitions t). t_from e \<in> vertex_ids t \<and> t_to e \<in> vertex_ids t) \<and>
     vertex_ids t \<subseteq> (edge_rel (tp_transitions t))\<^sup>* `` {tp_initial t}"

definition edges_ok :: "Topology \<Rightarrow> Transition list \<Rightarrow> bool" where
  "edges_ok t es \<longleftrightarrow>
     distinct (map edge_key es) \<and>
     (\<forall>e\<in>set es. t_from e \<in> vertex_ids t \<and> t_to e \<in> vertex_ids t)"

text \<open>
  The defect \<open>validate\<close> must report: the first one, in the order vertices, initial vertex, edges
  in declaration order (ambiguity before endpoints, source before destination), reachability.
\<close>

inductive first_defect :: "Topology \<Rightarrow> TopologyError \<Rightarrow> bool" where
  duplicate_vertex:
    "tp_vertices t = pre @ v # post \<Longrightarrow> distinct (map v_id pre) \<Longrightarrow> v_id v \<in> v_id ` set pre \<Longrightarrow>
     first_defect t (DuplicateVertex (v_id v))"
| unknown_initial:
    "distinct (map v_id (tp_vertices t)) \<Longrightarrow> tp_initial t \<notin> vertex_ids t \<Longrightarrow>
     first_defect t (UnknownInitial (tp_initial t))"
| duplicate_transition:
    "distinct (map v_id (tp_vertices t)) \<Longrightarrow> tp_initial t \<in> vertex_ids t \<Longrightarrow>
     tp_transitions t = pre @ e # post \<Longrightarrow> edges_ok t pre \<Longrightarrow> edge_key e \<in> edge_key ` set pre \<Longrightarrow>
     first_defect t (DuplicateTransition e)"
| unknown_vertex:
    "distinct (map v_id (tp_vertices t)) \<Longrightarrow> tp_initial t \<in> vertex_ids t \<Longrightarrow>
     tp_transitions t = pre @ e # post \<Longrightarrow> edges_ok t pre \<Longrightarrow> edge_key e \<notin> edge_key ` set pre \<Longrightarrow>
     i = (if t_from e \<in> vertex_ids t then t_to e else t_from e) \<Longrightarrow> i \<notin> vertex_ids t \<Longrightarrow>
     first_defect t (UnknownVertex i)"
| unreachable_vertex:
    "distinct (map v_id (tp_vertices t)) \<Longrightarrow> tp_initial t \<in> vertex_ids t \<Longrightarrow>
     edges_ok t (tp_transitions t) \<Longrightarrow>
     tp_vertices t = pre @ v # post \<Longrightarrow>
     v_id ` set pre \<subseteq> (edge_rel (tp_transitions t))\<^sup>* `` {tp_initial t} \<Longrightarrow>
     v_id v \<notin> (edge_rel (tp_transitions t))\<^sup>* `` {tp_initial t} \<Longrightarrow>
     first_defect t (UnreachableVertex (v_id v))"

lemma declared_iff: "declared vs i \<longleftrightarrow> i \<in> v_id ` set vs"
  by (auto simp: declared_def list_ex_iff)

lemma validate_vertices_Inr:
  "distinct (map v_id known) \<Longrightarrow>
     validate_vertices known vs = Inr () \<longleftrightarrow> distinct (map v_id (known @ vs))"
  by (induction known vs rule: validate_vertices.induct) (auto simp: declared_iff)

lemma validate_vertices_Inl:
  "distinct (map v_id known) \<Longrightarrow>
     validate_vertices known vs = Inl err \<longleftrightarrow>
       (\<exists>pre v post. vs = pre @ v # post \<and> (distinct (map v_id (known @ pre)) \<and>
          v_id v \<in> v_id ` set (known @ pre) \<and> err = DuplicateVertex (v_id v)))"
proof (induction known vs rule: validate_vertices.induct)
  case (2 known v vs)
  then show ?case
    by (subst first_in_list) (auto simp: declared_iff)
qed simp

lemma edges_ok_snoc:
  "edges_ok t (es @ [e]) \<longleftrightarrow>
     edges_ok t es \<and> edge_key e \<notin> edge_key ` set es \<and> t_from e \<in> vertex_ids t \<and> t_to e \<in> vertex_ids t"
  by (auto simp: edges_ok_def)

lemma edges_ok_append: "edges_ok t (es @ fs) \<Longrightarrow> edges_ok t es"
  by (auto simp: edges_ok_def)

lemma known_key:
  "list_ex (\<lambda>k. t_from k = t_from e \<and> t_trigger k = t_trigger e) known \<longleftrightarrow>
     edge_key e \<in> edge_key ` set known"
  by (induction known) (auto simp: edge_key_def)

lemma validate_edges_Inr:
  "edges_ok t known \<Longrightarrow>
     validate_edges (tp_vertices t) known es = Inr () \<longleftrightarrow> edges_ok t (known @ es)"
proof (induction es arbitrary: known)
  case (Cons e es)
  show ?case
  proof (cases "edges_ok t (known @ [e])")
    case True
    with Cons.IH [OF True] show ?thesis
      by (simp add: known_key) (simp add: edges_ok_snoc declared_iff vertex_ids_def)
  next
    case False
    with Cons.prems have "validate_edges (tp_vertices t) known (e # es) \<noteq> Inr ()"
      by (auto simp: known_key edges_ok_snoc declared_iff vertex_ids_def)
    moreover from False have "\<not> edges_ok t (known @ e # es)"
      using edges_ok_append [of t "known @ [e]" es] by auto
    ultimately show ?thesis by simp
  qed
qed simp

definition edge_defect :: "Topology \<Rightarrow> Transition list \<Rightarrow> Transition \<Rightarrow> TopologyError \<Rightarrow> bool" where
  "edge_defect t pre e err \<longleftrightarrow>
     edges_ok t pre \<and>
     (if edge_key e \<in> edge_key ` set pre then err = DuplicateTransition e
      else if t_from e \<notin> vertex_ids t then err = UnknownVertex (t_from e)
      else t_to e \<notin> vertex_ids t \<and> err = UnknownVertex (t_to e))"

lemma validate_edges_Inl:
  "edges_ok t known \<Longrightarrow>
     validate_edges (tp_vertices t) known es = Inl err \<longleftrightarrow>
       (\<exists>pre e post. es = pre @ e # post \<and> edge_defect t (known @ pre) e err)"
proof (induction es arbitrary: known)
  case (Cons e es)
  show ?case
  proof (cases "edges_ok t (known @ [e])")
    case True
    with Cons.IH [OF True] show ?thesis
      by (subst first_in_list)
        (auto simp: known_key edge_defect_def edges_ok_snoc declared_iff vertex_ids_def)
  next
    case False
    have "\<not> edges_ok t (known @ e # pre)" for pre
      using False edges_ok_append [of t "known @ [e]" pre] by auto
    with False Cons.prems show ?thesis
      by (subst first_in_list)
        (auto simp: known_key edge_defect_def edges_ok_snoc declared_iff vertex_ids_def)
  qed
qed simp

lemma table_marked: "table ! table_index i \<longleftrightarrow> i \<in> marked table"
  by (simp add: marked_def)

lemma validate_reachable_Inr:
  "validate_reachable t = Inr () \<longleftrightarrow> vertex_ids t \<subseteq> marked (reachable_table t)"
proof (cases "find (\<lambda>v. \<not> reachable_table t ! table_index (v_id v)) (tp_vertices t)")
  case None
  then have "\<forall>v\<in>set (tp_vertices t). v_id v \<in> marked (reachable_table t)"
    by (simp add: find_None_iff marked_def)
  then show ?thesis
    using None by (auto simp: validate_reachable_def vertex_ids_def)
next
  case (Some v)
  then have "v \<in> set (tp_vertices t)" and "v_id v \<notin> marked (reachable_table t)"
    by (auto simp: find_Some_first marked_def)
  then show ?thesis
    using Some by (auto simp: validate_reachable_def vertex_ids_def)
qed

lemma validate_reachable_Inl:
  "validate_reachable t = Inl err \<longleftrightarrow>
     (\<exists>pre v post. tp_vertices t = pre @ v # post \<and> v_id ` set pre \<subseteq> marked (reachable_table t) \<and>
        v_id v \<notin> marked (reachable_table t) \<and> err = UnreachableVertex (v_id v))"
  (is "_ \<longleftrightarrow> ?first")
proof -
  have "validate_reachable t = Inl err \<longleftrightarrow>
      (\<exists>v. find (\<lambda>v. \<not> reachable_table t ! table_index (v_id v)) (tp_vertices t) = Some v \<and>
         err = UnreachableVertex (v_id v))"
    by (auto simp: validate_reachable_def split: option.splits)
  also have "\<dots> \<longleftrightarrow> ?first"
    by (simp only: find_Some_first table_marked) blast
  finally show ?thesis .
qed

lemma reachable_table_ok:
  "tp_initial t \<in> vertex_ids t \<Longrightarrow> edges_ok t (tp_transitions t) \<Longrightarrow>
     marked (reachable_table t) = (edge_rel (tp_transitions t))\<^sup>* `` {tp_initial t}"
  by (rule reachable_table_correct) (auto simp: vertex_ids_def edges_ok_def)

lemma validate_Inr: "validate t = Inr () \<longleftrightarrow> well_formed t"
proof -
  have "validate t = Inr () \<longleftrightarrow>
      distinct (map v_id (tp_vertices t)) \<and> tp_initial t \<in> vertex_ids t \<and>
      edges_ok t (tp_transitions t) \<and> validate_reachable t = Inr ()"
    using validate_vertices_Inr [of "[]" "tp_vertices t"]
      validate_edges_Inr [of t "[]" "tp_transitions t"]
    by (auto simp: validate_def declared_iff vertex_ids_def edges_ok_def)
  then show ?thesis
    using reachable_table_ok [of t]
    by (auto simp: validate_reachable_Inr well_formed_def edges_ok_def)
qed

lemma validate_Inl_cases:
  "validate t = Inl err \<longleftrightarrow>
     (\<exists>pre v post. tp_vertices t = pre @ v # post \<and> (distinct (map v_id pre) \<and>
        v_id v \<in> v_id ` set pre \<and> err = DuplicateVertex (v_id v))) \<or>
     distinct (map v_id (tp_vertices t)) \<and>
       (tp_initial t \<notin> vertex_ids t \<and> err = UnknownInitial (tp_initial t) \<or>
        tp_initial t \<in> vertex_ids t \<and>
          ((\<exists>pre e post. tp_transitions t = pre @ e # post \<and> edge_defect t pre e err) \<or>
           edges_ok t (tp_transitions t) \<and> validate_reachable t = Inl err))"
proof -
  have none: "edges_ok t []" by (simp add: edges_ok_def)
  show ?thesis
    using validate_vertices_Inl [of "[]" "tp_vertices t" err]
      validate_vertices_Inr [of "[]" "tp_vertices t"]
      validate_edges_Inl [OF none, of "tp_transitions t" err]
      validate_edges_Inr [OF none, of "tp_transitions t"]
    by (simp add: validate_def and_then_Inl declared_iff vertex_ids_def) auto
qed

lemma validate_Inl: "validate t = Inl err \<longleftrightarrow> first_defect t err"
proof
  assume "validate t = Inl err"
  then consider
      (vertex) pre v post where "tp_vertices t = pre @ v # post" "distinct (map v_id pre)"
        "v_id v \<in> v_id ` set pre" "err = DuplicateVertex (v_id v)"
    | (initial) "distinct (map v_id (tp_vertices t))" "tp_initial t \<notin> vertex_ids t"
        "err = UnknownInitial (tp_initial t)"
    | (edge) pre e post where "distinct (map v_id (tp_vertices t))" "tp_initial t \<in> vertex_ids t"
        "tp_transitions t = pre @ e # post" "edge_defect t pre e err"
    | (reach) "distinct (map v_id (tp_vertices t))" "tp_initial t \<in> vertex_ids t"
        "edges_ok t (tp_transitions t)" "validate_reachable t = Inl err"
    unfolding validate_Inl_cases by blast
  then show "first_defect t err"
  proof cases
    case vertex
    then show ?thesis by (auto intro: first_defect.duplicate_vertex)
  next
    case initial
    then show ?thesis by (auto intro: first_defect.unknown_initial)
  next
    case edge
    then show ?thesis
      by (auto simp: edge_defect_def split: if_splits
          intro: first_defect.duplicate_transition first_defect.unknown_vertex)
  next
    case reach
    then show ?thesis
      using reachable_table_ok [of t]
      by (auto simp: validate_reachable_Inl intro: first_defect.unreachable_vertex)
  qed
next
  assume "first_defect t err"
  then show "validate t = Inl err"
  proof cases
    case duplicate_vertex
    then show ?thesis unfolding validate_Inl_cases by blast
  next
    case unknown_initial
    then show ?thesis unfolding validate_Inl_cases by blast
  next
    case (duplicate_transition pre e post)
    then have "edge_defect t pre e err" by (simp add: edge_defect_def)
    with duplicate_transition show ?thesis unfolding validate_Inl_cases by blast
  next
    case (unknown_vertex pre e post i)
    then have "edge_defect t pre e err" by (auto simp: edge_defect_def split: if_splits)
    with unknown_vertex show ?thesis unfolding validate_Inl_cases by blast
  next
    case (unreachable_vertex pre v post)
    then have "validate_reachable t = Inl err"
      using reachable_table_ok [of t] by (auto simp: validate_reachable_Inl)
    with unreachable_vertex show ?thesis unfolding validate_Inl_cases by blast
  qed
qed

lemma validated_Inr: "validated t = Inr v \<longleftrightarrow> v = ValidatedTopology t \<and> well_formed t"
  by (auto simp: validated_def validate_Inr)

subsection \<open>Mermaid rendering\<close>

text \<open>
  The sink is a parameter: \<open>write w s\<close> is \<open>fmt::Write::write_fmt\<close> on the sink state \<open>w\<close> with the
  formatted text \<open>s\<close> of one \<open>writeln!\<close>; it returns the new sink state and whether it failed.
\<close>

datatype FmtError = FmtError

definition sink_then ::
  "(FmtError + unit) \<times> 'w \<Rightarrow> ('w \<Rightarrow> (FmtError + unit) \<times> 'w) \<Rightarrow> (FmtError + unit) \<times> 'w" where
  "sink_then r f = (case r of (Inl e, w) \<Rightarrow> (Inl e, w) | (Inr _, w) \<Rightarrow> f w)"

definition newline :: string where
  "newline = [CHR 0x0A]"

definition label :: "Topology \<Rightarrow> VertexId \<Rightarrow> string option" where
  "label t i = map_option v_label (find (\<lambda>v. v_id v = i) (tp_vertices t))"

fun write_edges ::
  "Topology \<Rightarrow> ('w \<Rightarrow> string \<Rightarrow> (FmtError + unit) \<times> 'w) \<Rightarrow> Transition list \<Rightarrow> 'w \<Rightarrow>
     (FmtError + unit) \<times> 'w" where
  "write_edges t write [] w = (Inr (), w)"
| "write_edges t write (e # es) w =
     (case (label t (t_from e), label t (t_to e)) of
        (None, _) \<Rightarrow> (Inl FmtError, w)
      | (Some _, None) \<Rightarrow> (Inl FmtError, w)
      | (Some from, Some to) \<Rightarrow>
          sink_then (write w (''    '' @ from @ '' --> '' @ to @ '': '' @ t_label e @ newline))
            (write_edges t write es))"

definition write_mermaid ::
  "Topology \<Rightarrow> ('w \<Rightarrow> string \<Rightarrow> (FmtError + unit) \<times> 'w) \<Rightarrow> 'w \<Rightarrow> (FmtError + unit) \<times> 'w" where
  "write_mermaid t write w =
     sink_then (write w (''stateDiagram-v2'' @ newline)) (\<lambda>w.
       case label t (tp_initial t) of
         None \<Rightarrow> (Inl FmtError, w)
       | Some initial \<Rightarrow>
           sink_then (write w (''    [*] --> '' @ initial @ newline)) (\<lambda>w.
             write_edges t write (tp_transitions t) w))"

text \<open>A \<open>String\<close> sink, which never fails.\<close>

definition string_write :: "string \<Rightarrow> string \<Rightarrow> (FmtError + unit) \<times> string" where
  "string_write w s = (Inr (), w @ s)"

definition name_of :: "Topology \<Rightarrow> VertexId \<Rightarrow> string" where
  "name_of t i = (case label t i of None \<Rightarrow> [] | Some l \<Rightarrow> l)"

definition edge_line :: "Topology \<Rightarrow> Transition \<Rightarrow> string" where
  "edge_line t e =
     ''    '' @ name_of t (t_from e) @ '' --> '' @ name_of t (t_to e) @ '': '' @ t_label e @ newline"

definition mermaid_text :: "Topology \<Rightarrow> string" where
  "mermaid_text t =
     ''stateDiagram-v2'' @ newline @ ''    [*] --> '' @ name_of t (tp_initial t) @ newline @
     concat (map (edge_line t) (tp_transitions t))"

lemma label_None: "label t i = None \<longleftrightarrow> i \<notin> vertex_ids t"
  by (auto simp: label_def find_None_iff vertex_ids_def)

lemma label_Some: "i \<in> vertex_ids t \<Longrightarrow> label t i = Some (name_of t i)"
  using label_None [of t i] by (auto simp: name_of_def)

lemma label_unknown: "i \<notin> vertex_ids t \<Longrightarrow> label t i = None"
  by (simp add: label_None)

lemma sink_then_string [simp]: "sink_then (string_write w s) f = f (w @ s)"
  by (simp add: sink_then_def string_write_def)

lemma write_edges_string:
  "\<forall>e\<in>set es. t_from e \<in> vertex_ids t \<and> t_to e \<in> vertex_ids t \<Longrightarrow>
     write_edges t string_write es w = (Inr (), w @ concat (map (edge_line t) es))"
  by (induction es arbitrary: w) (auto simp: label_Some edge_line_def)

lemma write_edges_unknown:
  "(\<exists>e\<in>set es. t_from e \<notin> vertex_ids t \<or> t_to e \<notin> vertex_ids t) \<Longrightarrow>
     fst (write_edges t string_write es w) = Inl FmtError"
proof (induction es arbitrary: w)
  case (Cons e es)
  then show ?case
    by (cases "t_from e \<in> vertex_ids t"; cases "t_to e \<in> vertex_ids t")
      (auto simp: label_Some label_unknown split: option.splits)
qed simp

text \<open>
  Rendering into a string succeeds exactly when the initial vertex and every endpoint are
  declared, and then writes \<open>mermaid_text\<close>.
\<close>

definition references_declared :: "Topology \<Rightarrow> bool" where
  "references_declared t \<longleftrightarrow>
     tp_initial t \<in> vertex_ids t \<and>
     (\<forall>e\<in>set (tp_transitions t). t_from e \<in> vertex_ids t \<and> t_to e \<in> vertex_ids t)"

lemma well_formed_references: "well_formed t \<Longrightarrow> references_declared t"
  by (auto simp: well_formed_def references_declared_def)

lemma write_mermaid_ok:
  "references_declared t \<Longrightarrow> write_mermaid t string_write w = (Inr (), w @ mermaid_text t)"
  by (simp add: write_mermaid_def references_declared_def label_Some write_edges_string mermaid_text_def)

lemma write_mermaid_error:
  "\<not> references_declared t \<Longrightarrow> fst (write_mermaid t string_write w) = Inl FmtError"
  by (cases "tp_initial t \<in> vertex_ids t")
    (auto simp: write_mermaid_def references_declared_def label_Some label_unknown write_edges_unknown
      split: option.splits)

subsection \<open>Properties\<close>

text \<open>
  C27: Validation accepts exactly the well-formed topologies: distinct vertex identities, a
  declared initial vertex, deterministic edges with declared endpoints, and every vertex reachable
  from the initial one. In particular one relaxation round per vertex over the 256-entry table
  computes reachability exactly.
\<close>

theorem validate_accepts_exactly_well_formed: "validate t = Inr () \<longleftrightarrow> well_formed t"
  by (rule validate_Inr)

text \<open>
  C28: Validation reports a defect exactly when it is the first one in the documented order
  (vertices, initial vertex, edges in declaration order, reachability), with the offending
  identity or edge.
\<close>

theorem validate_reports_first_defect: "validate t = Inl err \<longleftrightarrow> first_defect t err"
  by (rule validate_Inl)

text \<open>
  Rendering a topology into a string writes the whole diagram when the initial vertex and all
  edge endpoints are declared (so for every validated topology) and fails with a formatting
  error otherwise.
\<close>

theorem mermaid_total_on_declared_references:
  "(if references_declared t then write_mermaid t string_write w = (Inr (), w @ mermaid_text t)
    else fst (write_mermaid t string_write w) = Inl FmtError) \<and>
   (case validated t of Inl _ \<Rightarrow> True | Inr v \<Rightarrow> references_declared (validated_topology v))"
  using write_mermaid_ok [of t w] write_mermaid_error [of t w]
  by (auto simp: validated_Inr well_formed_references split: sum.splits)

end
