(* ===== verification/Machine.thy ===== *)
theory Machine
  imports Topology
begin

section \<open>Machines and their composition\<close>

text \<open>
  The executable half of \<open>crates/transition/src/machine.rs\<close>.  A machine is its state \<open>'m\<close> and
  its \<open>step\<close>, a function \<open>'m \<Rightarrow> 'i \<Rightarrow> panic + 'o \<times> 'm\<close> that consumes the machine and returns
  the output and the successor.  \<open>Base\<close>, \<open>Then\<close>, \<open>Product\<close> and \<open>Routed\<close> are the four
  implementations; the steps (and \<open>describe\<close>s) of the parts are arguments of the compositions, as
  the Rust type parameters are.  A closure \<open>FnMut(S, I) -> (O, S)\<close> is its captured environment
  \<open>'f\<close> and the parameter \<open>call\<close>, which may change that environment.  \<open>run_machine\<close> feeds a list
  of inputs.  The interface is stated as locales: \<open>described_machine\<close> (\<open>describe\<close>
  walks a shape that a step keeps) and \<open>machine_invariant\<close> (a step keeps an invariant).
\<close>

fun run_machine ::
  "('m \<Rightarrow> 'i \<Rightarrow> panic + 'o \<times> 'm) \<Rightarrow> 'm \<Rightarrow> 'i list \<Rightarrow> panic + 'o list \<times> 'm" where
  "run_machine step m [] = Inr ([], m)"
| "run_machine step m (i # is) =
     and_then (step m i) (\<lambda>(out, m').
       and_then (run_machine step m' is) (\<lambda>(outs, m''). Inr (out # outs, m'')))"

lemma run_machine_Cons_Inr:
  "run_machine step m (i # is) = Inr (outs, m'') \<longleftrightarrow>
     (\<exists>out m' rest. step m i = Inr (out, m') \<and> run_machine step m' is = Inr (rest, m'') \<and>
        outs = out # rest)"
  by auto

lemma run_machine_length: "run_machine step m is = Inr (outs, m') \<Longrightarrow> length outs = length is"
  by (induction "is" arbitrary: m outs) auto

lemma run_machine_append:
  "run_machine step m (xs @ ys) = Inr (outs, m'') \<longleftrightarrow>
     (\<exists>a m' b. run_machine step m xs = Inr (a, m') \<and> run_machine step m' ys = Inr (b, m'') \<and>
        outs = a @ b)"
  by (induction xs arbitrary: m outs) fastforce+

subsection \<open>Structural interpreters\<close>

record ('v, 'd) Structure =
  visit_base :: "'v \<Rightarrow> Topology \<Rightarrow> 'd \<times> 'v"
  visit_then :: "'v \<Rightarrow> 'd \<Rightarrow> 'd \<Rightarrow> 'd \<times> 'v"
  visit_product :: "'v \<Rightarrow> 'd \<Rightarrow> 'd \<Rightarrow> 'd \<times> 'v"
  visit_routed :: "'v \<Rightarrow> 'd \<Rightarrow> 'd \<Rightarrow> 'd \<times> 'v"

subsection \<open>Base machines\<close>

record ('s, 'f) Base =
  base_state :: 's
  base_transition :: 'f
  base_topology :: ValidatedTopology

definition base_new :: "'s \<Rightarrow> ValidatedTopology \<Rightarrow> 'f \<Rightarrow> ('s, 'f) Base" where
  "base_new s topology transition =
     \<lparr>base_state = s, base_transition = transition, base_topology = topology\<rparr>"

definition base_step ::
  "('f \<Rightarrow> 's \<Rightarrow> 'i \<Rightarrow> panic + ('o \<times> 's) \<times> 'f) \<Rightarrow> ('s, 'f) Base \<Rightarrow> 'i \<Rightarrow> panic + 'o \<times> ('s, 'f) Base"
where
  "base_step call b i =
     and_then (call (base_transition b) (base_state b) i) (\<lambda>((out, s'), f').
       Inr (out, \<lparr>base_state = s', base_transition = f', base_topology = base_topology b\<rparr>))"

definition base_describe ::
  "('v, 'd) Structure \<Rightarrow> ('s, 'f) Base \<Rightarrow> 'v \<Rightarrow> 'd \<times> 'v" where
  "base_describe vis b v = visit_base vis v (validated_topology (base_topology b))"

text \<open>Calling a plain function pointer: its captured environment is the function itself.\<close>

definition call_fn ::
  "('s \<Rightarrow> 'i \<Rightarrow> panic + 'o \<times> 's) \<Rightarrow> 's \<Rightarrow> 'i \<Rightarrow> panic + ('o \<times> 's) \<times> ('s \<Rightarrow> 'i \<Rightarrow> panic + 'o \<times> 's)" where
  "call_fn f s i = and_then (f s i) (\<lambda>r. Inr (r, f))"

subsection \<open>Sequential, product and sum composition\<close>

datatype ('a, 'b) Then = Then (then_first: 'a) (then_second: 'b)

datatype ('a, 'b) Product = Product (product_left: 'a) (product_right: 'b)

datatype ('a, 'b) Routed = Routed (routed_left: 'a) (routed_right: 'b)

datatype ('a, 'b) Either = Left 'a | Right 'b

definition compose_then :: "'a \<Rightarrow> 'b \<Rightarrow> ('a, 'b) Then" where
  "compose_then m n = Then m n"

definition compose_product :: "'a \<Rightarrow> 'b \<Rightarrow> ('a, 'b) Product" where
  "compose_product m n = Product m n"

definition compose_routed :: "'a \<Rightarrow> 'b \<Rightarrow> ('a, 'b) Routed" where
  "compose_routed m n = Routed m n"

fun then_step ::
  "('a \<Rightarrow> 'i \<Rightarrow> panic + 'm \<times> 'a) \<Rightarrow> ('b \<Rightarrow> 'm \<Rightarrow> panic + 'o \<times> 'b) \<Rightarrow>
     ('a, 'b) Then \<Rightarrow> 'i \<Rightarrow> panic + 'o \<times> ('a, 'b) Then" where
  "then_step stepA stepB (Then a b) i =
     and_then (stepA a i) (\<lambda>(middle, first).
       and_then (stepB b middle) (\<lambda>(out, second). Inr (out, Then first second)))"

fun product_step ::
  "('a \<Rightarrow> 'i \<Rightarrow> panic + 'o \<times> 'a) \<Rightarrow> ('b \<Rightarrow> 'j \<Rightarrow> panic + 'p \<times> 'b) \<Rightarrow>
     ('a, 'b) Product \<Rightarrow> 'i \<times> 'j \<Rightarrow> panic + ('o \<times> 'p) \<times> ('a, 'b) Product" where
  "product_step stepA stepB (Product a b) (left, right) =
     and_then (stepA a left) (\<lambda>(left_output, left_machine).
       and_then (stepB b right) (\<lambda>(right_output, right_machine).
         Inr ((left_output, right_output), Product left_machine right_machine)))"

fun routed_step ::
  "('a \<Rightarrow> 'i \<Rightarrow> panic + 'o \<times> 'a) \<Rightarrow> ('b \<Rightarrow> 'j \<Rightarrow> panic + 'p \<times> 'b) \<Rightarrow>
     ('a, 'b) Routed \<Rightarrow> ('i, 'j) Either \<Rightarrow> panic + ('o, 'p) Either \<times> ('a, 'b) Routed" where
  "routed_step stepA stepB (Routed a b) (Left left) =
     and_then (stepA a left) (\<lambda>(out, machine). Inr (Left out, Routed machine b))"
| "routed_step stepA stepB (Routed a b) (Right right) =
     and_then (stepB b right) (\<lambda>(out, machine). Inr (Right out, Routed a machine))"

fun then_describe ::
  "('a \<Rightarrow> 'v \<Rightarrow> 'd \<times> 'v) \<Rightarrow> ('b \<Rightarrow> 'v \<Rightarrow> 'd \<times> 'v) \<Rightarrow> ('v, 'd) Structure \<Rightarrow>
     ('a, 'b) Then \<Rightarrow> 'v \<Rightarrow> 'd \<times> 'v" where
  "then_describe describeA describeB vis (Then a b) v =
     (let (first, v1) = describeA a v; (second, v2) = describeB b v1
      in visit_then vis v2 first second)"

fun product_describe ::
  "('a \<Rightarrow> 'v \<Rightarrow> 'd \<times> 'v) \<Rightarrow> ('b \<Rightarrow> 'v \<Rightarrow> 'd \<times> 'v) \<Rightarrow> ('v, 'd) Structure \<Rightarrow>
     ('a, 'b) Product \<Rightarrow> 'v \<Rightarrow> 'd \<times> 'v" where
  "product_describe describeA describeB vis (Product a b) v =
     (let (left, v1) = describeA a v; (right, v2) = describeB b v1
      in visit_product vis v2 left right)"

fun routed_describe ::
  "('a \<Rightarrow> 'v \<Rightarrow> 'd \<times> 'v) \<Rightarrow> ('b \<Rightarrow> 'v \<Rightarrow> 'd \<times> 'v) \<Rightarrow> ('v, 'd) Structure \<Rightarrow>
     ('a, 'b) Routed \<Rightarrow> 'v \<Rightarrow> 'd \<times> 'v" where
  "routed_describe describeA describeB vis (Routed a b) v =
     (let (left, v1) = describeA a v; (right, v2) = describeB b v1
      in visit_routed vis v2 left right)"

subsection \<open>The machine interface\<close>

text \<open>
  What a structural interpreter has to be called with, said without reference to \<open>describe\<close>: the
  shape of a composition, the calls of a postorder walk over it, and a stack that holds the results
  not combined yet, the latest on top.
\<close>

datatype Shape =
    ShapeBase Topology
  | ShapeThen Shape Shape
  | ShapeProduct Shape Shape
  | ShapeRouted Shape Shape

datatype Visit = VisitBase Topology | VisitThen | VisitProduct | VisitRouted

fun postorder :: "Shape \<Rightarrow> Visit list" where
  "postorder (ShapeBase t) = [VisitBase t]"
| "postorder (ShapeThen a b) = postorder a @ postorder b @ [VisitThen]"
| "postorder (ShapeProduct a b) = postorder a @ postorder b @ [VisitProduct]"
| "postorder (ShapeRouted a b) = postorder a @ postorder b @ [VisitRouted]"

fun visit :: "('v, 'd) Structure \<Rightarrow> Visit \<Rightarrow> 'd list \<times> 'v \<Rightarrow> 'd list \<times> 'v" where
  "visit vis (VisitBase t) (results, v) = apfst (\<lambda>d. d # results) (visit_base vis v t)"
| "visit vis VisitThen (y # x # results, v) = apfst (\<lambda>d. d # results) (visit_then vis v x y)"
| "visit vis VisitProduct (y # x # results, v) = apfst (\<lambda>d. d # results) (visit_product vis v x y)"
| "visit vis VisitRouted (y # x # results, v) = apfst (\<lambda>d. d # results) (visit_routed vis v x y)"
| "visit vis _ (results, v) = (results, v)"

definition walk :: "('v, 'd) Structure \<Rightarrow> Shape \<Rightarrow> 'd list \<Rightarrow> 'v \<Rightarrow> 'd list \<times> 'v" where
  "walk vis shape results v = fold (visit vis) (postorder shape) (results, v)"

fun then_shape :: "('a \<Rightarrow> Shape) \<Rightarrow> ('b \<Rightarrow> Shape) \<Rightarrow> ('a, 'b) Then \<Rightarrow> Shape" where
  "then_shape shapeA shapeB (Then a b) = ShapeThen (shapeA a) (shapeB b)"

fun product_shape :: "('a \<Rightarrow> Shape) \<Rightarrow> ('b \<Rightarrow> Shape) \<Rightarrow> ('a, 'b) Product \<Rightarrow> Shape" where
  "product_shape shapeA shapeB (Product a b) = ShapeProduct (shapeA a) (shapeB b)"

fun routed_shape :: "('a \<Rightarrow> Shape) \<Rightarrow> ('b \<Rightarrow> Shape) \<Rightarrow> ('a, 'b) Routed \<Rightarrow> Shape" where
  "routed_shape shapeA shapeB (Routed a b) = ShapeRouted (shapeA a) (shapeB b)"

definition base_shape :: "('s, 'f) Base \<Rightarrow> Shape" where
  "base_shape b = ShapeBase (validated_topology (base_topology b))"

lemma walk_simps:
  "walk vis (ShapeBase t) results v = apfst (\<lambda>d. d # results) (visit_base vis v t)"
  "walk vis (ShapeThen a b) results v =
     (let (results1, v1) = walk vis a results v; (results2, v2) = walk vis b results1 v1 in visit vis VisitThen (results2, v2))"
  "walk vis (ShapeProduct a b) results v =
     (let (results1, v1) = walk vis a results v; (results2, v2) = walk vis b results1 v1 in visit vis VisitProduct (results2, v2))"
  "walk vis (ShapeRouted a b) results v =
     (let (results1, v1) = walk vis a results v; (results2, v2) = walk vis b results1 v1 in visit vis VisitRouted (results2, v2))"
  by (simp_all add: walk_def split: prod.split)

text \<open>
  A machine with a shape: \<open>describe\<close> is the postorder walk over it and leaves its result on the
  stack, and execution never changes it.
\<close>

definition structured ::
  "('v, 'd) Structure \<Rightarrow> ('m \<Rightarrow> 'i \<Rightarrow> panic + 'o \<times> 'm) \<Rightarrow> ('m \<Rightarrow> 'v \<Rightarrow> 'd \<times> 'v) \<Rightarrow> ('m \<Rightarrow> Shape) \<Rightarrow> bool"
where
  "structured vis step describe shape \<longleftrightarrow>
     (\<forall>m results v. walk vis (shape m) results v = apfst (\<lambda>d. d # results) (describe m v)) \<and>
     (\<forall>is m outs m'. run_machine step m is = Inr (outs, m') \<longrightarrow> shape m' = shape m)"

locale described_machine =
  fixes vis :: "('v, 'd) Structure"
    and step :: "'m \<Rightarrow> 'i \<Rightarrow> panic + 'o \<times> 'm"
    and describe :: "'m \<Rightarrow> 'v \<Rightarrow> 'd \<times> 'v"
    and shape :: "'m \<Rightarrow> Shape"
  assumes step_shape: "step m i = Inr (out, m') \<Longrightarrow> shape m' = shape m"
    and describe_walk: "walk vis (shape m) results v = apfst (\<lambda>d. d # results) (describe m v)"
begin

lemma run_shape: "run_machine step m is = Inr (outs, m') \<Longrightarrow> shape m' = shape m"
  by (induction "is" arbitrary: m outs) (auto dest: step_shape)

lemma is_structured: "structured vis step describe shape"
  unfolding structured_def using describe_walk run_shape by blast

end

lemma structured_machine: "structured vis step describe shape \<Longrightarrow> described_machine vis step describe shape"
proof
  fix m i out m'
  assume "structured vis step describe shape" and "step m i = Inr (out, m')"
  moreover from this(2) have "run_machine step m [i] = Inr ([out], m')" by simp
  ultimately show "shape m' = shape m" unfolding structured_def by blast
qed (simp add: structured_def)

text \<open>Two machines side by side: their product and their sum have a shape.\<close>

locale machine_pair =
  left: described_machine vis stepA describeA shapeA + right: described_machine vis stepB describeB shapeB
  for vis :: "('v, 'd) Structure"
    and stepA :: "'a \<Rightarrow> 'i \<Rightarrow> panic + 'o \<times> 'a" and describeA :: "'a \<Rightarrow> 'v \<Rightarrow> 'd \<times> 'v" and shapeA :: "'a \<Rightarrow> Shape"
    and stepB :: "'b \<Rightarrow> 'j \<Rightarrow> panic + 'p \<times> 'b" and describeB :: "'b \<Rightarrow> 'v \<Rightarrow> 'd \<times> 'v" and shapeB :: "'b \<Rightarrow> Shape"
begin

sublocale product_machine:
  described_machine vis "product_step stepA stepB" "product_describe describeA describeB vis" "product_shape shapeA shapeB"
proof
  fix m i out m'
  assume "product_step stepA stepB m i = Inr (out, m')"
  then show "product_shape shapeA shapeB m' = product_shape shapeA shapeB m"
    by (cases "(stepA, stepB, m, i)" rule: product_step.cases)
      (auto dest!: left.step_shape right.step_shape)
next
  fix m results v
  show "walk vis (product_shape shapeA shapeB m) results v =
      apfst (\<lambda>d. d # results) (product_describe describeA describeB vis m v)"
    by (cases m) (simp add: walk_simps left.describe_walk right.describe_walk Let_def split: prod.split)
qed

sublocale routed_machine:
  described_machine vis "routed_step stepA stepB" "routed_describe describeA describeB vis" "routed_shape shapeA shapeB"
proof
  fix m i out m'
  assume "routed_step stepA stepB m i = Inr (out, m')"
  then show "routed_shape shapeA shapeB m' = routed_shape shapeA shapeB m"
    by (cases "(stepA, stepB, m, i)" rule: routed_step.cases)
      (auto dest!: left.step_shape right.step_shape)
next
  fix m results v
  show "walk vis (routed_shape shapeA shapeB m) results v =
      apfst (\<lambda>d. d # results) (routed_describe describeA describeB vis m v)"
    by (cases m) (simp add: walk_simps left.describe_walk right.describe_walk Let_def split: prod.split)
qed

lemma product_structured:
  "structured vis (product_step stepA stepB) (product_describe describeA describeB vis) (product_shape shapeA shapeB)"
  by (rule product_machine.is_structured)

lemma routed_structured:
  "structured vis (routed_step stepA stepB) (routed_describe describeA describeB vis) (routed_shape shapeA shapeB)"
  by (rule routed_machine.is_structured)

end

text \<open>Two machines in sequence: the second consumes the outputs of the first.\<close>

locale machine_chain =
  machine_pair vis stepA describeA shapeA stepB describeB shapeB
  for vis :: "('v, 'd) Structure"
    and stepA :: "'a \<Rightarrow> 'i \<Rightarrow> panic + 'm \<times> 'a" and describeA :: "'a \<Rightarrow> 'v \<Rightarrow> 'd \<times> 'v" and shapeA :: "'a \<Rightarrow> Shape"
    and stepB :: "'b \<Rightarrow> 'm \<Rightarrow> panic + 'o \<times> 'b" and describeB :: "'b \<Rightarrow> 'v \<Rightarrow> 'd \<times> 'v" and shapeB :: "'b \<Rightarrow> Shape"
begin

sublocale then_machine:
  described_machine vis "then_step stepA stepB" "then_describe describeA describeB vis" "then_shape shapeA shapeB"
proof
  fix m i out m'
  assume "then_step stepA stepB m i = Inr (out, m')"
  then show "then_shape shapeA shapeB m' = then_shape shapeA shapeB m"
    by (cases m) (auto dest!: left.step_shape right.step_shape)
next
  fix m results v
  show "walk vis (then_shape shapeA shapeB m) results v =
      apfst (\<lambda>d. d # results) (then_describe describeA describeB vis m v)"
    by (cases m) (simp add: walk_simps left.describe_walk right.describe_walk Let_def split: prod.split)
qed

lemma then_structured:
  "structured vis (then_step stepA stepB) (then_describe describeA describeB vis) (then_shape shapeA shapeB)"
  by (rule then_machine.is_structured)

end

interpretation base_machine: described_machine vis "base_step call" "base_describe vis" base_shape
  for call :: "'f \<Rightarrow> 's \<Rightarrow> 'i \<Rightarrow> panic + ('o \<times> 's) \<times> 'f" and vis :: "('v, 'd) Structure"
  by unfold_locales (auto simp: base_step_def base_describe_def base_shape_def walk_simps)

interpretation base_pair:
  machine_pair vis "base_step callA" "base_describe vis" base_shape "base_step callB" "base_describe vis" base_shape
  for callA :: "'f \<Rightarrow> 's \<Rightarrow> 'i \<Rightarrow> panic + ('o \<times> 's) \<times> 'f"
    and callB :: "'g \<Rightarrow> 't \<Rightarrow> 'j \<Rightarrow> panic + ('p \<times> 't) \<times> 'g" and vis :: "('v, 'd) Structure"
  by unfold_locales

interpretation base_chain:
  machine_chain vis "base_step callA" "base_describe vis" base_shape "base_step callB" "base_describe vis" base_shape
  for callA :: "'f \<Rightarrow> 's \<Rightarrow> 'i \<Rightarrow> panic + ('m \<times> 's) \<times> 'f"
    and callB :: "'g \<Rightarrow> 't \<Rightarrow> 'm \<Rightarrow> panic + ('o \<times> 't) \<times> 'g" and vis :: "('v, 'd) Structure"
  by unfold_locales

text \<open>Compositions of structured machines are structured.\<close>

lemma structured_pair:
  assumes "structured vis stepA describeA shapeA" and "structured vis stepB describeB shapeB"
  shows "structured vis (product_step stepA stepB) (product_describe describeA describeB vis) (product_shape shapeA shapeB)"
    and "structured vis (routed_step stepA stepB) (routed_describe describeA describeB vis) (routed_shape shapeA shapeB)"
proof -
  have pair: "machine_pair vis stepA describeA shapeA stepB describeB shapeB"
    by (rule machine_pair.intro [OF assms [THEN structured_machine]])
  show "structured vis (product_step stepA stepB) (product_describe describeA describeB vis) (product_shape shapeA shapeB)"
    by (rule machine_pair.product_structured [OF pair])
  show "structured vis (routed_step stepA stepB) (routed_describe describeA describeB vis) (routed_shape shapeA shapeB)"
    by (rule machine_pair.routed_structured [OF pair])
qed

lemma structured_chain:
  assumes "structured vis stepA describeA shapeA" and "structured vis stepB describeB shapeB"
  shows "structured vis (then_step stepA stepB) (then_describe describeA describeB vis) (then_shape shapeA shapeB)"
  by (rule machine_chain.then_structured [OF machine_chain.intro
        [OF machine_pair.intro [OF assms [THEN structured_machine]]]])

text \<open>Execution keeps a state invariant.\<close>

locale machine_invariant =
  fixes step :: "'m \<Rightarrow> 'i \<Rightarrow> panic + 'o \<times> 'm"
    and inv :: "'m \<Rightarrow> bool"
  assumes step_inv: "inv m \<Longrightarrow> step m i = Inr (out, m') \<Longrightarrow> inv m'"
begin

lemma run_inv: "inv m \<Longrightarrow> run_machine step m is = Inr (outs, m') \<Longrightarrow> inv m'"
  by (induction "is" arbitrary: m outs) (auto dest: step_inv)

end

subsection \<open>Composed runs are the runs of the parts\<close>

lemma then_run_Inr:
  "run_machine (then_step stepA stepB) (Then a b) is = Inr (outs, m') \<longleftrightarrow>
     (\<exists>middles a' b'. run_machine stepA a is = Inr (middles, a') \<and>
        run_machine stepB b middles = Inr (outs, b') \<and> m' = Then a' b')"
proof (induction "is" arbitrary: a b outs m')
  case (Cons i "is")
  then show ?case
    by (auto simp: run_machine_Cons_Inr simp del: run_machine.simps(2))
qed auto

lemma product_run_Inr:
  "run_machine (product_step stepA stepB) (Product a b) ijs = Inr (outs, m') \<longleftrightarrow>
     (\<exists>a' b'. run_machine stepA a (map fst ijs) = Inr (map fst outs, a') \<and>
        run_machine stepB b (map snd ijs) = Inr (map snd outs, b') \<and> m' = Product a' b')"
proof (induction ijs arbitrary: a b outs m')
  case (Cons ij ijs)
  then show ?case
    by (cases ij; cases outs) (auto simp: run_machine_Cons_Inr simp del: run_machine.simps(2))
qed auto

fun lefts :: "('a, 'b) Either list \<Rightarrow> 'a list" where
  "lefts [] = []"
| "lefts (Left x # xs) = x # lefts xs"
| "lefts (Right _ # xs) = lefts xs"

fun rights :: "('a, 'b) Either list \<Rightarrow> 'b list" where
  "rights [] = []"
| "rights (Left _ # xs) = rights xs"
| "rights (Right y # xs) = y # rights xs"

fun is_left :: "('a, 'b) Either \<Rightarrow> bool" where
  "is_left (Left _) = True"
| "is_left (Right _) = False"

lemma routed_run_Inr:
  "run_machine (routed_step stepA stepB) (Routed a b) is = Inr (outs, m') \<longleftrightarrow>
     (\<exists>a' b'. run_machine stepA a (lefts is) = Inr (lefts outs, a') \<and>
        run_machine stepB b (rights is) = Inr (rights outs, b') \<and>
        map is_left outs = map is_left is \<and> m' = Routed a' b')"
proof (induction "is" arbitrary: a b outs m')
  case (Cons i "is")
  show ?case
  proof (cases i)
    case (Left x)
    then show ?thesis
      by (cases outs rule: lefts.cases)
        (auto simp: run_machine_Cons_Inr Cons.IH simp del: run_machine.simps(2))
  next
    case (Right y)
    then show ?thesis
      by (cases outs rule: lefts.cases)
        (auto simp: run_machine_Cons_Inr Cons.IH simp del: run_machine.simps(2))
  qed
qed auto

subsection \<open>Properties\<close>

text \<open>
  C31: Compositions run by their components: a run of \<open>Then a b\<close> succeeds exactly when \<open>a\<close> runs on the
  inputs and \<open>b\<close> on the outputs of \<open>a\<close>; a run of \<open>Product a b\<close> is the two independent runs on the left
  and right components of its inputs; a run of \<open>Routed a b\<close> gives each machine exactly the inputs of
  its side, in order, and leaves the other untouched, with the outputs on the side and in the order of
  their inputs. The successor is always the composition of the successors.
\<close>

theorem compositions_run_by_component:
  "(run_machine (then_step stepA stepB) (compose_then a b) is = Inr (outs, m') \<longleftrightarrow>
     (\<exists>middles a' b'. run_machine stepA a is = Inr (middles, a') \<and>
        run_machine stepB b middles = Inr (outs, b') \<and> m' = Then a' b')) \<and>
   (run_machine (product_step stepA stepC) (compose_product a c) ijs = Inr (pairs, n') \<longleftrightarrow>
     (\<exists>a' c'. run_machine stepA a (map fst ijs) = Inr (map fst pairs, a') \<and>
        run_machine stepC c (map snd ijs) = Inr (map snd pairs, c') \<and> n' = Product a' c')) \<and>
   (run_machine (routed_step stepA stepC) (compose_routed a c) es = Inr (sides, r') \<longleftrightarrow>
     (\<exists>a' c'. run_machine stepA a (lefts es) = Inr (lefts sides, a') \<and>
        run_machine stepC c (rights es) = Inr (rights sides, c') \<and>
        map is_left sides = map is_left es \<and> r' = Routed a' c'))"
  by (simp add: compose_then_def then_run_Inr compose_product_def product_run_Inr
      compose_routed_def routed_run_Inr)

text \<open>
  C30: A structural interpreter sees a composition of any depth as a postorder walk, and execution
  never changes what it sees: every base machine is structured, and so are the sequence, the product
  and the sum of any two structured machines, whatever their parts are composed of. For a structured
  machine an interpreter is called exactly once per node, the first (left) part before the second
  (right) one and both before their composition, with their results in that order and the interpreter
  state threaded through; and describing the successor after any run makes exactly those calls again.
\<close>

theorem execution_retains_structure:
  "structured vis (base_step call) (base_describe vis) base_shape \<and>
   (structured vis stepA describeA shapeA \<longrightarrow>
     (structured vis stepB describeB shapeB \<longrightarrow>
        structured vis (then_step stepA stepB) (then_describe describeA describeB vis) (then_shape shapeA shapeB)) \<and>
     (structured vis stepC describeC shapeC \<longrightarrow>
        structured vis (product_step stepA stepC) (product_describe describeA describeC vis) (product_shape shapeA shapeC) \<and>
        structured vis (routed_step stepA stepC) (routed_describe describeA describeC vis) (routed_shape shapeA shapeC))) \<and>
   (structured vis step describe shape \<longrightarrow>
     (\<forall>is m outs m'. run_machine step m is = Inr (outs, m') \<longrightarrow>
        fold (visit vis) (postorder (shape m)) ([], v) = apfst (\<lambda>d. [d]) (describe m' v)))"
proof (intro conjI impI allI)
  fix "is" m outs m'
  assume "structured vis step describe shape" and "run_machine step m is = Inr (outs, m')"
  then have "shape m' = shape m" "walk vis (shape m') [] v = apfst (\<lambda>d. [d]) (describe m' v)"
    unfolding structured_def by blast+
  then show "fold (visit vis) (postorder (shape m)) ([], v) = apfst (\<lambda>d. [d]) (describe m' v)"
    by (simp add: walk_def)
qed (simp_all add: base_machine.is_structured structured_chain structured_pair)

text \<open>The instance: a running sum (\<open>increment\<close>) followed by doubling, fed 3 and 1.\<close>

definition sample_topology :: "string \<Rightarrow> ValidatedTopology" where
  "sample_topology name =
     ValidatedTopology \<lparr>tp_name = name, tp_initial = VertexId 0,
       tp_vertices = [\<lparr>v_id = VertexId 0, v_label = ''ready''\<rparr>], tp_transitions = []\<rparr>"

definition sample_chain ::
  "((nat, nat \<Rightarrow> nat \<Rightarrow> panic + nat \<times> nat) Base, (unit, unit \<Rightarrow> nat \<Rightarrow> panic + nat \<times> unit) Base) Then" where
  "sample_chain =
     compose_then (base_new 0 (sample_topology ''sum'') (\<lambda>s i. Inr (s + i, s + i)))
       (base_new () (sample_topology ''double'') (\<lambda>s i. Inr (2 * i, s)))"

text \<open>An interpreter that writes down its calls and the results it is given.\<close>

datatype Sighting = Saw string | SawThen Sighting Sighting | SawProduct Sighting Sighting | SawRouted Sighting Sighting

definition logging :: "(Sighting list, Sighting) Structure" where
  "logging =
     \<lparr>visit_base = \<lambda>v t. (Saw (tp_name t), v @ [Saw (tp_name t)]),
      visit_then = \<lambda>v x y. (SawThen x y, v @ [SawThen x y]),
      visit_product = \<lambda>v x y. (SawProduct x y, v @ [SawProduct x y]),
      visit_routed = \<lambda>v x y. (SawRouted x y, v @ [SawRouted x y])\<rparr>"

theorem execution_retains_structure_witness:
  "\<exists>m'. run_machine (then_step (base_step call_fn) (base_step call_fn)) sample_chain [3, 1] = Inr ([6, 8], m') \<and>
     then_describe (base_describe logging) (base_describe logging) logging m' [] =
       (SawThen (Saw ''sum'') (Saw ''double''), [Saw ''sum'', Saw ''double'', SawThen (Saw ''sum'') (Saw ''double'')])"
proof -
  let ?step = "then_step (base_step call_fn) (base_step call_fn)"
    and ?describe = "then_describe (base_describe logging) (base_describe logging) logging"
  obtain m' where run: "run_machine ?step sample_chain [3, 1] = Inr ([6, 8], m')"
    by (simp add: sample_chain_def compose_then_def base_new_def base_step_def call_fn_def)
  have parts: "structured logging (base_step call_fn) (base_describe logging) base_shape"
    by (rule execution_retains_structure [THEN conjunct1])
  note chain = execution_retains_structure [THEN conjunct2, THEN conjunct1, THEN mp, OF parts, THEN conjunct1, THEN mp, OF parts]
  have "fold (visit logging) (postorder (then_shape base_shape base_shape sample_chain)) ([], []) =
      apfst (\<lambda>d. [d]) (?describe m' [])"
    using execution_retains_structure [THEN conjunct2, THEN conjunct2, THEN mp, OF chain] run by blast
  then have "apfst (\<lambda>d. [d]) (?describe m' []) =
      ([SawThen (Saw ''sum'') (Saw ''double'')], [Saw ''sum'', Saw ''double'', SawThen (Saw ''sum'') (Saw ''double'')])"
    by (simp add: sample_chain_def compose_then_def base_new_def base_shape_def sample_topology_def logging_def)
  then have "?describe m' [] =
      (SawThen (Saw ''sum'') (Saw ''double''), [Saw ''sum'', Saw ''double'', SawThen (Saw ''sum'') (Saw ''double'')])"
    by (cases "?describe m' []") simp
  with run show ?thesis by blast
qed

end
