(* ===== verification/Lifecycle_Machine.thy ===== *)
theory Lifecycle_Machine
  imports Machine Slot_Invariants
begin

section \<open>The executable lifecycle machine\<close>

text \<open>
  \<open>crates/entity/src/lifecycle/machine.rs\<close>: the typed lifecycle edges, the declared topology, its
  lifecycle-specific validation, and the machine that runs the slot reducer and returns evidence
  of the edge it took.  The lemmas show that the declared topology is valid and renders as
  documented, that every phase change of the reducer is a declared edge (so the \<open>expect\<close> in
  \<open>transition\<close> never fires), and that the evidence describes the step exactly.
\<close>

subsection \<open>Identities of phases and triggers\<close>

fun phase_id :: "LifecyclePhase \<Rightarrow> VertexId" where
  "phase_id PInactive = VertexId 0"
| "phase_id PActivating = VertexId 1"
| "phase_id PActive = VertexId 2"
| "phase_id PDraining = VertexId 3"
| "phase_id PRetiring = VertexId 4"

fun trigger_id :: "LifecycleTrigger \<Rightarrow> TriggerId" where
  "trigger_id TClaimActivation = TriggerId 0"
| "trigger_id TDispatch = TriggerId 1"
| "trigger_id TCancelWaiter = TriggerId 2"
| "trigger_id TActivationSucceeded = TriggerId 3"
| "trigger_id TActivationFailed = TriggerId 4"
| "trigger_id TDeliveryResolved = TriggerId 5"
| "trigger_id TBeginDrain = TriggerId 6"
| "trigger_id TFenceAcknowledged = TriggerId 7"
| "trigger_id TForceDrain = TriggerId 8"
| "trigger_id TTerminated = TriggerId 9"

fun trigger_label :: "LifecycleTrigger \<Rightarrow> string" where
  "trigger_label TClaimActivation = ''claim_activation''"
| "trigger_label TDispatch = ''dispatch''"
| "trigger_label TCancelWaiter = ''cancel_waiter''"
| "trigger_label TActivationSucceeded = ''activation_succeeded''"
| "trigger_label TActivationFailed = ''activation_failed''"
| "trigger_label TDeliveryResolved = ''delivery_resolved''"
| "trigger_label TBeginDrain = ''begin_drain''"
| "trigger_label TFenceAcknowledged = ''fence_acknowledged''"
| "trigger_label TForceDrain = ''force_drain''"
| "trigger_label TTerminated = ''terminated''"

subsection \<open>Edges\<close>

datatype LifecycleEdge =
    EClaimActivation
  | EActivationSucceeded
  | EActivationFailed
  | EBeginDrain
  | EFenceAcknowledged
  | EForceDrain
  | ETerminated

definition all_edges :: "LifecycleEdge list" where
  "all_edges =
     [EClaimActivation, EActivationSucceeded, EActivationFailed, EBeginDrain,
      EFenceAcknowledged, EForceDrain, ETerminated]"

fun endpoints :: "LifecycleEdge \<Rightarrow> LifecyclePhase \<times> LifecycleTrigger \<times> LifecyclePhase" where
  "endpoints EClaimActivation = (PInactive, TClaimActivation, PActivating)"
| "endpoints EActivationSucceeded = (PActivating, TActivationSucceeded, PActive)"
| "endpoints EActivationFailed = (PActivating, TActivationFailed, PInactive)"
| "endpoints EBeginDrain = (PActive, TBeginDrain, PDraining)"
| "endpoints EFenceAcknowledged = (PDraining, TFenceAcknowledged, PRetiring)"
| "endpoints EForceDrain = (PDraining, TForceDrain, PRetiring)"
| "endpoints ETerminated = (PRetiring, TTerminated, PInactive)"

definition edge_transition :: "LifecycleEdge \<Rightarrow> Transition" where
  "edge_transition edge =
     (case endpoints edge of (from, trig, to) \<Rightarrow>
        \<lparr>t_from = phase_id from, t_trigger = trigger_id trig, t_to = phase_id to,
         t_label = trigger_label trig\<rparr>)"

definition lifecycle_vertices :: "Vertex list" where
  "lifecycle_vertices =
     [\<lparr>v_id = phase_id PInactive, v_label = ''inactive''\<rparr>,
      \<lparr>v_id = phase_id PActivating, v_label = ''activating''\<rparr>,
      \<lparr>v_id = phase_id PActive, v_label = ''active''\<rparr>,
      \<lparr>v_id = phase_id PDraining, v_label = ''draining''\<rparr>,
      \<lparr>v_id = phase_id PRetiring, v_label = ''retiring''\<rparr>]"

definition lifecycle_transitions :: "Transition list" where
  "lifecycle_transitions =
     [edge_transition EClaimActivation, edge_transition EActivationSucceeded,
      edge_transition EActivationFailed, edge_transition EBeginDrain,
      edge_transition EFenceAcknowledged, edge_transition EForceDrain,
      edge_transition ETerminated]"

definition lifecycle_topology :: Topology where
  "lifecycle_topology =
     \<lparr>tp_name = ''entity_lifecycle'', tp_initial = phase_id PInactive,
      tp_vertices = lifecycle_vertices, tp_transitions = lifecycle_transitions\<rparr>"

definition is_declared :: "LifecycleEdge \<Rightarrow> bool" where
  "is_declared edge = (edge_transition edge \<in> set (tp_transitions lifecycle_topology))"

subsection \<open>Lifecycle-specific validation\<close>

datatype LifecycleTopologyError =
    Structural TopologyError
  | Missing LifecycleEdge
  | ReopensAdmission

fun require_edges :: "Topology \<Rightarrow> LifecycleEdge list \<Rightarrow> LifecycleTopologyError + unit" where
  "require_edges t [] = Inr ()"
| "require_edges t (required # rest) =
     (if edge_transition required \<notin> set (tp_transitions t) then Inl (Missing required)
      else require_edges t rest)"

definition reopens :: "Transition \<Rightarrow> bool" where
  "reopens e =
     (let from_closes = t_from e = phase_id PDraining \<or> t_from e = phase_id PRetiring;
          to_admission = t_to e = phase_id PActivating \<or> t_to e = phase_id PActive
      in from_closes \<and> to_admission)"

definition validate_lifecycle_topology :: "Topology \<Rightarrow> LifecycleTopologyError + unit" where
  "validate_lifecycle_topology t =
     (case validate t of
        Inl e \<Rightarrow> Inl (Structural e)
      | Inr _ \<Rightarrow>
          and_then (require_edges t all_edges) (\<lambda>_.
            if list_ex reopens (tp_transitions t) then Inl ReopensAdmission else Inr ()))"

subsection \<open>The machine\<close>

datatype TransitionEvidence =
    Traversed LifecycleEdge
  | SelfLoop LifecyclePhase LifecycleTrigger
  | Ignored LifecyclePhase LifecycleTrigger

record ('c, 'e, 'l) LifecycleOutput =
  out_effects :: "('c, 'e, 'l) SlotEffectBatch"
  out_evidence :: TransitionEvidence
  out_activation_id :: "ActivationId option"

definition transition ::
  "('c, 'e, 'l) EntitySlot \<Rightarrow> ('c, 'e, 'l) SlotEvent \<Rightarrow>
     panic + ('c, 'e, 'l) LifecycleOutput \<times> ('c, 'e, 'l) EntitySlot" where
  "transition st ev =
     (let from = phase st; trig = trigger ev; handled = handles st ev in
      and_then (reduce st ev) (\<lambda>d.
        let to = phase (dec_state d) in
        and_then
          (if from = to then
             Inr (if handled then SelfLoop from trig else Ignored from trig)
           else
             and_then
               (expect (find (\<lambda>edge. endpoints edge = (from, trig, to)) all_edges)
                  ''every executable phase change must be declared'')
               (\<lambda>edge. Inr (Traversed edge)))
          (\<lambda>evidence.
             Inr (\<lparr>out_effects = dec_effects d, out_evidence = evidence,
                   out_activation_id = slot_activation_id (dec_state d)\<rparr>, dec_state d))))"

type_synonym ('c, 'e, 'l) TransitionFn =
  "('c, 'e, 'l) EntitySlot \<Rightarrow> ('c, 'e, 'l) SlotEvent \<Rightarrow>
     panic + ('c, 'e, 'l) LifecycleOutput \<times> ('c, 'e, 'l) EntitySlot"

type_synonym ('c, 'e, 'l) LifecycleMachine =
  "(('c, 'e, 'l) EntitySlot, ('c, 'e, 'l) TransitionFn) Base"

definition lifecycle_machine :: "panic + ('c, 'e, 'l) LifecycleMachine" where
  "lifecycle_machine =
     (case validated lifecycle_topology of
        Inl _ \<Rightarrow> Inl (Panic ''lifecycle topology is valid'')
      | Inr topology \<Rightarrow> Inr (base_new Inactive topology transition))"

definition lifecycle_step ::
  "('c, 'e, 'l) LifecycleMachine \<Rightarrow> ('c, 'e, 'l) SlotEvent \<Rightarrow>
     panic + ('c, 'e, 'l) LifecycleOutput \<times> ('c, 'e, 'l) LifecycleMachine" where
  "lifecycle_step = base_step call_fn"

subsection \<open>The declared topology\<close>

lemma lifecycle_topology_simps [simp]:
  "tp_initial lifecycle_topology = phase_id PInactive"
  "tp_vertices lifecycle_topology = lifecycle_vertices"
  "tp_transitions lifecycle_topology = lifecycle_transitions"
  by (simp_all add: lifecycle_topology_def)

lemma phase_id_eq [simp]: "phase_id p = phase_id q \<longleftrightarrow> p = q"
  by (cases p; cases q) auto

lemma trigger_id_eq [simp]: "trigger_id p = trigger_id q \<longleftrightarrow> p = q"
  by (cases p; cases q) auto

lemma all_edges_complete: "edge \<in> set all_edges"
  by (cases edge) (auto simp: all_edges_def)

lemma lifecycle_transitions_map: "lifecycle_transitions = map edge_transition all_edges"
  by (simp add: lifecycle_transitions_def all_edges_def)

lemma edge_is_declared: "is_declared edge"
  by (simp add: is_declared_def lifecycle_topology_def lifecycle_transitions_map all_edges_complete)

lemma phase_reachable:
  "phase_id p \<in> (edge_rel lifecycle_transitions)\<^sup>* `` {phase_id PInactive}"
proof -
  have e: "(phase_id (fst (endpoints edge)), phase_id (snd (snd (endpoints edge))))
      \<in> edge_rel lifecycle_transitions" for edge
    using all_edges_complete [of edge]
    by (force simp: edge_rel_def lifecycle_transitions_map edge_transition_def split: prod.splits)
  have "(phase_id PInactive, phase_id PActivating) \<in> (edge_rel lifecycle_transitions)\<^sup>*"
    using e [of EClaimActivation] by auto
  moreover from this have "(phase_id PInactive, phase_id PActive) \<in> (edge_rel lifecycle_transitions)\<^sup>*"
    using e [of EActivationSucceeded] by (auto intro: rtrancl.rtrancl_into_rtrancl)
  moreover from this have "(phase_id PInactive, phase_id PDraining) \<in> (edge_rel lifecycle_transitions)\<^sup>*"
    using e [of EBeginDrain] by (auto intro: rtrancl.rtrancl_into_rtrancl)
  moreover from this have "(phase_id PInactive, phase_id PRetiring) \<in> (edge_rel lifecycle_transitions)\<^sup>*"
    using e [of EForceDrain] by (auto intro: rtrancl.rtrancl_into_rtrancl)
  ultimately show ?thesis by (cases p) auto
qed

lemma phase_UNIV: "(UNIV :: LifecyclePhase set) = {PInactive, PActivating, PActive, PDraining, PRetiring}"
  by (auto intro: LifecyclePhase.exhaust)

lemma lifecycle_vertex_ids: "vertex_ids lifecycle_topology = range phase_id"
  unfolding phase_UNIV by (auto simp: vertex_ids_def lifecycle_topology_def lifecycle_vertices_def)

lemma lifecycle_edges_ok: "edges_ok lifecycle_topology lifecycle_transitions"
proof -
  have "distinct (map edge_key lifecycle_transitions)"
    by (simp add: lifecycle_transitions_def edge_key_def edge_transition_def)
  moreover have "t_from e \<in> range phase_id \<and> t_to e \<in> range phase_id"
    if "e \<in> set lifecycle_transitions" for e
    using that by (auto simp: lifecycle_transitions_map edge_transition_def split: prod.splits)
  ultimately show ?thesis by (simp add: edges_ok_def lifecycle_vertex_ids)
qed

lemma lifecycle_well_formed: "well_formed lifecycle_topology"
proof -
  have "distinct (map v_id lifecycle_vertices)"
    by (simp add: lifecycle_vertices_def)
  with lifecycle_edges_ok phase_reachable show ?thesis
    by (auto simp: well_formed_def lifecycle_vertex_ids edges_ok_def simp del: phase_id.simps)
qed

lemma lifecycle_machine_eq:
  "lifecycle_machine = Inr (base_new Inactive (ValidatedTopology lifecycle_topology) transition)"
  using validated_Inr [of lifecycle_topology "ValidatedTopology lifecycle_topology"]
  by (simp add: lifecycle_machine_def lifecycle_well_formed)

subsection \<open>What lifecycle validation accepts\<close>

lemma require_edges_Inr:
  "require_edges t es = Inr () \<longleftrightarrow> edge_transition ` set es \<subseteq> set (tp_transitions t)"
  by (induction es) auto

lemma require_edges_Inl:
  "require_edges t es = Inl err \<longleftrightarrow>
     (\<exists>pre e post. es = pre @ e # post \<and>
        (edge_transition ` set pre \<subseteq> set (tp_transitions t) \<and>
         edge_transition e \<notin> set (tp_transitions t) \<and> err = Missing e))"
proof (induction es)
  case (Cons x xs)
  then show ?case by (subst first_in_list) auto
qed simp

lemma validate_lifecycle_Inr:
  "validate_lifecycle_topology t = Inr () \<longleftrightarrow>
     well_formed t \<and> range edge_transition \<subseteq> set (tp_transitions t) \<and>
     (\<forall>e\<in>set (tp_transitions t). \<not> reopens e)"
proof -
  have "set all_edges = UNIV" using all_edges_complete by auto
  then show ?thesis
    using validate_Inr [of t]
    by (auto simp: validate_lifecycle_topology_def require_edges_Inr list_ex_iff split: sum.splits)
qed

lemma lifecycle_no_reopening: "e \<in> set lifecycle_transitions \<Longrightarrow> \<not> reopens e"
  by (auto simp: lifecycle_transitions_def reopens_def edge_transition_def)

lemma lifecycle_topology_valid: "validate_lifecycle_topology lifecycle_topology = Inr ()"
  using lifecycle_no_reopening
  by (auto simp: validate_lifecycle_Inr lifecycle_well_formed)
    (auto simp: lifecycle_transitions_map all_edges_complete)

subsection \<open>Every phase change is a declared edge\<close>

lemma endpoints_inj: "endpoints e = endpoints f \<Longrightarrow> e = f"
  by (cases e; cases f) auto

lemma endpoints_change: "endpoints e = (p, tr, q) \<Longrightarrow> p \<noteq> q"
  by (cases e) auto

lemma find_endpoints: "endpoints e = x \<Longrightarrow> find (\<lambda>f. endpoints f = x) all_edges = Some e"
  by (cases e) (auto simp: all_edges_def)

lemma reduce_phase_change:
  "reduce st ev = Inr d \<Longrightarrow> phase (dec_state d) \<noteq> phase st \<Longrightarrow>
     \<exists>edge. endpoints edge = (phase st, trigger ev, phase (dec_state d))"
proof -
  have ends:
    "\<exists>edge. endpoints edge = (PInactive, TClaimActivation, PActivating)"
    "\<exists>edge. endpoints edge = (PActivating, TActivationSucceeded, PActive)"
    "\<exists>edge. endpoints edge = (PActivating, TActivationFailed, PInactive)"
    "\<exists>edge. endpoints edge = (PActive, TBeginDrain, PDraining)"
    "\<exists>edge. endpoints edge = (PDraining, TFenceAcknowledged, PRetiring)"
    "\<exists>edge. endpoints edge = (PDraining, TForceDrain, PRetiring)"
    "\<exists>edge. endpoints edge = (PRetiring, TTerminated, PInactive)" by (blast intro: endpoints.simps)+
  assume "reduce st ev = Inr d" and "phase (dec_state d) \<noteq> phase st"
  then show ?thesis
    by (cases st; cases ev)
      (auto simp: decision_defs intro: ends split: option.splits prod.splits Ordering.splits
        DrainProgress.splits ReservationCount.splits ReservationResolution.splits if_splits)
qed

fun evidence_exact ::
  "('c, 'e, 'l) EntitySlot \<Rightarrow> ('c, 'e, 'l) SlotEvent \<Rightarrow> ('c, 'e, 'l) EntitySlot \<Rightarrow>
     TransitionEvidence \<Rightarrow> bool" where
  "evidence_exact st ev st' (Traversed edge) \<longleftrightarrow>
     endpoints edge = (phase st, trigger ev, phase st')"
| "evidence_exact st ev st' (SelfLoop p tr) \<longleftrightarrow>
     p = phase st \<and> tr = trigger ev \<and> phase st' = phase st \<and> handles st ev"
| "evidence_exact st ev st' (Ignored p tr) \<longleftrightarrow>
     p = phase st \<and> tr = trigger ev \<and> st' = st \<and> \<not> handles st ev"

lemma reduce_ignored:
  "reduce st ev = Inr d \<Longrightarrow> \<not> handles st ev \<Longrightarrow> phase (dec_state d) = phase st \<Longrightarrow> dec_state d = st"
proof (cases "st = Inactive \<and> trigger ev = TClaimActivation")
  case True
  moreover assume "reduce st ev = Inr d" and "phase (dec_state d) = phase st"
  ultimately show ?thesis by (cases ev) (auto simp: decision_defs)
next
  case False
  moreover assume "reduce st ev = Inr d" and "\<not> handles st ev"
  ultimately show ?thesis using unhandled_reduce [of st ev] by auto
qed

lemma transition_Inr:
  "transition st ev = Inr (out, st') \<longleftrightarrow>
     (\<exists>d. reduce st ev = Inr d \<and> st' = dec_state d \<and> out_effects out = dec_effects d \<and>
        out_activation_id out = slot_activation_id st' \<and>
        evidence_exact st ev st' (out_evidence out))"
proof (cases "reduce st ev")
  case (Inr d)
  show ?thesis
  proof (cases "phase (dec_state d) = phase st")
    case True
    then show ?thesis
      using Inr reduce_ignored [OF Inr]
      by (cases "out_evidence out")
        (auto simp: transition_def Let_def intro!: LifecycleOutput.equality dest: endpoints_change)
  next
    case False
    then obtain edge where edge: "endpoints edge = (phase st, trigger ev, phase (dec_state d))"
      using reduce_phase_change [OF Inr] by auto
    with False Inr find_endpoints [OF edge] show ?thesis
      by (cases "out_evidence out")
        (auto simp: transition_def Let_def intro!: LifecycleOutput.equality endpoints_inj)
  qed
qed (simp add: transition_def Let_def)

lemma transition_Inl: "transition st ev = Inl p \<longleftrightarrow> reduce st ev = Inl p"
proof (cases "reduce st ev")
  case (Inr d)
  then have "\<exists>out st'. transition st ev = Inr (out, st')"
  proof (cases "phase (dec_state d) = phase st")
    case False
    then obtain edge where edge: "endpoints edge = (phase st, trigger ev, phase (dec_state d))"
      using reduce_phase_change [OF Inr] by auto
    with False Inr find_endpoints [OF edge] show ?thesis
      by (auto simp: transition_def Let_def)
  qed (simp add: transition_def Let_def)
  with Inr show ?thesis by auto
qed (simp add: transition_def Let_def)

text \<open>Every step of the lifecycle machine keeps its slot within its waiter bound.\<close>

lemma lifecycle_step_Inr:
  "lifecycle_step m ev = Inr (out, m') \<longleftrightarrow>
     (\<exists>st'. base_transition m (base_state m) ev = Inr (out, st') \<and>
        m' = m\<lparr>base_state := st'\<rparr>)"
  by (auto simp: lifecycle_step_def base_step_def call_fn_def)

interpretation lifecycle:
  machine_invariant lifecycle_step
    "\<lambda>m. base_transition m = transition \<and> slot_wf (base_state m)"
proof (unfold_locales, goal_cases)
  case (1 m ev out m')
  then show ?case using reduce_wf by (auto simp: lifecycle_step_Inr transition_Inr)
qed

lemma reduce_transition:
  "reduce st ev = Inr d \<Longrightarrow>
     \<exists>out. transition st ev = Inr (out, dec_state d) \<and> out_effects out = dec_effects d"
proof -
  assume d: "reduce st ev = Inr d"
  then obtain r where "transition st ev = Inr r" using transition_Inl [of st ev]
    by (cases "transition st ev") auto
  with d show ?thesis by (cases r) (auto simp: transition_Inr)
qed

lemma run_decides:
  "base_transition m = transition \<Longrightarrow>
     (\<exists>d. decide_all (base_state m) evs = Inr d \<and> dec_state d = st \<and> as_slice (dec_effects d) = effects) \<longleftrightarrow>
     (\<exists>outs m'. run_machine lifecycle_step m evs = Inr (outs, m') \<and> base_state m' = st \<and>
        concat (map (as_slice \<circ> out_effects) outs) = effects)"
proof (induction evs arbitrary: m effects)
  case (Cons ev evs)
  show ?case
  proof (cases "reduce (base_state m) ev")
    case (Inl p)
    then have "transition (base_state m) ev = Inl p" by (simp add: transition_Inl)
    then show ?thesis using Inl Cons.prems by (simp add: decide_all_Cons lifecycle_step_Inr)
  next
    case (Inr d)
    then obtain out where out: "transition (base_state m) ev = Inr (out, dec_state d)"
      "out_effects out = dec_effects d" using reduce_transition by blast
    let ?m = "m\<lparr>base_state := dec_state d\<rparr>"
    have "base_transition ?m = transition" using Cons.prems by simp
    note IH = Cons.IH [OF this]
    have step: "lifecycle_step m ev = Inr (out, ?m)" using out(1) Cons.prems by (simp add: lifecycle_step_Inr)
    have "(\<exists>d'. decide_all (base_state m) (ev # evs) = Inr d' \<and> dec_state d' = st \<and>
           as_slice (dec_effects d') = effects) \<longleftrightarrow>
        (\<exists>rest d'. decide_all (base_state ?m) evs = Inr d' \<and> dec_state d' = st \<and>
           as_slice (dec_effects d') = rest \<and> as_slice (dec_effects d) @ rest = effects)"
      using Inr by (simp add: decide_all_Cons) fastforce
    also have "\<dots> \<longleftrightarrow> (\<exists>rest. (\<exists>d'. decide_all (base_state ?m) evs = Inr d' \<and> dec_state d' = st \<and>
           as_slice (dec_effects d') = rest) \<and> as_slice (dec_effects d) @ rest = effects)"
      by blast
    also have "\<dots> \<longleftrightarrow> (\<exists>rest. (\<exists>outs m'. run_machine lifecycle_step ?m evs = Inr (outs, m') \<and>
           base_state m' = st \<and> concat (map (as_slice \<circ> out_effects) outs) = rest) \<and>
           as_slice (dec_effects d) @ rest = effects)"
      by (simp only: IH)
    also have "\<dots> \<longleftrightarrow> (\<exists>outs m'. run_machine lifecycle_step m (ev # evs) = Inr (outs, m') \<and>
           base_state m' = st \<and> concat (map (as_slice \<circ> out_effects) outs) = effects)"
      using step out(2) by (fastforce simp: run_machine_Cons_Inr simp del: run_machine.simps)
    finally show ?thesis .
  qed
qed auto

subsection \<open>Properties\<close>

text \<open>
  C20: Each machine step is the reducer's step with exact evidence: \<open>transition\<close> returns precisely
  when the reducer does (so no phase change is undeclared), with its state and effects;
  \<open>Traversed\<close> names the declared edge whose source, trigger and destination are those of the
  step, \<open>SelfLoop\<close> a handled event that kept the phase, \<open>Ignored\<close> an unhandled event that left
  the whole state as it was.
\<close>

theorem transition_evidence_exact:
  "(transition st ev = Inr (out, st') \<longleftrightarrow>
      (\<exists>d. reduce st ev = Inr d \<and> st' = dec_state d \<and> out_effects out = dec_effects d \<and>
         out_activation_id out = slot_activation_id st' \<and>
         evidence_exact st ev st' (out_evidence out))) \<and>
   (transition st ev = Inl p \<longleftrightarrow> reduce st ev = Inl p)"
  by (simp add: transition_Inr transition_Inl)

text \<open>
  The declared lifecycle topology passes the generic and the lifecycle-specific validation
  (so constructing the machine never panics), declares every edge, and renders as the documented
  Mermaid diagram.
\<close>

theorem lifecycle_topology_valid_and_rendered:
  "validate_lifecycle_topology lifecycle_topology = Inr () \<and>
   lifecycle_machine = Inr (base_new Inactive (ValidatedTopology lifecycle_topology) transition) \<and>
   is_declared edge \<and>
   write_mermaid lifecycle_topology string_write [] =
     (Inr (), concat (map (\<lambda>line. line @ newline)
        [''stateDiagram-v2'',
         ''    [*] --> inactive'',
         ''    inactive --> activating: claim_activation'',
         ''    activating --> active: activation_succeeded'',
         ''    activating --> inactive: activation_failed'',
         ''    active --> draining: begin_drain'',
         ''    draining --> retiring: fence_acknowledged'',
         ''    draining --> retiring: force_drain'',
         ''    retiring --> inactive: terminated'']))"
proof -
  have "mermaid_text lifecycle_topology =
     concat (map (\<lambda>line. line @ newline)
        [''stateDiagram-v2'',
         ''    [*] --> inactive'',
         ''    inactive --> activating: claim_activation'',
         ''    activating --> active: activation_succeeded'',
         ''    activating --> inactive: activation_failed'',
         ''    active --> draining: begin_drain'',
         ''    draining --> retiring: fence_acknowledged'',
         ''    draining --> retiring: force_drain'',
         ''    retiring --> inactive: terminated''])"
    by (simp add: mermaid_text_def name_of_def label_def edge_line_def edge_transition_def
        lifecycle_vertices_def lifecycle_transitions_def)
  then show ?thesis
    using write_mermaid_ok [OF well_formed_references [OF lifecycle_well_formed], of "[]"]
    by (simp add: lifecycle_topology_valid lifecycle_machine_eq edge_is_declared)
qed

text \<open>
  The contract of the lifecycle, written out: vertices 0 to 4 are inactive, activating, active,
  draining and retiring; every required edge with its source, trigger, target and label, in the order
  they are required.
\<close>

definition lifecycle_contract :: "(LifecycleEdge \<times> Transition) list" where
  "lifecycle_contract =
     [(EClaimActivation,
        \<lparr>t_from = VertexId 0, t_trigger = TriggerId 0, t_to = VertexId 1, t_label = ''claim_activation''\<rparr>),
      (EActivationSucceeded,
        \<lparr>t_from = VertexId 1, t_trigger = TriggerId 3, t_to = VertexId 2, t_label = ''activation_succeeded''\<rparr>),
      (EActivationFailed,
        \<lparr>t_from = VertexId 1, t_trigger = TriggerId 4, t_to = VertexId 0, t_label = ''activation_failed''\<rparr>),
      (EBeginDrain,
        \<lparr>t_from = VertexId 2, t_trigger = TriggerId 6, t_to = VertexId 3, t_label = ''begin_drain''\<rparr>),
      (EFenceAcknowledged,
        \<lparr>t_from = VertexId 3, t_trigger = TriggerId 7, t_to = VertexId 4, t_label = ''fence_acknowledged''\<rparr>),
      (EForceDrain,
        \<lparr>t_from = VertexId 3, t_trigger = TriggerId 8, t_to = VertexId 4, t_label = ''force_drain''\<rparr>),
      (ETerminated,
        \<lparr>t_from = VertexId 4, t_trigger = TriggerId 9, t_to = VertexId 0, t_label = ''terminated''\<rparr>)]"

lemma lifecycle_contract_edges: "lifecycle_contract = map (\<lambda>e. (e, edge_transition e)) all_edges"
  by (simp add: lifecycle_contract_def all_edges_def edge_transition_def)

lemma reopens_iff: "reopens e \<longleftrightarrow> t_from e \<in> {VertexId 3, VertexId 4} \<and> t_to e \<in> {VertexId 1, VertexId 2}"
  by (auto simp: reopens_def)

text \<open>
  C29: Lifecycle validation accepts exactly the well-formed topologies that contain all seven edges of
  the lifecycle contract and no edge from draining or retiring to activating or active, whatever its
  trigger and label; a missing edge is reported as the first missing one of the contract, a reopening
  edge only when nothing is missing, and a structural defect before either.
\<close>

theorem lifecycle_validation_exact:
  "(validate_lifecycle_topology t = Inr () \<longleftrightarrow>
      well_formed t \<and> snd ` set lifecycle_contract \<subseteq> set (tp_transitions t) \<and>
      \<not> (\<exists>e\<in>set (tp_transitions t).
         t_from e \<in> {VertexId 3, VertexId 4} \<and> t_to e \<in> {VertexId 1, VertexId 2})) \<and>
   (validate_lifecycle_topology t = Inl ReopensAdmission \<longleftrightarrow>
      well_formed t \<and> snd ` set lifecycle_contract \<subseteq> set (tp_transitions t) \<and>
      (\<exists>e\<in>set (tp_transitions t).
         t_from e \<in> {VertexId 3, VertexId 4} \<and> t_to e \<in> {VertexId 1, VertexId 2})) \<and>
   (validate_lifecycle_topology t = Inl (Missing edge) \<longleftrightarrow>
      well_formed t \<and> (\<exists>pre required post. lifecycle_contract = pre @ (edge, required) # post \<and>
        snd ` set pre \<subseteq> set (tp_transitions t) \<and> required \<notin> set (tp_transitions t))) \<and>
   (validate_lifecycle_topology t = Inl (Structural err) \<longleftrightarrow> first_defect t err)"
proof -
  have contract: "edge_transition ` set all_edges = snd ` set lifecycle_contract"
    by (simp add: lifecycle_contract_edges image_image)
  have split: "(\<exists>pre post. all_edges = pre @ edge # post \<and> P (edge_transition ` set pre) (edge_transition edge)) \<longleftrightarrow>
      (\<exists>pre required post. lifecycle_contract = pre @ (edge, required) # post \<and> P (snd ` set pre) required)" for P
    unfolding lifecycle_contract_edges by (fastforce simp: map_eq_append_conv image_image)
  have missing: "require_edges t all_edges = Inl x \<longleftrightarrow>
      (\<exists>pre e post. all_edges = pre @ e # post \<and>
        (edge_transition ` set pre \<subseteq> set (tp_transitions t) \<and>
         edge_transition e \<notin> set (tp_transitions t) \<and> x = Missing e))" for x
    by (rule require_edges_Inl)
  note first = split [of "\<lambda>known required. known \<subseteq> set (tp_transitions t) \<and> required \<notin> set (tp_transitions t)"]
  show ?thesis
    using validate_Inr [of t] validate_Inl [of t err] require_edges_Inr [of t all_edges]
    unfolding contract [symmetric] first [symmetric]
    by (auto simp: validate_lifecycle_topology_def and_then_Inl missing list_ex_iff reopens_iff split: sum.splits)
qed

text \<open>
  The machine the directory hosts is the reducer: a run of the freshly constructed lifecycle
  machine on a stream of events returns exactly when \<open>decide_all\<close> does, its state is the decided
  state, the effects of its outputs concatenate to the decided effects, and its slot never holds
  more waiters than its limit.
\<close>

theorem lifecycle_run_refines_decide_all:
  "\<exists>m. lifecycle_machine = Inr m \<and>
     ((\<exists>d. decide_all Inactive evs = Inr d \<and> dec_state d = st \<and> as_slice (dec_effects d) = effects) \<longleftrightarrow>
      (\<exists>outs m'. run_machine lifecycle_step m evs = Inr (outs, m') \<and> base_state m' = st \<and>
         concat (map (as_slice \<circ> out_effects) outs) = effects \<and> slot_wf st))"
proof (intro exI conjI, rule lifecycle_machine_eq)
  let ?m = "base_new Inactive (ValidatedTopology lifecycle_topology) transition ::
    ('a, 'b, 'c) LifecycleMachine"
  have new: "base_transition ?m = transition" "base_state ?m = Inactive" by (simp_all add: base_new_def)
  have "run_machine lifecycle_step ?m evs = Inr (outs, m') \<Longrightarrow> slot_wf (base_state m')" for outs m'
    using lifecycle.run_inv [of ?m evs outs m'] new by simp
  then show "(\<exists>d. decide_all Inactive evs = Inr d \<and> dec_state d = st \<and> as_slice (dec_effects d) = effects) \<longleftrightarrow>
      (\<exists>outs m'. run_machine lifecycle_step ?m evs = Inr (outs, m') \<and> base_state m' = st \<and>
         concat (map (as_slice \<circ> out_effects) outs) = effects \<and> slot_wf st)"
    using run_decides [OF new(1), of evs st effects] new(2) by auto
qed

end
