(* ===== verification/Concurrency.thy ===== *)
theory Concurrency
  imports Machine
begin

section \<open>Locks, interleavings and hosted machines\<close>

text \<open>
  What the three executors, the directory and the runtime share: a \<open>std::sync::Mutex\<close> with its
  poison flag, schedules of a labelled step relation with invariants over the trace so far, and
  the interface of an object that hosts one machine and feeds it inputs.
\<close>

subsection \<open>A mutex\<close>

text \<open>
  A critical section is one atomic step.  \<open>lock\<close> is \<open>lock().expect(message)\<close>: it panics when an
  earlier section unwound while it held the lock.  \<open>lock_or_inner\<close> is
  \<open>lock().unwrap_or_else(PoisonError::into_inner)\<close>.
\<close>

record 'a Mutex =
  guarded :: 'a
  lock_poisoned :: bool

definition mutex_new :: "'a \<Rightarrow> 'a Mutex" where
  "mutex_new x = \<lparr>guarded = x, lock_poisoned = False\<rparr>"

definition lock :: "'a Mutex \<Rightarrow> string \<Rightarrow> panic + 'a" where
  "lock mx msg = (if lock_poisoned mx then Inl (Panic msg) else Inr (guarded mx))"

definition lock_or_inner :: "'a Mutex \<Rightarrow> 'a" where
  "lock_or_inner mx = guarded mx"

definition unlock :: "'a Mutex \<Rightarrow> 'a \<Rightarrow> 'a Mutex" where
  "unlock mx x = mx\<lparr>guarded := x\<rparr>"

text \<open>The guard is dropped while its section unwinds: what it wrote stays, and the lock is poisoned.\<close>

definition unwind :: "'a Mutex \<Rightarrow> 'a \<Rightarrow> 'a Mutex" where
  "unwind mx x = \<lparr>guarded = x, lock_poisoned = True\<rparr>"

lemma mutex_simps [simp]:
  "guarded (mutex_new x) = x" "\<not> lock_poisoned (mutex_new x)"
  "guarded (unlock mx x) = x" "lock_poisoned (unlock mx x) = lock_poisoned mx"
  "guarded (unwind mx x) = x" "lock_poisoned (unwind mx x)"
  "lock_or_inner mx = guarded mx"
  by (simp_all add: mutex_new_def unlock_def unwind_def lock_or_inner_def)

lemma lock_Inr [simp]: "lock mx msg = Inr x \<longleftrightarrow> \<not> lock_poisoned mx \<and> x = guarded mx"
  by (auto simp: lock_def)

lemma lock_Inl [simp]: "lock mx msg = Inl p \<longleftrightarrow> lock_poisoned mx \<and> p = Panic msg"
  by (auto simp: lock_def)

subsection \<open>Schedules of a labelled step relation\<close>

inductive schedule :: "('s \<Rightarrow> 'l \<Rightarrow> 's \<Rightarrow> bool) \<Rightarrow> 's \<Rightarrow> 'l list \<Rightarrow> 's \<Rightarrow> bool"
  for step :: "'s \<Rightarrow> 'l \<Rightarrow> 's \<Rightarrow> bool" where
  schedule_start: "schedule step s [] s"
| schedule_step: "schedule step s tr s' \<Longrightarrow> step s' l s'' \<Longrightarrow> schedule step s (tr @ [l]) s''"

inductive_cases schedule_snocE: "schedule step s (tr @ [l]) s''"

lemma schedule_Nil [simp]: "schedule step s [] s' \<longleftrightarrow> s' = s"
  by (auto elim: schedule.cases intro: schedule_start)

lemma schedule_snoc [simp]:
  "schedule step s (tr @ [l]) s'' \<longleftrightarrow> (\<exists>s'. schedule step s tr s' \<and> step s' l s'')"
  by (auto elim: schedule_snocE intro: schedule_step)

lemma schedule_append:
  "schedule step s (xs @ ys) s'' \<longleftrightarrow> (\<exists>s'. schedule step s xs s' \<and> schedule step s' ys s'')"
proof (induction ys arbitrary: s'' rule: rev_induct)
  case (snoc y ys)
  then show ?case by (metis append_assoc schedule_snoc)
qed simp

lemma schedule_Cons [simp]:
  "schedule step s (l # tr) s'' \<longleftrightarrow> (\<exists>s'. step s l s' \<and> schedule step s' tr s'')"
  using schedule_append [of step s "[l]" tr s''] schedule_snoc [of step s "[]" l] by simp

text \<open>An invariant over the labels so far and the state reached.\<close>

locale trace_invariant =
  fixes step :: "'s \<Rightarrow> 'l \<Rightarrow> 's \<Rightarrow> bool"
    and start :: "'s"
    and inv :: "'l list \<Rightarrow> 's \<Rightarrow> bool"
  assumes inv_start: "inv [] start"
    and inv_step: "inv tr s \<Longrightarrow> step s l s' \<Longrightarrow> inv (tr @ [l]) s'"
begin

lemma inv_schedule: "schedule step start tr s \<Longrightarrow> inv tr s"
  by (induction tr arbitrary: s rule: rev_induct) (auto intro: inv_start inv_step)

end

subsection \<open>Hosted machines\<close>

text \<open>
  An executor hosts one machine until a transition unwinds.  \<open>hosted\<close> is the machine another
  input would meet, \<open>feed\<close> one turn; \<open>feed_all\<close> feeds a list and \<open>results\<close> reads the answers.
\<close>

fun feed_all :: "('x \<Rightarrow> 'i \<Rightarrow> 'r \<times> 'x) \<Rightarrow> 'x \<Rightarrow> 'i list \<Rightarrow> 'r list \<times> 'x" where
  "feed_all feed x [] = ([], x)"
| "feed_all feed x (i # is) =
     (let (r, x') = feed x i; (rs, x'') = feed_all feed x' is in (r # rs, x''))"

locale hosted_machine =
  fixes step :: "'m \<Rightarrow> 'i \<Rightarrow> panic + 'o \<times> 'm"
    and hosted :: "'x \<Rightarrow> 'm option"
    and feed :: "'x \<Rightarrow> 'i \<Rightarrow> 'r \<times> 'x"
    and answer :: "'o \<Rightarrow> 'r"
    and failed :: "panic \<Rightarrow> 'r"
    and refused :: "'i \<Rightarrow> 'r"
  assumes feed_turn:
      "hosted x = Some m \<Longrightarrow> step m i = Inr (out, m') \<Longrightarrow> feed x i = (r, x') \<Longrightarrow>
        hosted x' = Some m' \<and> r = answer out"
    and feed_panic:
      "hosted x = Some m \<Longrightarrow> step m i = Inl p \<Longrightarrow> feed x i = (r, x') \<Longrightarrow>
        hosted x' = None \<and> r = failed p"
    and feed_refused:
      "hosted x = None \<Longrightarrow> feed x i = (r, x') \<Longrightarrow> hosted x' = None \<and> r = refused i"
begin

lemma feed_all_refused:
  "hosted x = None \<Longrightarrow> feed_all feed x is = (rs, x') \<Longrightarrow>
     hosted x' = None \<and> rs = map refused is"
  by (induction "is" arbitrary: x rs) (auto split: prod.splits dest: feed_refused)

text \<open>
  Feeding a list is a run of the machine up to the first input whose transition panics; that
  input fails, and every later one is refused.
\<close>

lemma feed_all_run:
  assumes "hosted x = Some m" and "feed_all feed x is = (rs, x')"
  shows "(\<exists>outs m'. run_machine step m is = Inr (outs, m') \<and> rs = map answer outs \<and>
            hosted x' = Some m') \<or>
         (\<exists>pre i post outs m' p. is = pre @ i # post \<and> run_machine step m pre = Inr (outs, m') \<and>
            step m' i = Inl p \<and> rs = map answer outs @ failed p # map refused post \<and>
            hosted x' = None)"
  using assms
proof (induction "is" arbitrary: x m rs)
  case (Cons i "is")
  obtain r x1 rs1 where fed: "feed x i = (r, x1)" "feed_all feed x1 is = (rs1, x')" "rs = r # rs1"
    using Cons.prems(2) by (auto split: prod.splits)
  show ?case
  proof (cases "step m i")
    case (Inl p)
    then have "hosted x1 = None" "r = failed p"
      using feed_panic [OF Cons.prems(1) Inl fed(1)] by auto
    then have "i # is = [] @ i # is \<and> run_machine step m [] = Inr ([], m) \<and> step m i = Inl p \<and>
        rs = map answer [] @ failed p # map refused is \<and> hosted x' = None"
      using feed_all_refused [OF _ fed(2)] fed(3) Inl by simp
    then show ?thesis by blast
  next
    case (Inr om)
    then obtain out m1 where turn: "step m i = Inr (out, m1)" by (cases om) auto
    then have x1: "hosted x1 = Some m1" "r = answer out"
      using feed_turn [OF Cons.prems(1) turn fed(1)] by auto
    from Cons.IH [OF x1(1) fed(2)] show ?thesis
    proof (elim disjE exE conjE)
      fix outs m'
      assume "run_machine step m1 is = Inr (outs, m')" "rs1 = map answer outs" "hosted x' = Some m'"
      then show ?thesis using turn x1 fed(3) by (intro disjI1) (auto intro!: exI [of _ "out # outs"])
    next
      fix pre j post outs m' p
      assume "is = pre @ j # post" "run_machine step m1 pre = Inr (outs, m')" "step m' j = Inl p"
        "rs1 = map answer outs @ failed p # map refused post" "hosted x' = None"
      then have "i # is = (i # pre) @ j # post \<and> run_machine step m (i # pre) = Inr (out # outs, m') \<and>
          step m' j = Inl p \<and> rs = map answer (out # outs) @ failed p # map refused post \<and>
          hosted x' = None"
        using turn x1 fed(3) by simp
      then show ?thesis by blast
    qed
  qed
qed simp

end

subsection \<open>A sample machine\<close>

text \<open>A running sum that panics on zero: the machine of the concrete instances.\<close>

definition sum_step :: "nat \<Rightarrow> nat \<Rightarrow> panic + nat \<times> nat" where
  "sum_step n i = (if i = 0 then Inl (Panic ''zero'') else Inr (n + i, n + i))"

end
