(* ===== verification/Exclusive_Executor.thy ===== *)
theory Exclusive_Executor
  imports Concurrency
begin

section \<open>Exclusive execution\<close>

text \<open>
  \<open>ExclusiveExecutor\<close> of \<open>crates/driver/src/lib.rs\<close>: turns through \<open>&mut self\<close>.  \<open>turn\<close> returns
  the executor together with \<open>Inl panic\<close> when the transition unwinds, and otherwise with the
  function's own result, \<open>Inl (PoisonedInput i)\<close> or \<open>Inr output\<close>.
\<close>

datatype 'm ExclusiveSeat = SeatReady 'm | SeatPoisoned

datatype ExclusiveState = ExReady | ExPoisoned

datatype ExclusivePoisoned = ExclusivePoisoned

datatype 'i PoisonedInput = PoisonedInput 'i

record 'm ExclusiveExecutor =
  seat :: "'m ExclusiveSeat"

definition exclusive_new :: "'m \<Rightarrow> 'm ExclusiveExecutor" where
  "exclusive_new machine = \<lparr>seat = SeatReady machine\<rparr>"

definition turn ::
  "('m \<Rightarrow> 'i \<Rightarrow> panic + 'o \<times> 'm) \<Rightarrow> 'm ExclusiveExecutor \<Rightarrow> 'i \<Rightarrow>
     (panic + ('i PoisonedInput + 'o)) \<times> 'm ExclusiveExecutor" where
  "turn step self input =
     (let taken = self\<lparr>seat := SeatPoisoned\<rparr> in
      case seat self of
        SeatPoisoned \<Rightarrow> (Inr (Inl (PoisonedInput input)), taken)
      | SeatReady machine \<Rightarrow>
          (case step machine input of
             Inl p \<Rightarrow> (Inl p, taken)
           | Inr (out, successor) \<Rightarrow> (Inr (Inr out), taken\<lparr>seat := SeatReady successor\<rparr>)))"

definition exclusive_state :: "'m ExclusiveExecutor \<Rightarrow> ExclusiveState" where
  "exclusive_state self =
     (case seat self of SeatReady _ \<Rightarrow> ExReady | SeatPoisoned \<Rightarrow> ExPoisoned)"

definition exclusive_machine :: "'m ExclusiveExecutor \<Rightarrow> 'm option" where
  "exclusive_machine self =
     (case seat self of SeatReady machine \<Rightarrow> Some machine | SeatPoisoned \<Rightarrow> None)"

definition into_inner :: "'m ExclusiveExecutor \<Rightarrow> ExclusivePoisoned + 'm" where
  "into_inner self =
     (case seat self of SeatReady machine \<Rightarrow> Inr machine | SeatPoisoned \<Rightarrow> Inl ExclusivePoisoned)"

lemmas [executor_defs] =
  exclusive_new_def turn_def exclusive_state_def exclusive_machine_def into_inner_def

interpretation exclusive:
  hosted_machine step exclusive_machine "turn step" "\<lambda>out. Inr (Inr out)" Inl
    "\<lambda>i. Inr (Inl (PoisonedInput i))"
  for step :: "'m \<Rightarrow> 'i \<Rightarrow> panic + 'o \<times> 'm"
  by unfold_locales (auto simp: executor_defs Let_def split: ExclusiveSeat.splits)

lemma exclusive_views:
  "exclusive_state ex = ExReady \<longleftrightarrow> exclusive_machine ex \<noteq> None"
  "into_inner ex = (case exclusive_machine ex of None \<Rightarrow> Inl ExclusivePoisoned | Some m \<Rightarrow> Inr m)"
  by (auto simp: executor_defs split: ExclusiveSeat.splits)

lemma exclusive_machine_new [simp]: "exclusive_machine (exclusive_new m) = Some m"
  by (simp add: executor_defs)

subsection \<open>Properties\<close>

text \<open>
  C22: The turns of an exclusive executor are a run of its machine: either every input succeeds
  with the outputs of the run and the executor is ready with its successor, or the turns before
  the first panicking input do, that input propagates its panic, and every later input comes back
  intact with no machine left to recover.
\<close>

theorem exclusive_turns_are_a_run:
  "(\<exists>outs m' ex. run_machine step m is = Inr (outs, m') \<and>
      feed_all (turn step) (exclusive_new m) is = (map (\<lambda>out. Inr (Inr out)) outs, ex) \<and>
      exclusive_state ex = ExReady \<and> into_inner ex = Inr m') \<or>
   (\<exists>pre i post outs m' p ex. is = pre @ i # post \<and> run_machine step m pre = Inr (outs, m') \<and>
      step m' i = Inl p \<and>
      feed_all (turn step) (exclusive_new m) is =
        (map (\<lambda>out. Inr (Inr out)) outs @ Inl p # map (\<lambda>j. Inr (Inl (PoisonedInput j))) post, ex) \<and>
      exclusive_state ex = ExPoisoned \<and> into_inner ex = Inl ExclusivePoisoned)"
proof -
  obtain rs ex where fed: "feed_all (turn step) (exclusive_new m) is = (rs, ex)"
    by (cases "feed_all (turn step) (exclusive_new m) is")
  have poisoned: "exclusive_state ex = ExPoisoned \<longleftrightarrow> exclusive_machine ex = None"
    using exclusive_views(1) [of ex] ExclusiveState.exhaust by (cases "exclusive_state ex") auto
  from exclusive.feed_all_run [OF exclusive_machine_new fed] show ?thesis
  proof (elim disjE exE conjE)
    fix outs m'
    assume "run_machine step m is = Inr (outs, m')" "rs = map (\<lambda>out. Inr (Inr out)) outs"
      "exclusive_machine ex = Some m'"
    then show ?thesis using fed exclusive_views [of ex] by (intro disjI1) auto
  next
    fix pre i post outs m' p
    assume "is = pre @ i # post" "run_machine step m pre = Inr (outs, m')" "step m' i = Inl p"
      "rs = map (\<lambda>out. Inr (Inr out)) outs @ Inl p # map (\<lambda>j. Inr (Inl (PoisonedInput j))) post"
      "exclusive_machine ex = None"
    then show ?thesis using fed poisoned exclusive_views(2) [of ex]
      by (intro disjI2 exI [of _ pre] exI [of _ i] exI [of _ post] exI [of _ outs] exI [of _ m']
          exI [of _ p] exI [of _ ex]) simp
  qed
qed

end
