(* ===== verification/Linearized_Executor.thy ===== *)
theory Linearized_Executor
  imports Concurrency
begin

section \<open>Transition-linearized execution\<close>

text \<open>
  \<open>LinearizedExecutor\<close> of \<open>crates/driver/src/lib.rs\<close>.  Each locked section of the code is one
  function on the mutex; \<open>dispatch_pending\<close>, which takes the lock many times and runs the handler
  between, is the program of an \<open>Invocation\<close>, advanced one section or one handler call at a time
  by \<open>dispatch_pending_step\<close>.  \<open>lin_step\<close> interleaves submissions and invocations in every order
  (a reentrant call from a handler is a further submission or invocation), so the executions of
  \<open>lin_step\<close> are the schedules of the code.
\<close>

subsection \<open>State and operations\<close>

datatype 'm LinearizedMachine = LmReady 'm | LmPoisoned

datatype DispatchState = DispatchIdle | Dispatching

record ('m, 'o, 'e) LinearizedExecution =
  le_machine :: "'m LinearizedMachine"
  le_outputs :: "'o list"
  le_evidence :: "'e option"
  le_dispatch :: DispatchState

type_synonym ('m, 'o, 'e) LinearizedExecutor = "('m, 'o, 'e) LinearizedExecution Mutex"

definition linearized_new :: "'m \<Rightarrow> ('m, 'o, 'e) LinearizedExecutor" where
  "linearized_new machine =
     mutex_new \<lparr>le_machine = LmReady machine, le_outputs = [], le_evidence = None,
       le_dispatch = DispatchIdle\<rparr>"

definition linearized_submit ::
  "('m \<Rightarrow> 'i \<Rightarrow> panic + 'o \<times> 'm) \<Rightarrow> ('o \<Rightarrow> panic + 'e) \<Rightarrow> ('m, 'o, 'e) LinearizedExecutor \<Rightarrow> 'i \<Rightarrow>
     (panic + 'e) \<times> ('m, 'o, 'e) LinearizedExecutor" where
  "linearized_submit step evidence_of self input =
     (case lock self ''executor lock poisoned'' of
        Inl p \<Rightarrow> (Inl p, self)
      | Inr execution \<Rightarrow>
          let taken = execution\<lparr>le_machine := LmPoisoned\<rparr> in
          case le_machine execution of
            LmPoisoned \<Rightarrow> (Inl (Panic ''executor machine poisoned''), unwind self taken)
          | LmReady machine \<Rightarrow>
              (case and_then (step machine input) (\<lambda>(out, successor).
                      and_then (evidence_of out) (\<lambda>evidence. Inr (out, successor, evidence))) of
                 Inl p \<Rightarrow> (Inl p, unwind self taken)
               | Inr (out, successor, evidence) \<Rightarrow>
                   (Inr evidence,
                    unlock self (taken\<lparr>le_evidence := Some evidence, le_machine := LmReady successor,
                      le_outputs := le_outputs taken @ [out]\<rparr>))))"

definition linearized_evidence :: "('m, 'o, 'e) LinearizedExecutor \<Rightarrow> panic + 'e option" where
  "linearized_evidence self =
     and_then (lock self ''executor lock poisoned'') (\<lambda>execution. Inr (le_evidence execution))"

subsection \<open>Dispatch ownership\<close>

text \<open>\<open>armed\<close>: the ownership still holds its reference to the execution.\<close>

record DispatchOwnership =
  armed :: bool

datatype DispatchOutcome = DispatchDrained | OwnedElsewhere

definition acquire ::
  "('m, 'o, 'e) LinearizedExecutor \<Rightarrow>
     (panic + DispatchOwnership option) \<times> ('m, 'o, 'e) LinearizedExecutor" where
  "acquire self =
     (case lock self ''executor lock poisoned'' of
        Inl p \<Rightarrow> (Inl p, self)
      | Inr state \<Rightarrow>
          (case le_dispatch state of
             Dispatching \<Rightarrow> (Inr None, self)
           | DispatchIdle \<Rightarrow>
               (Inr (Some \<lparr>armed = True\<rparr>), unlock self (state\<lparr>le_dispatch := Dispatching\<rparr>))))"

definition next_output ::
  "DispatchOwnership \<Rightarrow> ('m, 'o, 'e) LinearizedExecutor \<Rightarrow>
     (panic + 'o option) \<times> DispatchOwnership \<times> ('m, 'o, 'e) LinearizedExecutor" where
  "next_output ownership self =
     (if \<not> armed ownership then (Inr None, ownership, self)
      else case lock self ''executor lock poisoned'' of
        Inl p \<Rightarrow> (Inl p, ownership, self)
      | Inr state \<Rightarrow>
          (case le_outputs state of
             out # rest \<Rightarrow> (Inr (Some out), ownership, unlock self (state\<lparr>le_outputs := rest\<rparr>))
           | [] \<Rightarrow> (Inr None, ownership\<lparr>armed := False\<rparr>,
                    unlock self (state\<lparr>le_dispatch := DispatchIdle\<rparr>))))"

definition drop_dispatch ::
  "DispatchOwnership \<Rightarrow> ('m, 'o, 'e) LinearizedExecutor \<Rightarrow> ('m, 'o, 'e) LinearizedExecutor" where
  "drop_dispatch ownership self =
     (if armed ownership
      then unlock self ((lock_or_inner self)\<lparr>le_dispatch := DispatchIdle\<rparr>)
      else self)"

datatype 'o Invocation =
    AtAcquire
  | AtNext DispatchOwnership
  | AtHandle DispatchOwnership 'o
  | Returned DispatchOutcome
  | Unwound panic

text \<open>
  One step of \<open>dispatch_pending\<close>; \<open>handled\<close> is what the handler does with the output it is given,
  \<open>Some p\<close> when it panics.  Leaving the function drops the ownership.
\<close>

fun dispatch_pending_step ::
  "panic option \<Rightarrow> 'o Invocation \<Rightarrow> ('m, 'o, 'e) LinearizedExecutor \<Rightarrow>
     'o Invocation \<times> ('m, 'o, 'e) LinearizedExecutor" where
  "dispatch_pending_step handled AtAcquire self =
     (case acquire self of
        (Inl p, self') \<Rightarrow> (Unwound p, self')
      | (Inr None, self') \<Rightarrow> (Returned OwnedElsewhere, self')
      | (Inr (Some ownership), self') \<Rightarrow> (AtNext ownership, self'))"
| "dispatch_pending_step handled (AtNext ownership) self =
     (case next_output ownership self of
        (Inl p, ownership', self') \<Rightarrow> (Unwound p, drop_dispatch ownership' self')
      | (Inr None, ownership', self') \<Rightarrow> (Returned DispatchDrained, drop_dispatch ownership' self')
      | (Inr (Some out), ownership', self') \<Rightarrow> (AtHandle ownership' out, self'))"
| "dispatch_pending_step handled (AtHandle ownership out) self =
     (case handled of
        Some p \<Rightarrow> (Unwound p, drop_dispatch ownership self)
      | None \<Rightarrow> (AtNext ownership, self))"
| "dispatch_pending_step handled (Returned outcome) self = (Returned outcome, self)"
| "dispatch_pending_step handled (Unwound p) self = (Unwound p, self)"

lemmas [executor_defs] =
  linearized_new_def linearized_submit_def linearized_evidence_def acquire_def next_output_def
  drop_dispatch_def

subsection \<open>Schedules\<close>

record ('m, 'o, 'e) LinearizedSystem =
  sys_executor :: "('m, 'o, 'e) LinearizedExecutor"
  sys_invocations :: "nat \<Rightarrow> 'o Invocation option"

datatype ('i, 'o, 'e) LinearizedLabel =
    Submit 'i "panic + 'e"
  | CallDispatch nat
  | Advance nat "'o Invocation" "'o Invocation"

definition linearized_start :: "'m \<Rightarrow> ('m, 'o, 'e) LinearizedSystem" where
  "linearized_start m = \<lparr>sys_executor = linearized_new m, sys_invocations = \<lambda>_. None\<rparr>"

inductive lin_step ::
  "('m \<Rightarrow> 'i \<Rightarrow> panic + 'o \<times> 'm) \<Rightarrow> ('o \<Rightarrow> panic + 'e) \<Rightarrow> ('m, 'o, 'e) LinearizedSystem \<Rightarrow>
     ('i, 'o, 'e) LinearizedLabel \<Rightarrow> ('m, 'o, 'e) LinearizedSystem \<Rightarrow> bool"
  for step :: "'m \<Rightarrow> 'i \<Rightarrow> panic + 'o \<times> 'm" and evidence_of :: "'o \<Rightarrow> panic + 'e" where
  lin_submit:
    "linearized_submit step evidence_of (sys_executor s) i = (r, ex) \<Longrightarrow>
       lin_step step evidence_of s (Submit i r) (s\<lparr>sys_executor := ex\<rparr>)"
| lin_call:
    "sys_invocations s k = None \<Longrightarrow>
       lin_step step evidence_of s (CallDispatch k)
         (s\<lparr>sys_invocations := (sys_invocations s)(k \<mapsto> AtAcquire)\<rparr>)"
| lin_advance:
    "sys_invocations s k = Some pc \<Longrightarrow>
       dispatch_pending_step handled pc (sys_executor s) = (pc', ex) \<Longrightarrow>
       lin_step step evidence_of s (Advance k pc pc')
         (s\<lparr>sys_executor := ex, sys_invocations := (sys_invocations s)(k \<mapsto> pc')\<rparr>)"

inductive_cases lin_stepE: "lin_step step evidence_of s l s'"

lemma lin_step_cases [consumes 1, case_names submit call advance]:
  assumes "lin_step step evidence_of s l s'"
  obtains i r ex where "l = Submit i r" "s' = s\<lparr>sys_executor := ex\<rparr>"
      "linearized_submit step evidence_of (sys_executor s) i = (r, ex)"
  | k where "l = CallDispatch k" "sys_invocations s k = None"
      "s' = s\<lparr>sys_invocations := (sys_invocations s)(k \<mapsto> AtAcquire)\<rparr>"
  | k pc handled pc' ex where "l = Advance k pc pc'"
      "s' = s\<lparr>sys_executor := ex, sys_invocations := (sys_invocations s)(k \<mapsto> pc')\<rparr>"
      "sys_invocations s k = Some pc" "dispatch_pending_step handled pc (sys_executor s) = (pc', ex)"
  using assms by (elim lin_stepE) blast+

text \<open>What the labels of a schedule tell, in its order.\<close>

fun accepted_label :: "('i, 'o, 'e) LinearizedLabel \<Rightarrow> ('i \<times> 'e) list" where
  "accepted_label (Submit i (Inr e)) = [(i, e)]"
| "accepted_label _ = []"

fun taken_label :: "('i, 'o, 'e) LinearizedLabel \<Rightarrow> 'o list" where
  "taken_label (Advance k pc (AtHandle _ out)) = [out]"
| "taken_label _ = []"

text \<open>Outputs whose handler call ended, returning or unwinding.\<close>

fun finished_label :: "('i, 'o, 'e) LinearizedLabel \<Rightarrow> 'o list" where
  "finished_label (Advance k (AtHandle _ out) _) = [out]"
| "finished_label _ = []"

fun handler_panic :: "('i, 'o, 'e) LinearizedLabel \<Rightarrow> bool" where
  "handler_panic (Advance k (AtHandle _ _) (Unwound _)) = True"
| "handler_panic _ = False"

definition accepted :: "('i, 'o, 'e) LinearizedLabel list \<Rightarrow> ('i \<times> 'e) list" where
  "accepted tr = concat (map accepted_label tr)"

definition taken_outputs :: "('i, 'o, 'e) LinearizedLabel list \<Rightarrow> 'o list" where
  "taken_outputs tr = concat (map taken_label tr)"

definition finished_outputs :: "('i, 'o, 'e) LinearizedLabel list \<Rightarrow> 'o list" where
  "finished_outputs tr = concat (map finished_label tr)"

lemma schedule_simps [simp]:
  "accepted [] = []" "accepted (tr @ tr') = accepted tr @ accepted tr'"
  "accepted [l] = accepted_label l"
  "taken_outputs [] = []" "taken_outputs (tr @ tr') = taken_outputs tr @ taken_outputs tr'"
  "taken_outputs [l] = taken_label l"
  "finished_outputs [] = []"
  "finished_outputs (tr @ tr') = finished_outputs tr @ finished_outputs tr'"
  "finished_outputs [l] = finished_label l"
  by (simp_all add: accepted_def taken_outputs_def finished_outputs_def)

subsection \<open>One section, its effect on the execution\<close>

text \<open>Which invocations own dispatch, and the output an invocation is handling.\<close>

fun owns :: "'o Invocation \<Rightarrow> bool" where
  "owns (AtNext _) = True"
| "owns (AtHandle _ _) = True"
| "owns _ = False"

fun ownership :: "'o Invocation \<Rightarrow> DispatchOwnership option" where
  "ownership (AtNext ow) = Some ow"
| "ownership (AtHandle ow _) = Some ow"
| "ownership _ = None"

fun in_flight :: "'o Invocation \<Rightarrow> 'o list" where
  "in_flight (AtHandle _ out) = [out]"
| "in_flight _ = []"

lemma submit_cases:
  assumes "linearized_submit step evidence_of ex i = (r, ex')"
  obtains (refused) "lock_poisoned ex" "ex' = ex" "r = Inl (Panic ''executor lock poisoned'')"
  | (poisoned) "\<not> lock_poisoned ex" "le_machine (guarded ex) = LmPoisoned"
  | (unwound) m p where "\<not> lock_poisoned ex" "le_machine (guarded ex) = LmReady m" "r = Inl p"
      "step m i = Inl p \<or> (\<exists>out m'. step m i = Inr (out, m') \<and> evidence_of out = Inl p)"
      "ex' = unwind ex ((guarded ex)\<lparr>le_machine := LmPoisoned\<rparr>)"
  | (linearized) m m' out e where "\<not> lock_poisoned ex" "le_machine (guarded ex) = LmReady m"
      "step m i = Inr (out, m')" "evidence_of out = Inr e" "r = Inr e"
      "ex' = unlock ex \<lparr>le_machine = LmReady m', le_outputs = le_outputs (guarded ex) @ [out],
         le_evidence = Some e, le_dispatch = le_dispatch (guarded ex)\<rparr>"
proof (cases "lock_poisoned ex")
  case True
  then show ?thesis using assms by (intro refused) (auto simp: linearized_submit_def lock_def)
next
  case unpoisoned: False
  show ?thesis
  proof (cases "le_machine (guarded ex)")
    case LmPoisoned
    then show ?thesis using unpoisoned poisoned by blast
  next
    case (LmReady m)
    let ?taken = "(guarded ex)\<lparr>le_machine := LmPoisoned\<rparr>"
    show ?thesis
    proof (cases "step m i")
      case (Inl p)
      with assms LmReady unpoisoned have "r = Inl p" "ex' = unwind ex ?taken"
        by (auto simp: linearized_submit_def lock_def)
      then show ?thesis using unwound unpoisoned LmReady Inl by blast
    next
      case (Inr om)
      then obtain out m' where turn: "step m i = Inr (out, m')" by (cases om) auto
      show ?thesis
      proof (cases "evidence_of out")
        case (Inl p)
        with assms LmReady unpoisoned turn have "r = Inl p" "ex' = unwind ex ?taken"
          by (auto simp: linearized_submit_def lock_def)
        then show ?thesis using unwound unpoisoned LmReady turn Inl by blast
      next
        case (Inr e)
        with assms LmReady unpoisoned turn show ?thesis
          by (intro linearized [OF unpoisoned LmReady turn Inr])
            (auto simp: linearized_submit_def lock_def)
      qed
    qed
  qed
qed

text \<open>The dispatch flag and the ownership of the invocation move together.\<close>

lemma dispatch_step_frame:
  assumes "dispatch_pending_step handled pc ex = (pc', ex')"
  shows "lock_poisoned ex' = lock_poisoned ex"
    and "le_machine (guarded ex') = le_machine (guarded ex)"
    and "le_evidence (guarded ex') = le_evidence (guarded ex)"
    and "taken_label (Advance k pc pc') @ le_outputs (guarded ex') = le_outputs (guarded ex)"
  using assms
  by (cases pc; auto simp: executor_defs lock_def split: DispatchState.splits list.splits
      option.splits if_splits)+

lemma dispatch_step_ownership:
  assumes "dispatch_pending_step handled pc ex = (pc', ex')"
    and "\<And>ow. ownership pc = Some ow \<Longrightarrow> armed ow"
    and "owns pc \<Longrightarrow> le_dispatch (guarded ex) = Dispatching"
  shows "(\<forall>ow. ownership pc' = Some ow \<longrightarrow> armed ow)"
    and "owns pc' \<Longrightarrow> le_dispatch (guarded ex') = Dispatching"
    and "owns pc \<Longrightarrow> \<not> owns pc' \<Longrightarrow> le_dispatch (guarded ex') = DispatchIdle"
    and "\<not> owns pc \<Longrightarrow> owns pc' \<Longrightarrow> le_dispatch (guarded ex) = DispatchIdle"
    and "owns pc = owns pc' \<Longrightarrow> le_dispatch (guarded ex') = le_dispatch (guarded ex)"
  using assms
  by (cases pc; auto simp: executor_defs lock_def split: DispatchState.splits list.splits
      option.splits if_splits)+

lemma dispatch_step_flight:
  "dispatch_pending_step handled pc ex = (pc', ex') \<Longrightarrow>
     in_flight pc @ taken_label (Advance k pc pc') =
     finished_label (Advance k pc pc') @ in_flight pc'"
  by (cases pc) (auto simp: executor_defs lock_def split: DispatchState.splits list.splits
      option.splits if_splits)

lemma owns_ownership: "owns pc \<longleftrightarrow> ownership pc \<noteq> None"
  by (cases pc) auto

subsection \<open>Invariants of every schedule\<close>

definition owner :: "('m, 'o, 'e) LinearizedSystem \<Rightarrow> nat \<Rightarrow> bool" where
  "owner s k \<longleftrightarrow> (\<exists>pc. sys_invocations s k = Some pc \<and> owns pc)"

definition dispatch_exclusive :: "('m, 'o, 'e) LinearizedSystem \<Rightarrow> bool" where
  "dispatch_exclusive s \<longleftrightarrow>
     (\<forall>k pc ow. sys_invocations s k = Some pc \<longrightarrow> ownership pc = Some ow \<longrightarrow> armed ow) \<and>
     (\<forall>k k'. owner s k \<longrightarrow> owner s k' \<longrightarrow> k = k') \<and>
     (le_dispatch (guarded (sys_executor s)) = Dispatching \<longleftrightarrow> (\<exists>k. owner s k))"

definition in_order :: "('i, 'o, 'e) LinearizedLabel list \<Rightarrow> ('m, 'o, 'e) LinearizedSystem \<Rightarrow> bool" where
  "in_order tr s \<longleftrightarrow>
     (\<forall>k pc. sys_invocations s k = Some pc \<longrightarrow> owns pc \<longrightarrow>
        taken_outputs tr = finished_outputs tr @ in_flight pc) \<and>
     ((\<nexists>k. owner s k) \<longrightarrow> taken_outputs tr = finished_outputs tr)"

definition linearized ::
  "('m \<Rightarrow> 'i \<Rightarrow> panic + 'o \<times> 'm) \<Rightarrow> ('o \<Rightarrow> panic + 'e) \<Rightarrow> 'm \<Rightarrow> ('i, 'o, 'e) LinearizedLabel list \<Rightarrow>
     ('m, 'o, 'e) LinearizedExecutor \<Rightarrow> bool" where
  "linearized step evidence_of m tr ex \<longleftrightarrow>
     (\<exists>outs m'. run_machine step m (map fst (accepted tr)) = Inr (outs, m') \<and>
        map evidence_of outs = map (Inr \<circ> snd) (accepted tr) \<and>
        taken_outputs tr @ le_outputs (guarded ex) = outs \<and>
        le_evidence (guarded ex) = (if accepted tr = [] then None else Some (snd (last (accepted tr)))) \<and>
        le_machine (guarded ex) = (if lock_poisoned ex then LmPoisoned else LmReady m') \<and>
        (lock_poisoned ex \<longrightarrow>
           (\<exists>i p. step m' i = Inl p \<or> (\<exists>out m''. step m' i = Inr (out, m'') \<and> evidence_of out = Inl p))))"

text \<open>Whether an accepted submission is not followed by a call of \<open>dispatch_pending\<close> yet.\<close>

fun undispatched_after :: "bool \<Rightarrow> ('i, 'o, 'e) LinearizedLabel \<Rightarrow> bool" where
  "undispatched_after b (Submit i (Inr e)) = True"
| "undispatched_after b (CallDispatch k) = False"
| "undispatched_after b _ = b"

definition undispatched :: "('i, 'o, 'e) LinearizedLabel list \<Rightarrow> bool" where
  "undispatched tr = foldl undispatched_after False tr"

definition running :: "'o Invocation \<Rightarrow> bool" where
  "running pc \<longleftrightarrow> owns pc \<or> pc = AtAcquire"

definition not_stranded :: "('i, 'o, 'e) LinearizedLabel list \<Rightarrow> ('m, 'o, 'e) LinearizedSystem \<Rightarrow> bool" where
  "not_stranded tr s \<longleftrightarrow>
     (\<not> list_ex handler_panic tr \<and> \<not> lock_poisoned (sys_executor s) \<and>
      le_outputs (guarded (sys_executor s)) \<noteq> [] \<longrightarrow>
      undispatched tr \<or> (\<exists>k pc. sys_invocations s k = Some pc \<and> running pc))"

lemma dispatch_exclusive_step:
  "dispatch_exclusive s \<Longrightarrow> lin_step step evidence_of s l s' \<Longrightarrow> dispatch_exclusive s'"
proof (erule lin_stepE)
  fix i r ex
  assume "dispatch_exclusive s" "s' = s\<lparr>sys_executor := ex\<rparr>"
    "linearized_submit step evidence_of (sys_executor s) i = (r, ex)"
  moreover from this(3) have "le_dispatch (guarded ex) = le_dispatch (guarded (sys_executor s))"
    by (auto simp: linearized_submit_def Let_def split: sum.splits LinearizedMachine.splits)
  ultimately show ?thesis by (simp add: dispatch_exclusive_def owner_def)
next
  fix k
  assume ds: "dispatch_exclusive s" and k: "sys_invocations s k = None"
    and s': "s' = s\<lparr>sys_invocations := (sys_invocations s)(k \<mapsto> AtAcquire)\<rparr>"
  have "owner s' j = owner s j" for j using k s' by (auto simp: owner_def)
  then show ?thesis using ds s' by (auto simp: dispatch_exclusive_def)
next
  fix k pc handled pc' ex
  let ?invs = "sys_invocations s" and ?ex = "sys_executor s"
  assume ds: "dispatch_exclusive s" and pc: "?invs k = Some pc"
    and st: "dispatch_pending_step handled pc ?ex = (pc', ex)"
    and s': "s' = s\<lparr>sys_executor := ex, sys_invocations := ?invs(k \<mapsto> pc')\<rparr>"
  have owner': "owner s' j = (if j = k then owns pc' else owner s j)" for j
    using s' by (auto simp: owner_def)
  have k: "owner s k = owns pc" using pc by (simp add: owner_def)
  have armed: "ownership pc = Some ow \<Longrightarrow> armed ow" for ow
    using ds pc by (auto simp: dispatch_exclusive_def)
  have flag: "le_dispatch (guarded ?ex) = Dispatching \<longleftrightarrow> (\<exists>j. owner s j)"
    and unique: "\<And>i j. owner s i \<Longrightarrow> owner s j \<Longrightarrow> i = j"
    using ds by (auto simp: dispatch_exclusive_def)
  have idle: "le_dispatch e = DispatchIdle \<longleftrightarrow> le_dispatch e \<noteq> Dispatching" for e :: "('a, 'b, 'c) LinearizedExecution"
    by (cases "le_dispatch e") auto
  note own = dispatch_step_ownership [OF st armed, unfolded idle]
  have owning: "owns pc \<Longrightarrow> le_dispatch (guarded ?ex) = Dispatching" using flag k by blast
  have "owner s' i \<Longrightarrow> owner s' j \<Longrightarrow> i = j" for i j
    using own(4) owning flag unique k unfolding owner' by (metis (full_types))
  moreover have "le_dispatch (guarded ex) = Dispatching \<longleftrightarrow> (\<exists>j. owner s' j)"
    using own(2,3,5) owning flag unique k unfolding owner' by (metis (full_types))
  moreover have "\<forall>j q ow. sys_invocations s' j = Some q \<longrightarrow> ownership q = Some ow \<longrightarrow> armed ow"
    using own(1) owning ds s' by (auto simp: dispatch_exclusive_def split: if_splits)
  ultimately show ?thesis using s' by (simp add: dispatch_exclusive_def)
qed

lemma linearized_frame:
  assumes "linearized step evidence_of m tr ex" and "accepted tr' = accepted tr"
    and "taken_outputs tr' @ le_outputs (guarded ex') = taken_outputs tr @ le_outputs (guarded ex)"
    and "lock_poisoned ex' = lock_poisoned ex" and "le_machine (guarded ex') = le_machine (guarded ex)"
    and "le_evidence (guarded ex') = le_evidence (guarded ex)"
  shows "linearized step evidence_of m tr' ex'"
  using assms(1) unfolding linearized_def assms(2-) .

lemma linearized_step:
  assumes "linearized step evidence_of m tr (sys_executor s)" and "lin_step step evidence_of s l s'"
  shows "linearized step evidence_of m (tr @ [l]) (sys_executor s')"
  using assms(2)
proof (cases rule: lin_step_cases)
  case (submit i r ex)
  obtain outs m' where lin: "run_machine step m (map fst (accepted tr)) = Inr (outs, m')"
      "map evidence_of outs = map (Inr \<circ> snd) (accepted tr)"
      "taken_outputs tr @ le_outputs (guarded (sys_executor s)) = outs"
      "le_evidence (guarded (sys_executor s)) =
         (if accepted tr = [] then None else Some (snd (last (accepted tr))))"
      "le_machine (guarded (sys_executor s)) =
         (if lock_poisoned (sys_executor s) then LmPoisoned else LmReady m')"
      "lock_poisoned (sys_executor s) \<longrightarrow>
         (\<exists>i p. step m' i = Inl p \<or> (\<exists>out m''. step m' i = Inr (out, m'') \<and> evidence_of out = Inl p))"
    using assms(1) unfolding linearized_def by blast
  show ?thesis
    using submit(3)
  proof (cases rule: submit_cases)
    case refused
    then show ?thesis using lin submit by (auto simp: linearized_def)
  next
    case poisoned
    then show ?thesis using lin by (simp split: if_splits)
  next
    case (unwound m1 p)
    then show ?thesis using lin submit by (auto simp: linearized_def)
  next
    case (linearized m1 m2 out e)
    then have "m1 = m'" using lin(5) by simp
    then have "run_machine step m (map fst (accepted tr) @ [i]) = Inr (outs @ [out], m2)"
      using lin(1) linearized(3) by (simp add: run_machine_append)
    then show ?thesis using lin submit linearized by (auto simp: linearized_def)
  qed
next
  case (call k)
  then show ?thesis by (intro linearized_frame [OF assms(1)]) auto
next
  case (advance k pc handled pc' ex)
  then show ?thesis using dispatch_step_frame [OF advance(4)]
    by (intro linearized_frame [OF assms(1)]) auto
qed

lemma in_order_step:
  assumes "in_order tr s" and "dispatch_exclusive s" and "dispatch_exclusive s'"
    and "lin_step step evidence_of s l s'"
  shows "in_order (tr @ [l]) s'"
  using assms(4)
proof (cases rule: lin_step_cases)
  case (submit i r ex)
  then show ?thesis using assms(1) by (cases r) (auto simp: in_order_def owner_def)
next
  case (call k)
  have "owner s' j = owner s j" for j using call by (auto simp: owner_def)
  then show ?thesis using assms(1) call(1,3) by (auto simp: in_order_def split: if_splits)
next
  case (advance k pc handled pc' ex)
  have unique: "owner s i \<Longrightarrow> owner s j \<Longrightarrow> i = j" "owner s' i \<Longrightarrow> owner s' j \<Longrightarrow> i = j" for i j
    using assms(2,3) by (auto simp: dispatch_exclusive_def)
  have others: "j \<noteq> k \<Longrightarrow> owner s' j = owner s j" for j using advance(2) by (simp add: owner_def)
  have k: "owner s k = owns pc" "owner s' k = owns pc'" using advance(2,3) by (auto simp: owner_def)
  note flight = dispatch_step_flight [OF advance(4)]
  show ?thesis
  proof (cases "owns pc \<or> owns pc'")
    case True
    then have none: "j \<noteq> k \<Longrightarrow> \<not> owner s j" for j
      using unique others k by blast
    have before: "taken_outputs tr = finished_outputs tr @ in_flight pc"
    proof (cases "owns pc")
      case True
      then show ?thesis using assms(1) advance(3) by (auto simp: in_order_def)
    next
      case False
      then have "in_flight pc = []" by (cases pc) auto
      moreover have "\<nexists>j. owner s j" using none k False by metis
      ultimately show ?thesis using assms(1) by (simp add: in_order_def)
    qed
    have after: "taken_outputs (tr @ [l]) = finished_outputs (tr @ [l]) @ in_flight pc'"
      using before flight advance(1) by simp
    moreover have "in_flight pc' = []" if "\<nexists>j. owner s' j" using that k by (cases pc') auto
    moreover have "q = pc'" if "sys_invocations s' j = Some q" "owns q" for j q
    proof -
      have "owner s' j" using that by (auto simp: owner_def)
      then have "j = k" using none others by blast
      then show ?thesis using that(1) advance(2) by simp
    qed
    ultimately show ?thesis by (auto simp: in_order_def)
  next
    case False
    then have "taken_label l = []" "finished_label l = []" using advance(1) by (cases pc; cases pc'; auto)+
    moreover have "owner s' j = owner s j" for j using others k False by (cases "j = k") auto
    ultimately show ?thesis using assms(1) False advance(2) by (auto simp: in_order_def split: if_splits)
  qed
qed

lemma not_stranded_step:
  assumes "not_stranded tr s" and "dispatch_exclusive s" and "lin_step step evidence_of s l s'"
  shows "not_stranded (tr @ [l]) s'"
  using assms(3)
proof (cases rule: lin_step_cases)
  case (submit i r ex)
  have "undispatched (tr @ [l]) \<longleftrightarrow> (case r of Inl p \<Rightarrow> undispatched tr | Inr e \<Rightarrow> True)"
    using submit(1) by (cases r) (auto simp: undispatched_def)
  moreover have "r = Inl p \<Longrightarrow> ex = sys_executor s \<or> lock_poisoned ex" for p
    using submit(3) by (auto simp: linearized_submit_def Let_def lock_def
        split: LinearizedMachine.splits sum.splits if_splits)
  ultimately show ?thesis using assms(1) submit(1,2)
    by (cases r) (auto simp: not_stranded_def)
next
  case (call k)
  then show ?thesis by (auto simp: not_stranded_def running_def)
next
  case (advance k pc handled pc' ex)
  note frame = dispatch_step_frame [OF advance(4)]
  have und: "undispatched (tr @ [l]) = undispatched tr" using advance(1) by (simp add: undispatched_def)
  have others: "sys_invocations s' j = Some q" if "sys_invocations s j = Some q" "j \<noteq> k" for j q
    using that advance(2) by simp
  have k': "sys_invocations s' k = Some pc'" using advance(2) by simp
  show ?thesis
    unfolding not_stranded_def
  proof (intro impI)
    assume clean: "\<not> list_ex handler_panic (tr @ [l]) \<and> \<not> lock_poisoned (sys_executor s') \<and>
        le_outputs (guarded (sys_executor s')) \<noteq> []"
    then have unp: "\<not> lock_poisoned (sys_executor s)" "le_outputs (guarded (sys_executor s)) \<noteq> []"
      using frame(1,4) advance(2) by auto
    then have "undispatched tr \<or> (\<exists>j q. sys_invocations s j = Some q \<and> running q)"
      using assms(1) clean by (auto simp: not_stranded_def)
    then show "undispatched (tr @ [l]) \<or> (\<exists>j q. sys_invocations s' j = Some q \<and> running q)"
    proof (elim disjE exE conjE)
      fix j q assume q: "sys_invocations s j = Some q" "running q"
      show ?thesis
      proof (cases "j = k")
        case False
        then show ?thesis using others q by blast
      next
        case True
        then have [simp]: "q = pc" using q advance(3) by simp
        have armed: "ow_armed" if "pc = AtNext ow" "ow_armed = armed ow" for ow ow_armed
          using that assms(2) advance(3) by (auto simp: dispatch_exclusive_def)
        have "running pc' \<or> pc' = Returned OwnedElsewhere \<and> pc = AtAcquire \<and>
            le_dispatch (guarded (sys_executor s)) = Dispatching"
          using advance(4) q(2) unp clean advance(1,2) armed
          by (cases pc) (auto simp: running_def executor_defs lock_def split: DispatchState.splits
              list.splits option.splits if_splits)
        then show ?thesis
        proof
          assume "running pc'"
          then show ?thesis using k' by blast
        next
          assume other: "pc' = Returned OwnedElsewhere \<and> pc = AtAcquire \<and>
            le_dispatch (guarded (sys_executor s)) = Dispatching"
          then obtain i where i: "owner s i" using assms(2) by (auto simp: dispatch_exclusive_def)
          then have "i \<noteq> k" using advance(3) other by (auto simp: owner_def)
          then show ?thesis using i others by (auto simp: owner_def running_def)
        qed
      qed
    qed (use und in blast)
  qed
qed

interpretation linearized_schedule:
  trace_invariant "lin_step step evidence_of" "linearized_start m"
    "\<lambda>tr s. dispatch_exclusive s \<and> linearized step evidence_of m tr (sys_executor s) \<and>
       in_order tr s \<and> not_stranded tr s"
  for step :: "'m \<Rightarrow> 'i \<Rightarrow> panic + 'o \<times> 'm" and evidence_of :: "'o \<Rightarrow> panic + 'e" and m :: 'm
proof (unfold_locales, goal_cases)
  case 1
  then show ?case
    by (simp add: linearized_start_def linearized_new_def dispatch_exclusive_def owner_def
        linearized_def in_order_def not_stranded_def)
next
  case (2 tr s l s')
  then have before: "dispatch_exclusive s" "linearized step evidence_of m tr (sys_executor s)"
      "in_order tr s" "not_stranded tr s" by auto
  note after = dispatch_exclusive_step [OF before(1) 2(2)]
  show ?case
    using after linearized_step [OF before(2) 2(2)] in_order_step [OF before(3,1) after 2(2)]
      not_stranded_step [OF before(4,1) 2(2)] by simp
qed

subsection \<open>An invocation running alone\<close>

text \<open>
  \<open>dispatch_alone n\<close> advances one invocation at most \<open>n\<close> steps with a handler that returns, and
  collects the outputs it handed to the handler.
\<close>

fun dispatch_alone ::
  "nat \<Rightarrow> 'o Invocation \<Rightarrow> ('m, 'o, 'e) LinearizedExecutor \<Rightarrow>
     'o list \<times> 'o Invocation \<times> ('m, 'o, 'e) LinearizedExecutor" where
  "dispatch_alone 0 pc ex = ([], pc, ex)"
| "dispatch_alone (Suc n) pc ex =
     (let (pc', ex') = dispatch_pending_step None pc ex; (outs, stop) = dispatch_alone n pc' ex'
      in (in_flight pc' @ outs, stop))"

lemma dispatch_alone_drains:
  "armed ow \<Longrightarrow> \<not> lock_poisoned ex \<Longrightarrow>
     dispatch_alone (Suc (2 * length (le_outputs (guarded ex)))) (AtNext ow) ex =
       (le_outputs (guarded ex), Returned DispatchDrained,
        unlock ex ((guarded ex)\<lparr>le_outputs := [], le_dispatch := DispatchIdle\<rparr>))"
proof (induction "le_outputs (guarded ex)" arbitrary: ex)
  case Nil
  then show ?case by (simp add: executor_defs lock_def unlock_def)
next
  case (Cons out outs)
  let ?ex = "unlock ex ((guarded ex)\<lparr>le_outputs := outs\<rparr>)"
  have "dispatch_alone (Suc (2 * length outs)) (AtNext ow) ?ex =
      (outs, Returned DispatchDrained,
       unlock ?ex ((guarded ?ex)\<lparr>le_outputs := [], le_dispatch := DispatchIdle\<rparr>))"
    using Cons(1) [of ?ex] Cons(3,4) by simp
  then show ?case
    using Cons(2) [symmetric] Cons(3,4) by (simp add: next_output_def lock_def unlock_def)
qed

inductive_simps lin_submit_iff [simp]: "lin_step step evidence_of s (Submit i r) s'"
inductive_simps lin_call_iff [simp]: "lin_step step evidence_of s (CallDispatch k) s'"
inductive_simps lin_advance_iff [simp]: "lin_step step evidence_of s (Advance k pc pc') s'"

subsection \<open>Properties\<close>

text \<open>
  C14: Linearizability: in every interleaving of submissions and dispatchers, the outputs taken so
  far followed by those still queued are exactly the outputs of a sequential run of the machine on
  the accepted inputs in the order of their submissions; each submitter got the evidence of its
  own output, the stored evidence is the last one, and the machine is the run's successor unless
  the lock is poisoned.
\<close>

theorem linearized_history:
  assumes "schedule (lin_step step evidence_of) (linearized_start m) tr s"
  shows "\<exists>outs m'. run_machine step m (map fst (accepted tr)) = Inr (outs, m') \<and>
           map evidence_of outs = map (Inr \<circ> snd) (accepted tr) \<and>
           outs = taken_outputs tr @ le_outputs (guarded (sys_executor s)) \<and>
           le_evidence (guarded (sys_executor s)) =
             (if accepted tr = [] then None else Some (snd (last (accepted tr)))) \<and>
           le_machine (guarded (sys_executor s)) =
             (if lock_poisoned (sys_executor s) then LmPoisoned else LmReady m')"
  using linearized_schedule.inv_schedule [OF assms] unfolding linearized_def by blast

text \<open>
  C21: Effects run one at a time and in order: at most one invocation owns dispatch, exactly while
  the dispatch flag is set, so no two handler calls overlap; the outputs whose handling ended are
  the outputs taken, short of the one in flight.
\<close>

theorem linearized_single_dispatcher:
  assumes "schedule (lin_step step evidence_of) (linearized_start m) tr s"
  shows "(owner s k \<and> owner s k' \<longrightarrow> k = k') \<and>
     (le_dispatch (guarded (sys_executor s)) = Dispatching \<longleftrightarrow> (\<exists>j. owner s j)) \<and>
     (sys_invocations s k = Some (AtHandle ow out) \<longrightarrow>
        taken_outputs tr = finished_outputs tr @ [out]) \<and>
     ((\<nexists>j. owner s j) \<longrightarrow> taken_outputs tr = finished_outputs tr)"
  using linearized_schedule.inv_schedule [OF assms]
  by (fastforce simp: dispatch_exclusive_def in_order_def)

text \<open>
  C15: No output is stranded: when every accepted submission was followed by a call of
  \<open>dispatch_pending\<close> (also one that found dispatch owned elsewhere), no handler or transition
  panicked and no invocation is still running, every output of the run has been handled and the
  queue is empty.
\<close>

theorem linearized_no_output_stranded:
  assumes "schedule (lin_step step evidence_of) (linearized_start m) tr s"
    and "\<not> undispatched tr" and "\<not> list_ex handler_panic tr"
    and "\<not> lock_poisoned (sys_executor s)"
    and "\<And>k pc. sys_invocations s k = Some pc \<Longrightarrow> \<not> running pc"
  shows "le_outputs (guarded (sys_executor s)) = [] \<and>
     (\<exists>m'. run_machine step m (map fst (accepted tr)) = Inr (finished_outputs tr, m'))"
proof -
  note inv = linearized_schedule.inv_schedule [OF assms(1)]
  have "le_outputs (guarded (sys_executor s)) = []"
    using inv assms(2-5) by (auto simp: not_stranded_def)
  moreover have "\<nexists>k. owner s k" using assms(5) by (auto simp: owner_def running_def)
  then have "taken_outputs tr = finished_outputs tr" using inv by (simp add: in_order_def)
  ultimately show ?thesis using inv by (auto simp: linearized_def)
qed

text \<open>
  The only panics of a submission are the machine's own and the poisoned lock: a submission
  that panics either met a lock poisoned earlier, or is the one whose transition (or evidence
  extraction) panicked on the successor of the accepted inputs; the branch for a poisoned machine
  behind a healthy lock is never reached, and from then on the lock is poisoned.
\<close>

theorem linearized_submit_panics:
  assumes "schedule (lin_step step evidence_of) (linearized_start m) (tr @ [Submit i (Inl p)]) s"
  shows "lock_poisoned (sys_executor s) \<and>
     (p = Panic ''executor lock poisoned'' \<or>
      (\<exists>outs m'. run_machine step m (map fst (accepted tr)) = Inr (outs, m') \<and>
         (step m' i = Inl p \<or> (\<exists>out m''. step m' i = Inr (out, m'') \<and> evidence_of out = Inl p))))"
proof -
  obtain s0 where s0: "schedule (lin_step step evidence_of) (linearized_start m) tr s0"
      and last: "lin_step step evidence_of s0 (Submit i (Inl p)) s"
    using assms by auto
  obtain outs m' where run: "run_machine step m (map fst (accepted tr)) = Inr (outs, m')"
      and machine: "le_machine (guarded (sys_executor s0)) =
        (if lock_poisoned (sys_executor s0) then LmPoisoned else LmReady m')"
    using linearized_schedule.inv_schedule [OF s0] unfolding linearized_def by blast
  obtain ex where ex: "linearized_submit step evidence_of (sys_executor s0) i = (Inl p, ex)"
      and s: "s = s0\<lparr>sys_executor := ex\<rparr>"
    using last by auto
  from ex show ?thesis
    by (cases rule: submit_cases) (use run machine s in auto)
qed

text \<open>
  The dispatch owner makes progress: whatever schedule led there, an owner between two
  handler calls behind a healthy lock, with \<open>n\<close> outputs queued and a handler that returns, hands
  exactly those outputs to the handler in order and returns \<open>Drained\<close> within \<open>2 n + 1\<close> steps,
  with the queue empty and dispatch free.
\<close>

theorem linearized_dispatch_terminates:
  assumes "schedule (lin_step step evidence_of) (linearized_start m) tr s"
    and "sys_invocations s k = Some (AtNext ow)"
    and "\<not> lock_poisoned (sys_executor s)"
  shows "\<exists>ex'. dispatch_alone (Suc (2 * length (le_outputs (guarded (sys_executor s))))) (AtNext ow)
             (sys_executor s) =
           (le_outputs (guarded (sys_executor s)), Returned DispatchDrained, ex') \<and>
         le_outputs (guarded ex') = [] \<and> le_dispatch (guarded ex') = DispatchIdle"
proof -
  have "armed ow" using linearized_schedule.inv_schedule [OF assms(1)] assms(2)
    by (auto simp: dispatch_exclusive_def)
  from dispatch_alone_drains [OF this assms(3)] show ?thesis by simp
qed

subsection \<open>Instances\<close>

text \<open>
  A running sum: 3 is submitted and its dispatcher starts; 1 is submitted while the first owner is
  active, and the second dispatcher contributes to it.
\<close>

definition sum_schedule :: "(nat, nat, nat) LinearizedLabel list" where
  "sum_schedule =
     [Submit 3 (Inr 3), CallDispatch 0, Advance 0 AtAcquire (AtNext \<lparr>armed = True\<rparr>),
      Submit 1 (Inr 4), CallDispatch 1, Advance 1 AtAcquire (Returned OwnedElsewhere),
      Advance 0 (AtNext \<lparr>armed = True\<rparr>) (AtHandle \<lparr>armed = True\<rparr> 3),
      Advance 0 (AtHandle \<lparr>armed = True\<rparr> 3) (AtNext \<lparr>armed = True\<rparr>)]"

definition sum_rest :: "(nat, nat, nat) LinearizedLabel list" where
  "sum_rest =
     [Advance 0 (AtNext \<lparr>armed = True\<rparr>) (AtHandle \<lparr>armed = True\<rparr> 4),
      Advance 0 (AtHandle \<lparr>armed = True\<rparr> 4) (AtNext \<lparr>armed = True\<rparr>),
      Advance 0 (AtNext \<lparr>armed = True\<rparr>) (Returned DispatchDrained)]"

definition sum_middle :: "(nat, nat, nat) LinearizedSystem" where
  "sum_middle =
     \<lparr>sys_executor = mutex_new \<lparr>le_machine = LmReady 4, le_outputs = [4], le_evidence = Some 4,
        le_dispatch = Dispatching\<rparr>,
      sys_invocations = [0 \<mapsto> AtNext \<lparr>armed = True\<rparr>, 1 \<mapsto> Returned OwnedElsewhere]\<rparr>"

definition sum_final :: "(nat, nat, nat) LinearizedSystem" where
  "sum_final =
     \<lparr>sys_executor = mutex_new \<lparr>le_machine = LmReady 4, le_outputs = [], le_evidence = Some 4,
        le_dispatch = DispatchIdle\<rparr>,
      sys_invocations = [0 \<mapsto> Returned DispatchDrained, 1 \<mapsto> Returned OwnedElsewhere]\<rparr>"

lemma sum_schedule_runs: "schedule (lin_step sum_step Inr) (linearized_start 0) sum_schedule sum_middle"
  by (simp add: sum_schedule_def sum_middle_def linearized_start_def executor_defs lock_def
      unlock_def mutex_new_def sum_step_def fun_upd_twist split_option_ex)

lemma sum_rest_runs: "schedule (lin_step sum_step Inr) sum_middle sum_rest sum_final"
  by (simp add: sum_rest_def sum_middle_def sum_final_def executor_defs lock_def unlock_def
      mutex_new_def fun_upd_twist split_option_ex)

lemmas sum_runs = schedule_append [THEN iffD2, OF exI, OF conjI, OF sum_schedule_runs sum_rest_runs]

theorem linearized_history_witness:
  "\<exists>outs m'. run_machine sum_step 0 [3, 1] = Inr (outs, m') \<and> outs = [3] @ [4]"
  using linearized_history [OF sum_schedule_runs] by (auto simp: sum_schedule_def sum_middle_def accepted_def taken_outputs_def)

theorem linearized_single_dispatcher_witness:
  "\<exists>j. owner sum_middle j"
  using linearized_single_dispatcher [OF sum_schedule_runs, of 0 1] by (simp add: sum_middle_def)

theorem linearized_no_output_stranded_witness:
  "\<exists>m'. run_machine sum_step 0 [3, 1] = Inr ([3, 4], m')"
proof -
  have "finished_outputs (sum_schedule @ sum_rest) = [3, 4]"
    "map fst (accepted (sum_schedule @ sum_rest)) = [3, 1]"
    "\<not> undispatched (sum_schedule @ sum_rest)"
    "\<not> list_ex handler_panic (sum_schedule @ sum_rest)"
    by (simp_all add: sum_schedule_def sum_rest_def finished_outputs_def accepted_def undispatched_def)
  moreover have "sys_invocations sum_final k = Some pc \<Longrightarrow> \<not> running pc" for k pc
    by (auto simp: sum_final_def running_def split: if_splits)
  moreover have "\<not> lock_poisoned (sys_executor sum_final)" by (simp add: sum_final_def)
  ultimately show ?thesis using linearized_no_output_stranded [OF sum_runs] by metis
qed

theorem linearized_submit_panics_witness:
  "\<exists>s. schedule (lin_step sum_step Inr) (linearized_start 0) (sum_schedule @ [Submit 0 (Inl (Panic ''zero''))]) s \<and>
     lock_poisoned (sys_executor s)"
proof -
  obtain ex where "linearized_submit sum_step Inr (sys_executor sum_middle) 0 = (Inl (Panic ''zero''), ex)"
    by (simp add: sum_middle_def linearized_submit_def lock_def mutex_new_def sum_step_def)
  then have "schedule (lin_step sum_step Inr) (linearized_start 0)
      (sum_schedule @ [Submit 0 (Inl (Panic ''zero''))]) (sum_middle\<lparr>sys_executor := ex\<rparr>)"
    by (intro schedule_step [OF sum_schedule_runs] lin_submit)
  from this linearized_submit_panics [OF this] show ?thesis by blast
qed

theorem linearized_dispatch_terminates_witness:
  "\<exists>ex'. dispatch_alone 3 (AtNext \<lparr>armed = True\<rparr>) (sys_executor sum_middle) =
     ([4], Returned DispatchDrained, ex')"
  using linearized_dispatch_terminates [OF sum_schedule_runs, of 0 "\<lparr>armed = True\<rparr>"]
  by (auto simp: sum_middle_def numeral_3_eq_3 simp del: dispatch_alone.simps)

end
