(* ===== verification/Serialized_Executor.thy ===== *)
theory Serialized_Executor
  imports Exclusive_Executor
begin

section \<open>Serialized run-to-completion execution\<close>

text \<open>
  \<open>SerializedExecutor\<close> of \<open>crates/driver/src/lib.rs\<close>.  \<open>Arc<TurnCompletion>\<close> is an address in the
  list \<open>sx_completions\<close> of outcomes; its own mutex guards one assignment or read, which cannot
  panic, and \<open>notify_one\<close> only wakes the waiter, so a completion is its outcome.  \<open>submit\<close> and the
  \<open>drain\<close> loop it runs as owner are the program of a \<open>Turn\<close>, advanced one locked section,
  transition or handler call at a time by \<open>serial_turn_step\<close>; \<open>ser_step\<close> interleaves submissions in
  every order (a reentrant submission from a handler is a further one).
\<close>

subsection \<open>State and operations\<close>

datatype TurnOutcome = OutCompleted | OutPoisoned

datatype TurnReceipt = TurnReceipt nat

datatype TurnState = TurnIdle | TurnRunning | TurnPoisoned

record ('m, 'i) SerializedExecution =
  se_machine :: "'m option"
  se_inputs :: "('i \<times> nat) list"
  se_turn :: TurnState

record ('m, 'i) SerializedExecutor =
  sx_execution :: "('m, 'i) SerializedExecution Mutex"
  sx_completions :: "TurnOutcome option list"

definition serialized_new :: "'m \<Rightarrow> ('m, 'i) SerializedExecutor" where
  "serialized_new machine =
     \<lparr>sx_execution = mutex_new \<lparr>se_machine = Some machine, se_inputs = [], se_turn = TurnIdle\<rparr>,
      sx_completions = []\<rparr>"

definition completion_new :: "('m, 'i) SerializedExecutor \<Rightarrow> nat \<times> ('m, 'i) SerializedExecutor" where
  "completion_new self =
     (length (sx_completions self), self\<lparr>sx_completions := sx_completions self @ [None]\<rparr>)"

definition receipt_outcome :: "('m, 'i) SerializedExecutor \<Rightarrow> TurnReceipt \<Rightarrow> TurnOutcome option" where
  "receipt_outcome self receipt = (case receipt of TurnReceipt c \<Rightarrow> sx_completions self ! c)"

definition complete ::
  "nat \<Rightarrow> TurnOutcome \<Rightarrow> ('m, 'i) SerializedExecutor \<Rightarrow> ('m, 'i) SerializedExecutor" where
  "complete completion outcome self =
     self\<lparr>sx_completions := (sx_completions self)[completion := Some outcome]\<rparr>"

text \<open>
  The locked section of \<open>submit\<close>: refused with its input, or queued with a flag that says whether
  this caller now owns the drain.
\<close>

definition serialized_enqueue ::
  "('m, 'i) SerializedExecutor \<Rightarrow> 'i \<Rightarrow>
     (panic + ('i PoisonedInput + TurnReceipt \<times> bool)) \<times> ('m, 'i) SerializedExecutor" where
  "serialized_enqueue self0 input =
     (let (completion, self) = completion_new self0 in
      case lock (sx_execution self) ''executor lock poisoned'' of
        Inl p \<Rightarrow> (Inl p, self)
      | Inr execution \<Rightarrow>
          let queued = execution\<lparr>se_inputs := se_inputs execution @ [(input, completion)]\<rparr> in
          case se_turn execution of
            TurnPoisoned \<Rightarrow> (Inr (Inl (PoisonedInput input)), self)
          | TurnRunning \<Rightarrow>
              (Inr (Inr (TurnReceipt completion, False)),
               self\<lparr>sx_execution := unlock (sx_execution self) queued\<rparr>)
          | TurnIdle \<Rightarrow>
              (Inr (Inr (TurnReceipt completion, True)),
               self\<lparr>sx_execution := unlock (sx_execution self) (queued\<lparr>se_turn := TurnRunning\<rparr>)\<rparr>))"

subsection \<open>Drain ownership\<close>

record SerializedOwnership =
  so_execution :: bool
  so_active :: "nat option"

definition ownership_new :: SerializedOwnership where
  "ownership_new = \<lparr>so_execution = True, so_active = None\<rparr>"

definition take_turn ::
  "SerializedOwnership \<Rightarrow> ('m, 'i) SerializedExecutor \<Rightarrow>
     (panic + ('m \<times> 'i \<times> nat) option) \<times> SerializedOwnership \<times> ('m, 'i) SerializedExecutor" where
  "take_turn ownership self =
     (if \<not> so_execution ownership then (Inr None, ownership, self)
      else case lock (sx_execution self) ''executor lock poisoned'' of
        Inl p \<Rightarrow> (Inl p, ownership, self)
      | Inr state \<Rightarrow>
          (case se_inputs state of
             [] \<Rightarrow>
               (Inr None, ownership\<lparr>so_execution := False\<rparr>,
                self\<lparr>sx_execution := unlock (sx_execution self) (state\<lparr>se_turn := TurnIdle\<rparr>)\<rparr>)
           | (input, completion) # rest \<Rightarrow>
               let popped = state\<lparr>se_inputs := rest, se_machine := None\<rparr> in
               case se_machine state of
                 None \<Rightarrow>
                   (Inl (Panic ''executor machine missing''), ownership,
                    self\<lparr>sx_execution := unwind (sx_execution self) popped\<rparr>)
               | Some machine \<Rightarrow>
                   (Inr (Some (machine, input, completion)), ownership\<lparr>so_active := Some completion\<rparr>,
                    self\<lparr>sx_execution := unlock (sx_execution self) popped\<rparr>)))"

definition install ::
  "SerializedOwnership \<Rightarrow> 'm \<Rightarrow> nat \<Rightarrow> ('m, 'i) SerializedExecutor \<Rightarrow>
     (panic + unit) \<times> ('m, 'i) SerializedExecutor" where
  "install ownership machine completion self =
     (if \<not> so_execution ownership then (Inl (Panic ''ownership armed''), self)
      else case lock (sx_execution self) ''executor lock poisoned'' of
        Inl p \<Rightarrow> (Inl p, self)
      | Inr state \<Rightarrow>
          let self' = self\<lparr>sx_execution := unlock (sx_execution self) (state\<lparr>se_machine := Some machine\<rparr>)\<rparr> in
          case so_active ownership of
            None \<Rightarrow> (Inl (Panic ''active turn''), self')
          | Some active \<Rightarrow>
              if active = completion then (Inr (), self')
              else (Inl (Panic ''assertion failed''), self'))"

definition turn_completed :: "SerializedOwnership \<Rightarrow> SerializedOwnership" where
  "turn_completed ownership = ownership\<lparr>so_active := None\<rparr>"

definition drop_ownership ::
  "SerializedOwnership \<Rightarrow> ('m, 'i) SerializedExecutor \<Rightarrow> ('m, 'i) SerializedExecutor" where
  "drop_ownership ownership self =
     (if \<not> so_execution ownership then self
      else
        let state = lock_or_inner (sx_execution self);
            resolved = (case so_active ownership of None \<Rightarrow> self | Some active \<Rightarrow> complete active OutPoisoned self);
            drained = foldl (\<lambda>s (_, receipt). complete receipt OutPoisoned s) resolved (se_inputs state)
        in drained\<lparr>sx_execution :=
             unlock (sx_execution self) (state\<lparr>se_turn := TurnPoisoned, se_inputs := []\<rparr>)\<rparr>)"

subsection \<open>One submission\<close>

text \<open>
  The control points of \<open>submit\<close> with its \<open>drain\<close>.  A drain owner carries its ownership and the
  receipt it will return.
\<close>

datatype ('m, 'i, 'o) Turn =
    AtSubmit 'i
  | AtTake SerializedOwnership TurnReceipt
  | AtStep SerializedOwnership TurnReceipt 'm 'i nat
  | AtInstall SerializedOwnership TurnReceipt 'o 'm nat
  | AtHandler SerializedOwnership TurnReceipt 'o nat
  | AtComplete SerializedOwnership TurnReceipt nat
  | SubmitReturned "'i PoisonedInput + TurnReceipt"
  | SubmitUnwound panic

fun serial_turn_step ::
  "('m \<Rightarrow> 'i \<Rightarrow> panic + 'o \<times> 'm) \<Rightarrow> panic option \<Rightarrow> ('m, 'i, 'o) Turn \<Rightarrow> ('m, 'i) SerializedExecutor \<Rightarrow>
     ('m, 'i, 'o) Turn \<times> ('m, 'i) SerializedExecutor" where
  "serial_turn_step step handled (AtSubmit input) self =
     (case serialized_enqueue self input of
        (Inl p, self') \<Rightarrow> (SubmitUnwound p, self')
      | (Inr (Inl refused), self') \<Rightarrow> (SubmitReturned (Inl refused), self')
      | (Inr (Inr (receipt, owns)), self') \<Rightarrow>
          (if owns then AtTake ownership_new receipt else SubmitReturned (Inr receipt), self'))"
| "serial_turn_step step handled (AtTake ownership receipt) self =
     (case take_turn ownership self of
        (Inl p, ownership', self') \<Rightarrow> (SubmitUnwound p, drop_ownership ownership' self')
      | (Inr None, ownership', self') \<Rightarrow>
          (SubmitReturned (Inr receipt), drop_ownership ownership' self')
      | (Inr (Some (machine, input, completion)), ownership', self') \<Rightarrow>
          (AtStep ownership' receipt machine input completion, self'))"
| "serial_turn_step step handled (AtStep ownership receipt machine input completion) self =
     (case step machine input of
        Inl p \<Rightarrow> (SubmitUnwound p, drop_ownership ownership self)
      | Inr (out, successor) \<Rightarrow> (AtInstall ownership receipt out successor completion, self))"
| "serial_turn_step step handled (AtInstall ownership receipt out successor completion) self =
     (case install ownership successor completion self of
        (Inl p, self') \<Rightarrow> (SubmitUnwound p, drop_ownership ownership self')
      | (Inr _, self') \<Rightarrow> (AtHandler ownership receipt out completion, self'))"
| "serial_turn_step step handled (AtHandler ownership receipt out completion) self =
     (case handled of
        Some p \<Rightarrow> (SubmitUnwound p, drop_ownership ownership self)
      | None \<Rightarrow> (AtComplete ownership receipt completion, self))"
| "serial_turn_step step handled (AtComplete ownership receipt completion) self =
     (AtTake (turn_completed ownership) receipt, complete completion OutCompleted self)"
| "serial_turn_step step handled (SubmitReturned r) self = (SubmitReturned r, self)"
| "serial_turn_step step handled (SubmitUnwound p) self = (SubmitUnwound p, self)"

lemmas [executor_defs] =
  serialized_new_def completion_new_def complete_def serialized_enqueue_def ownership_new_def
  take_turn_def install_def turn_completed_def drop_ownership_def

subsection \<open>Schedules\<close>

record ('m, 'i, 'o) SerializedSystem =
  ser_executor :: "('m, 'i) SerializedExecutor"
  ser_turns :: "nat \<Rightarrow> ('m, 'i, 'o) Turn option"

datatype ('m, 'i, 'o) SerializedLabel =
    CallSubmit nat 'i
  | AdvanceTurn nat "('m, 'i, 'o) Turn" "('m, 'i, 'o) Turn"

definition serialized_start :: "'m \<Rightarrow> ('m, 'i, 'o) SerializedSystem" where
  "serialized_start m = \<lparr>ser_executor = serialized_new m, ser_turns = \<lambda>_. None\<rparr>"

inductive ser_step ::
  "('m \<Rightarrow> 'i \<Rightarrow> panic + 'o \<times> 'm) \<Rightarrow> ('m, 'i, 'o) SerializedSystem \<Rightarrow> ('m, 'i, 'o) SerializedLabel \<Rightarrow>
     ('m, 'i, 'o) SerializedSystem \<Rightarrow> bool"
  for step :: "'m \<Rightarrow> 'i \<Rightarrow> panic + 'o \<times> 'm" where
  ser_call:
    "ser_turns s k = None \<Longrightarrow>
       ser_step step s (CallSubmit k i) (s\<lparr>ser_turns := (ser_turns s)(k \<mapsto> AtSubmit i)\<rparr>)"
| ser_advance:
    "ser_turns s k = Some pc \<Longrightarrow>
       serial_turn_step step handled pc (ser_executor s) = (pc', ex) \<Longrightarrow>
       ser_step step s (AdvanceTurn k pc pc')
         (s\<lparr>ser_executor := ex, ser_turns := (ser_turns s)(k \<mapsto> pc')\<rparr>)"

inductive_cases ser_stepE: "ser_step step s l s'"
inductive_simps ser_call_iff [simp]: "ser_step step s (CallSubmit k i) s'"
inductive_simps ser_advance_iff [simp]: "ser_step step s (AdvanceTurn k pc pc') s'"

lemma ser_step_cases [consumes 1, case_names call advance]:
  assumes "ser_step step s l s'"
  obtains k i where "l = CallSubmit k i" "ser_turns s k = None"
      "s' = s\<lparr>ser_turns := (ser_turns s)(k \<mapsto> AtSubmit i)\<rparr>"
  | k pc handled pc' ex where "l = AdvanceTurn k pc pc'"
      "s' = s\<lparr>ser_executor := ex, ser_turns := (ser_turns s)(k \<mapsto> pc')\<rparr>"
      "ser_turns s k = Some pc" "serial_turn_step step handled pc (ser_executor s) = (pc', ex)"
  using assms by (elim ser_stepE) blast+

text \<open>Inputs queued, turns begun and outputs whose handler returned, in the order of a schedule.\<close>

fun queued_label :: "('m, 'i, 'o) SerializedLabel \<Rightarrow> ('i \<times> nat) list" where
  "queued_label (AdvanceTurn k (AtSubmit i) (AtTake _ (TurnReceipt c))) = [(i, c)]"
| "queued_label (AdvanceTurn k (AtSubmit i) (SubmitReturned (Inr (TurnReceipt c)))) = [(i, c)]"
| "queued_label _ = []"

fun begun_label :: "('m, 'i, 'o) SerializedLabel \<Rightarrow> ('i \<times> nat) list" where
  "begun_label (AdvanceTurn k (AtTake _ _) (AtStep _ _ _ i c)) = [(i, c)]"
| "begun_label _ = []"

fun handled_label :: "('m, 'i, 'o) SerializedLabel \<Rightarrow> 'o list" where
  "handled_label (AdvanceTurn k (AtHandler _ _ out _) (AtComplete _ _ _)) = [out]"
| "handled_label _ = []"

definition queued_turns :: "('m, 'i, 'o) SerializedLabel list \<Rightarrow> ('i \<times> nat) list" where
  "queued_turns tr = concat (map queued_label tr)"

definition begun_turns :: "('m, 'i, 'o) SerializedLabel list \<Rightarrow> ('i \<times> nat) list" where
  "begun_turns tr = concat (map begun_label tr)"

definition handled_outputs :: "('m, 'i, 'o) SerializedLabel list \<Rightarrow> 'o list" where
  "handled_outputs tr = concat (map handled_label tr)"

lemma serial_schedule_simps [simp]:
  "queued_turns [] = []" "queued_turns (tr @ tr') = queued_turns tr @ queued_turns tr'"
  "queued_turns [l] = queued_label l"
  "begun_turns [] = []" "begun_turns (tr @ tr') = begun_turns tr @ begun_turns tr'"
  "begun_turns [l] = begun_label l"
  "handled_outputs [] = []" "handled_outputs (tr @ tr') = handled_outputs tr @ handled_outputs tr'"
  "handled_outputs [l] = handled_label l"
  by (simp_all add: queued_turns_def begun_turns_def handled_outputs_def)

subsection \<open>Receipts\<close>

definition all_outcomes :: "TurnOutcome option list \<Rightarrow> ('i \<times> nat) list \<Rightarrow> TurnOutcome option \<Rightarrow> bool" where
  "all_outcomes comps xs v \<longleftrightarrow> (\<forall>c\<in>snd ` set xs. comps ! c = v)"

definition receipts_ok :: "TurnOutcome option list \<Rightarrow> ('i \<times> nat) list \<Rightarrow> bool" where
  "receipts_ok comps xs \<longleftrightarrow> distinct (map snd xs) \<and> (\<forall>c\<in>snd ` set xs. c < length comps)"

lemma all_outcomes_simps [simp]:
  "all_outcomes comps [] v"
  "all_outcomes comps (x # xs) v \<longleftrightarrow> comps ! snd x = v \<and> all_outcomes comps xs v"
  "all_outcomes comps (xs @ ys) v \<longleftrightarrow> all_outcomes comps xs v \<and> all_outcomes comps ys v"
  by (auto simp: all_outcomes_def)

lemma all_outcomes_update [simp]:
  "c \<notin> snd ` set xs \<Longrightarrow> all_outcomes (comps[c := v]) xs w = all_outcomes comps xs w"
  unfolding all_outcomes_def by (metis nth_list_update_neq)

lemma all_outcomes_alloc:
  "receipts_ok comps xs \<Longrightarrow> ys = xs \<or> (\<exists>zs. xs = zs @ ys) \<or> (\<exists>zs. xs = ys @ zs) \<Longrightarrow>
     all_outcomes (comps @ [v]) ys w = all_outcomes comps ys w"
  by (auto simp: all_outcomes_def receipts_ok_def nth_append)

lemma receipts_ok_alloc: "receipts_ok comps xs \<Longrightarrow> receipts_ok (comps @ [None]) (xs @ [(i, length comps)])"
  by (force simp: receipts_ok_def)

lemma receipts_ok_alloc': "receipts_ok comps xs \<Longrightarrow> receipts_ok (comps @ [v]) xs"
  by (force simp: receipts_ok_def)

lemma receipts_ok_length: "receipts_ok comps xs \<Longrightarrow> length comps' = length comps \<Longrightarrow> receipts_ok comps' xs"
  by (simp add: receipts_ok_def)

lemma complete_simps [simp]:
  "sx_execution (complete c v self) = sx_execution self"
  "sx_completions (complete c v self) = (sx_completions self)[c := Some v]"
  by (simp_all add: complete_def)

lemma complete_fold [simp]:
  "sx_execution (foldl (\<lambda>s (_, receipt). complete receipt v s) self xs) = sx_execution self"
  "length (sx_completions (foldl (\<lambda>s (_, receipt). complete receipt v s) self xs)) =
     length (sx_completions self)"
  by (induction xs arbitrary: self) (auto split: prod.splits)

lemma complete_fold_nth:
  "c < length (sx_completions self) \<Longrightarrow>
     sx_completions (foldl (\<lambda>s (_, receipt). complete receipt v s) self xs) ! c =
       (if c \<in> snd ` set xs then Some v else sx_completions self ! c)"
  by (induction xs arbitrary: self) (auto split: prod.splits)

text \<open>Dropping an armed ownership poisons exactly the active turn and the queued ones.\<close>

lemma drop_ownership_armed:
  assumes "so_execution ow" and "so_active ow = Some c"
  shows "sx_execution (drop_ownership ow self) =
      unlock (sx_execution self)
        ((guarded (sx_execution self))\<lparr>se_turn := TurnPoisoned, se_inputs := []\<rparr>)"
    and "length (sx_completions (drop_ownership ow self)) = length (sx_completions self)"
    and "d < length (sx_completions self) \<Longrightarrow>
      sx_completions (drop_ownership ow self) ! d =
        (if d = c \<or> d \<in> snd ` set (se_inputs (guarded (sx_execution self))) then Some OutPoisoned else sx_completions self ! d)"
  using assms
  by (auto simp: drop_ownership_def Let_def complete_fold_nth nth_list_update)

subsection \<open>Invariants of every schedule\<close>

fun drains :: "('m, 'i, 'o) Turn \<Rightarrow> bool" where
  "drains (AtSubmit _) = False"
| "drains (SubmitReturned _) = False"
| "drains (SubmitUnwound _) = False"
| "drains _ = True"

definition drain_owners :: "('m, 'i, 'o) SerializedSystem \<Rightarrow> nat set" where
  "drain_owners s = {k. \<exists>pc. ser_turns s k = Some pc \<and> drains pc}"

text \<open>
  Where the drain owner stands between two machine states: \<open>finished\<close> turns were completed with
  outputs \<open>outs\<close> and led to machine \<open>m\<close>; \<open>begun\<close> turns are one more while one is under way.
\<close>

fun turn_inv ::
  "('m \<Rightarrow> 'i \<Rightarrow> panic + 'o \<times> 'm) \<Rightarrow> ('i \<times> nat) list \<Rightarrow> 'o list \<Rightarrow> 'm \<Rightarrow> 'm option \<Rightarrow> ('i \<times> nat) list \<Rightarrow>
     'o list \<Rightarrow> ('m, 'i, 'o) Turn \<Rightarrow> bool" where
  "turn_inv step finished outs m hosts begun handled (AtTake ow _) \<longleftrightarrow>
     ow = ownership_new \<and> hosts = Some m \<and> begun = finished \<and> handled = outs"
| "turn_inv step finished outs m hosts begun handled (AtStep ow _ m' i c) \<longleftrightarrow>
     ow = \<lparr>so_execution = True, so_active = Some c\<rparr> \<and> hosts = None \<and> m' = m \<and>
     begun = finished @ [(i, c)] \<and> handled = outs"
| "turn_inv step finished outs m hosts begun handled (AtInstall ow _ out successor c) \<longleftrightarrow>
     ow = \<lparr>so_execution = True, so_active = Some c\<rparr> \<and> hosts = None \<and>
     (\<exists>i. step m i = Inr (out, successor) \<and> begun = finished @ [(i, c)]) \<and> handled = outs"
| "turn_inv step finished outs m hosts begun handled (AtHandler ow _ out c) \<longleftrightarrow>
     ow = \<lparr>so_execution = True, so_active = Some c\<rparr> \<and>
     (\<exists>i successor. hosts = Some successor \<and> step m i = Inr (out, successor) \<and>
        begun = finished @ [(i, c)]) \<and> handled = outs"
| "turn_inv step finished outs m hosts begun handled (AtComplete ow _ c) \<longleftrightarrow>
     ow = \<lparr>so_execution = True, so_active = Some c\<rparr> \<and>
     (\<exists>i successor out. hosts = Some successor \<and> step m i = Inr (out, successor) \<and>
        begun = finished @ [(i, c)] \<and> handled = outs @ [out])"
| "turn_inv _ _ _ _ _ _ _ _ \<longleftrightarrow> False"

definition idle_phase ::
  "('i \<times> nat) list \<Rightarrow> 'o list \<Rightarrow> 'm \<Rightarrow> ('m, 'i, 'o) SerializedLabel list \<Rightarrow> ('m, 'i, 'o) SerializedSystem \<Rightarrow> bool"
where
  "idle_phase finished outs m tr s \<longleftrightarrow>
     (let ex = guarded (sx_execution (ser_executor s)) in
      drain_owners s = {} \<and> ex = \<lparr>se_machine = Some m, se_inputs = [], se_turn = TurnIdle\<rparr> \<and>
      queued_turns tr = finished \<and> begun_turns tr = finished \<and> handled_outputs tr = outs)"

definition running_phase ::
  "('m \<Rightarrow> 'i \<Rightarrow> panic + 'o \<times> 'm) \<Rightarrow> ('i \<times> nat) list \<Rightarrow> 'o list \<Rightarrow> 'm \<Rightarrow>
     ('m, 'i, 'o) SerializedLabel list \<Rightarrow> ('m, 'i, 'o) SerializedSystem \<Rightarrow> nat \<Rightarrow> ('m, 'i, 'o) Turn \<Rightarrow> bool"
where
  "running_phase step finished outs m tr s k pc \<longleftrightarrow>
     (let ex = guarded (sx_execution (ser_executor s)) in
      drain_owners s = {k} \<and> ser_turns s k = Some pc \<and> se_turn ex = TurnRunning \<and>
      turn_inv step finished outs m (se_machine ex) (begun_turns tr) (handled_outputs tr) pc \<and>
      (\<exists>rest. queued_turns tr = finished @ rest \<and> queued_turns tr = begun_turns tr @ se_inputs ex \<and>
         all_outcomes (sx_completions (ser_executor s)) rest None))"

definition poisoned_phase ::
  "('i \<times> nat) list \<Rightarrow> 'o list \<Rightarrow> ('m, 'i, 'o) SerializedLabel list \<Rightarrow> ('m, 'i, 'o) SerializedSystem \<Rightarrow> bool"
where
  "poisoned_phase finished outs tr s \<longleftrightarrow>
     (let ex = guarded (sx_execution (ser_executor s)) in
      drain_owners s = {} \<and> se_inputs ex = [] \<and> se_turn ex = TurnPoisoned \<and>
      (\<exists>culprit lost. queued_turns tr = finished @ culprit # lost \<and>
         begun_turns tr = finished @ [culprit] \<and> handled_outputs tr = outs \<and>
         all_outcomes (sx_completions (ser_executor s)) (culprit # lost) (Some OutPoisoned)))"

definition serialized_inv ::
  "('m \<Rightarrow> 'i \<Rightarrow> panic + 'o \<times> 'm) \<Rightarrow> 'm \<Rightarrow> ('m, 'i, 'o) SerializedLabel list \<Rightarrow>
     ('m, 'i, 'o) SerializedSystem \<Rightarrow> bool" where
  "serialized_inv step m0 tr s \<longleftrightarrow>
     \<not> lock_poisoned (sx_execution (ser_executor s)) \<and>
     receipts_ok (sx_completions (ser_executor s)) (queued_turns tr) \<and>
     (\<exists>finished outs m. run_machine step m0 (map fst finished) = Inr (outs, m) \<and>
        all_outcomes (sx_completions (ser_executor s)) finished (Some OutCompleted) \<and>
        (idle_phase finished outs m tr s \<or> (\<exists>k pc. running_phase step finished outs m tr s k pc) \<or>
         poisoned_phase finished outs tr s))"

lemma serialized_invI:
  assumes "\<not> lock_poisoned (sx_execution (ser_executor s))"
    and "receipts_ok (sx_completions (ser_executor s)) (queued_turns tr)"
    and "run_machine step m0 (map fst finished) = Inr (outs, m)"
    and "all_outcomes (sx_completions (ser_executor s)) finished (Some OutCompleted)"
    and "idle_phase finished outs m tr s \<or> running_phase step finished outs m tr s k pc \<or>
      poisoned_phase finished outs tr s"
  shows "serialized_inv step m0 tr s"
  using assms unfolding serialized_inv_def by blast

lemma drain_owners_advance:
  "drain_owners (s\<lparr>ser_executor := ex, ser_turns := (ser_turns s)(k \<mapsto> pc)\<rparr>) =
     (if drains pc then insert k (drain_owners s) else drain_owners s - {k})"
  by (auto simp: drain_owners_def split: if_splits)

lemma drop_poisons:
  assumes ok: "\<not> lock_poisoned (sx_execution self)" "receipts_ok (sx_completions self) (queued_turns tr)"
    and run: "run_machine step m0 (map fst finished) = Inr (outs, m)"
      "all_outcomes (sx_completions self) finished (Some OutCompleted)"
    and turn: "queued_turns tr = finished @ (i, c) # se_inputs (guarded (sx_execution self))"
      "begun_turns tr = finished @ [(i, c)]" "handled_outputs tr = outs"
    and ow: "ow = \<lparr>so_execution = True, so_active = Some c\<rparr>"
    and owners: "drain_owners s = {k}"
    and s': "s' = s\<lparr>ser_executor := drop_ownership ow self, ser_turns := (ser_turns s)(k \<mapsto> SubmitUnwound p)\<rparr>"
    and l: "queued_turns [l] = []" "begun_turns [l] = []" "handled_outputs [l] = []"
  shows "serialized_inv step m0 (tr @ [l]) s'"
proof -
  have armed: "so_execution ow" "so_active ow = Some c" using ow by simp_all
  note drop = drop_ownership_armed [OF armed, where self = self]
  have bound: "d < length (sx_completions self)" if "d \<in> snd ` set (queued_turns tr)" for d
    using ok(2) that unfolding receipts_ok_def by blast
  have apart: "snd ` set finished \<inter> snd ` set ((i, c) # se_inputs (guarded (sx_execution self))) = {}"
    using ok(2) unfolding receipts_ok_def turn(1) by auto
  have completed: "all_outcomes (sx_completions (drop_ownership ow self)) finished (Some OutCompleted)"
    unfolding all_outcomes_def
  proof
    fix d assume d: "d \<in> snd ` set finished"
    then have "d \<notin> snd ` set ((i, c) # se_inputs (guarded (sx_execution self)))" using apart by blast
    then have "sx_completions (drop_ownership ow self) ! d = sx_completions self ! d"
      using drop(3) [of d] bound [of d] d turn(1) by auto
    then show "sx_completions (drop_ownership ow self) ! d = Some OutCompleted"
      using run(2) d unfolding all_outcomes_def by metis
  qed
  have "all_outcomes (sx_completions (drop_ownership ow self))
      ((i, c) # se_inputs (guarded (sx_execution self))) (Some OutPoisoned)"
    unfolding all_outcomes_def
  proof
    fix d assume d: "d \<in> snd ` set ((i, c) # se_inputs (guarded (sx_execution self)))"
    then show "sx_completions (drop_ownership ow self) ! d = Some OutPoisoned"
      using drop(3) [of d] bound [of d] turn(1) by auto
  qed
  then have "poisoned_phase finished outs (tr @ [l]) s'"
    using s' drop(1) turn l owners
    by (auto simp: poisoned_phase_def Let_def drain_owners_advance
        simp del: all_outcomes_simps(2))
  moreover have "receipts_ok (sx_completions (drop_ownership ow self)) (queued_turns (tr @ [l]))"
    using ok(2) drop(2) l(1) by (simp add: receipts_ok_length)
  ultimately show ?thesis
    using s' drop(1) ok(1) completed by (intro serialized_invI [OF _ _ run(1)]) auto
qed

text \<open>The drain owner takes one step.\<close>

lemma serialized_owner_step:
  assumes inv: "\<not> lock_poisoned (sx_execution (ser_executor s))"
      "receipts_ok (sx_completions (ser_executor s)) (queued_turns tr)"
      "run_machine step m0 (map fst finished) = Inr (outs, m)"
      "all_outcomes (sx_completions (ser_executor s)) finished (Some OutCompleted)"
    and phase: "running_phase step finished outs m tr s k pc"
    and st: "serial_turn_step step handled pc (ser_executor s) = (pc', ex)"
    and s': "s' = s\<lparr>ser_executor := ex, ser_turns := (ser_turns s)(k \<mapsto> pc')\<rparr>"
  shows "serialized_inv step m0 (tr @ [AdvanceTurn k pc pc']) s'"
proof -
  let ?ex = "ser_executor s" and ?l = "AdvanceTurn k pc pc'"
  let ?state = "guarded (sx_execution ?ex)"
  from phase obtain rest where rest: "queued_turns tr = finished @ rest"
      "queued_turns tr = begun_turns tr @ se_inputs ?state" "all_outcomes (sx_completions ?ex) rest None"
    and ph: "drain_owners s = {k}" "se_turn ?state = TurnRunning"
      "turn_inv step finished outs m (se_machine ?state) (begun_turns tr) (handled_outputs tr) pc"
    by (auto simp: running_phase_def Let_def)
  have owners: "drain_owners s' = (if drains pc' then {k} else {})"
    using s' ph(1) by (simp add: drain_owners_advance)
  have running: "serialized_inv step m0 (tr @ [?l]) s'"
    if "running_phase step finished outs m (tr @ [?l]) s' k pc'"
      "sx_completions ex = sx_completions ?ex" "queued_turns [?l] = []"
      "\<not> lock_poisoned (sx_execution ex)"
    using that inv s' by (intro serialized_invI [OF _ _ inv(3)]) auto
  have dropped: "serialized_inv step m0 (tr @ [?l]) s'"
    if "ex = drop_ownership \<lparr>so_execution = True, so_active = Some c\<rparr> ?ex" "pc' = SubmitUnwound p"
      "begun_turns tr = finished @ [(i, c)]" "handled_outputs tr = outs"
      "queued_turns [?l] = []" "begun_turns [?l] = []" "handled_outputs [?l] = []" for c p i
  proof (rule drop_poisons [OF inv])
    show "queued_turns tr = finished @ (i, c) # se_inputs ?state" using rest(2) that(3) by simp
  qed (use that s' ph(1) in auto)
  show ?thesis
  proof (cases pc)
    case (AtTake ow r)
    show ?thesis
    proof (cases "se_inputs ?state")
      case Nil
      have "idle_phase finished outs m (tr @ [?l]) s'"
        using AtTake Nil st s' inv(1) ph rest owners
        by (auto simp: idle_phase_def Let_def executor_defs lock_def)
      moreover have "sx_completions ex = sx_completions ?ex" "\<not> lock_poisoned (sx_execution ex)" "queued_label ?l = []"
        using AtTake Nil st inv(1) ph by (auto simp: executor_defs lock_def)
      ultimately show ?thesis using inv s' by (intro serialized_invI [OF _ _ inv(3)]) auto
    next
      case (Cons ic inputs)
      obtain i c where ic: "ic = (i, c)" by (cases ic)
      have "pc' = AtStep \<lparr>so_execution = True, so_active = Some c\<rparr> r m i c"
        "ex = ?ex\<lparr>sx_execution := unlock (sx_execution ?ex)
          (?state\<lparr>se_inputs := inputs, se_machine := None\<rparr>)\<rparr>"
        using AtTake Cons st inv(1) ph ic by (auto simp: executor_defs lock_def Let_def)
      then show ?thesis
        using AtTake Cons s' inv(1) ph rest owners ic
        by (intro running) (auto simp: running_phase_def Let_def ownership_new_def)
    qed
  next
    case (AtStep ow r machine i c)
    show ?thesis
    proof (cases "step machine i")
      case (Inl p)
      show ?thesis by (rule dropped [of c p i]) (use AtStep Inl st ph in auto)
    next
      case (Inr om)
      then obtain out successor where turn: "step machine i = Inr (out, successor)" by (cases om) auto
      then have "pc' = AtInstall ow r out successor c" "ex = ?ex" using AtStep st by auto
      then show ?thesis
        using AtStep turn s' inv(1) ph rest owners
        by (intro running) (auto simp: running_phase_def Let_def)
    qed
  next
    case (AtInstall ow r out successor c)
    have "ow = \<lparr>so_execution = True, so_active = Some c\<rparr>" using ph(3) AtInstall by simp
    then have "pc' = AtHandler ow r out c"
      "ex = ?ex\<lparr>sx_execution := unlock (sx_execution ?ex) (?state\<lparr>se_machine := Some successor\<rparr>)\<rparr>"
      using st inv(1) AtInstall by (simp_all add: install_def lock_def Let_def)
    then show ?thesis
      using AtInstall s' inv(1) ph rest owners
      by (intro running) (auto simp: running_phase_def Let_def)
  next
    case (AtHandler ow r out c)
    show ?thesis
    proof (cases handled)
      case None
      then have "pc' = AtComplete ow r c" "ex = ?ex" using AtHandler st by auto
      then show ?thesis
        using AtHandler s' inv(1) ph rest owners
        by (intro running) (auto simp: running_phase_def Let_def)
    next
      case (Some p)
      from AtHandler ph obtain i where "begun_turns tr = finished @ [(i, c)]" by auto
      then show ?thesis by (intro dropped [of c p i]) (use AtHandler Some st ph in auto)
    qed
  next
    case (AtComplete ow r c)
    then obtain i successor out where turn: "se_machine ?state = Some successor"
        "step m i = Inr (out, successor)" "begun_turns tr = finished @ [(i, c)]"
        "handled_outputs tr = outs @ [out]" "ow = \<lparr>so_execution = True, so_active = Some c\<rparr>"
      using ph by auto
    let ?finished = "finished @ [(i, c)]"
    have pc': "pc' = AtTake ownership_new r" "ex = complete c OutCompleted ?ex"
      using AtComplete st turn by (auto simp: turn_completed_def ownership_new_def)
    have queue: "queued_turns tr = finished @ (i, c) # se_inputs ?state" using rest(2) turn(3) by simp
    then have fresh: "c \<notin> snd ` set finished" "c \<notin> snd ` set (se_inputs ?state)" "c < length (sx_completions ?ex)"
      using inv(2) by (auto simp: receipts_ok_def)
    have run: "run_machine step m0 (map fst ?finished) = Inr (outs @ [out], successor)"
      using inv(3) turn(2) by (simp add: run_machine_append)
    have "all_outcomes (sx_completions ex) ?finished (Some OutCompleted)"
      using inv(4) fresh pc'(2) by simp
    moreover have "running_phase step ?finished (outs @ [out]) successor (tr @ [?l]) s' k pc'"
      using AtComplete pc' s' ph rest owners turn queue fresh
      by (auto simp: running_phase_def Let_def)
    moreover have "receipts_ok (sx_completions ex) (queued_turns (tr @ [?l]))"
      using AtComplete inv(2) pc' by (auto intro: receipts_ok_length)
    ultimately show ?thesis using inv(1) pc'(2) s' by (intro serialized_invI [OF _ _ run]) auto
  qed (use ph in auto)
qed

text \<open>A submission takes its locked section: refused, queued behind an owner, or the new owner.\<close>

lemma enqueue_cases:
  assumes "\<not> lock_poisoned (sx_execution self)"
    and "serial_turn_step step handled (AtSubmit i) self = (pc', ex)"
  defines "c \<equiv> length (sx_completions self)" and "state \<equiv> guarded (sx_execution self)"
  shows "sx_completions ex = sx_completions self @ [None]"
    and "se_turn state = TurnPoisoned \<Longrightarrow>
      pc' = SubmitReturned (Inl (PoisonedInput i)) \<and> sx_execution ex = sx_execution self"
    and "se_turn state = TurnRunning \<Longrightarrow>
      pc' = SubmitReturned (Inr (TurnReceipt c)) \<and>
      sx_execution ex = unlock (sx_execution self) (state\<lparr>se_inputs := se_inputs state @ [(i, c)]\<rparr>)"
    and "se_turn state = TurnIdle \<Longrightarrow>
      pc' = AtTake ownership_new (TurnReceipt c) \<and>
      sx_execution ex =
        unlock (sx_execution self) (state\<lparr>se_inputs := se_inputs state @ [(i, c)], se_turn := TurnRunning\<rparr>)"
  using assms(1,2) unfolding c_def state_def
  by (auto simp: serialized_enqueue_def completion_new_def lock_def Let_def split: TurnState.splits)

lemma all_outcomes_append [simp]:
  "receipts_ok comps (xs @ ys) \<Longrightarrow> all_outcomes (comps @ [v]) xs w = all_outcomes comps xs w"
  "receipts_ok comps (xs @ ys) \<Longrightarrow> all_outcomes (comps @ [v]) ys w = all_outcomes comps ys w"
  by (auto simp: all_outcomes_def receipts_ok_def nth_append)

lemma serialized_submit_step:
  assumes inv: "serialized_inv step m0 tr s"
    and pc: "ser_turns s k = Some (AtSubmit i)"
    and st: "serial_turn_step step handled (AtSubmit i) (ser_executor s) = (pc', ex)"
    and s': "s' = s\<lparr>ser_executor := ex, ser_turns := (ser_turns s)(k \<mapsto> pc')\<rparr>"
  shows "serialized_inv step m0 (tr @ [AdvanceTurn k (AtSubmit i) pc']) s'"
proof -
  let ?ex = "ser_executor s" and ?l = "AdvanceTurn k (AtSubmit i) pc'"
  let ?comps = "sx_completions ?ex" and ?c = "length (sx_completions (ser_executor s))"
  from inv obtain finished outs m where ok: "\<not> lock_poisoned (sx_execution ?ex)"
      "receipts_ok ?comps (queued_turns tr)"
      and run: "run_machine step m0 (map fst finished) = Inr (outs, m)"
      and completed: "all_outcomes ?comps finished (Some OutCompleted)"
      and phase: "idle_phase finished outs m tr s \<or> (\<exists>k pc. running_phase step finished outs m tr s k pc) \<or>
         poisoned_phase finished outs tr s"
    unfolding serialized_inv_def by blast
  note enq = enqueue_cases [OF ok(1) st]
  have free: "k \<notin> drain_owners s" using pc by (simp add: drain_owners_def)
  have owners: "drain_owners s' = (if drains pc' then insert k (drain_owners s) else drain_owners s)"
    using s' free by (simp add: drain_owners_advance)
  from phase show ?thesis
  proof (elim disjE exE)
    assume idle: "idle_phase finished outs m tr s"
    then have facts: "drain_owners s = {}" "queued_turns tr = finished" "begun_turns tr = finished"
        "handled_outputs tr = outs"
        "guarded (sx_execution ?ex) = \<lparr>se_machine = Some m, se_inputs = [], se_turn = TurnIdle\<rparr>"
      by (auto simp: idle_phase_def Let_def)
    then have new: "pc' = AtTake ownership_new (TurnReceipt ?c)"
        "sx_execution ex = unlock (sx_execution ?ex)
          \<lparr>se_machine = Some m, se_inputs = [(i, ?c)], se_turn = TurnRunning\<rparr>"
      using enq(4) by auto
    have "receipts_ok (?comps @ [None]) finished" using ok(2) facts by (intro receipts_ok_alloc') simp
    have "running_phase step finished outs m (tr @ [?l]) s' k pc'"
      using facts new owners s' enq(1) by (auto simp: running_phase_def Let_def)
    moreover have "all_outcomes (?comps @ [None]) finished (Some OutCompleted)"
      using completed ok(2) facts(2) all_outcomes_append(1) [of ?comps finished "[]"] by simp
    ultimately show ?thesis
      using ok facts new s' enq(1) receipts_ok_alloc [OF ok(2), of i]
      by (intro serialized_invI [OF _ _ run]) auto
  next
    fix j pc
    assume running: "running_phase step finished outs m tr s j pc"
    then obtain rest where facts: "drain_owners s = {j}" "ser_turns s j = Some pc"
        "se_turn (guarded (sx_execution ?ex)) = TurnRunning"
        "turn_inv step finished outs m (se_machine (guarded (sx_execution ?ex))) (begun_turns tr)
           (handled_outputs tr) pc"
        "queued_turns tr = finished @ rest"
        "queued_turns tr = begun_turns tr @ se_inputs (guarded (sx_execution ?ex))"
        "all_outcomes ?comps rest None"
      unfolding running_phase_def Let_def by blast
    have new: "pc' = SubmitReturned (Inr (TurnReceipt ?c))"
        "sx_execution ex = unlock (sx_execution ?ex) ((guarded (sx_execution ?ex))
           \<lparr>se_inputs := se_inputs (guarded (sx_execution ?ex)) @ [(i, ?c)]\<rparr>)"
      using enq(3) facts(3) by auto
    have j: "j \<noteq> k" using free facts(1) by auto
    have kept: "all_outcomes (?comps @ [None]) finished (Some OutCompleted)"
        "all_outcomes (?comps @ [None]) rest None"
      using completed facts(5,7) ok(2) by simp_all
    have "\<exists>rest. queued_turns (tr @ [?l]) = finished @ rest \<and> all_outcomes (?comps @ [None]) rest None"
      using facts(5) new(1) kept(2) by (intro exI [of _ "rest @ [(i, ?c)]"]) simp
    then have "running_phase step finished outs m (tr @ [?l]) s' j pc"
      using facts(1-4,6) new owners s' enq(1) j by (simp add: running_phase_def Let_def)
    then show ?thesis
      using ok new s' enq(1) kept(1) receipts_ok_alloc [OF ok(2), of i]
      by (intro serialized_invI [OF _ _ run]) auto
  next
    assume poisoned: "poisoned_phase finished outs tr s"
    then obtain culprit lost where facts: "drain_owners s = {}" "se_inputs (guarded (sx_execution ?ex)) = []"
        "se_turn (guarded (sx_execution ?ex)) = TurnPoisoned"
        "queued_turns tr = finished @ culprit # lost"
        "begun_turns tr = finished @ [culprit]" "handled_outputs tr = outs"
        "all_outcomes ?comps (culprit # lost) (Some OutPoisoned)"
      unfolding poisoned_phase_def Let_def by blast
    have new: "pc' = SubmitReturned (Inl (PoisonedInput i))" "sx_execution ex = sx_execution ?ex"
      using enq(2) facts(3) by auto
    have kept: "all_outcomes (?comps @ [None]) finished (Some OutCompleted)"
        "all_outcomes (?comps @ [None]) (culprit # lost) (Some OutPoisoned)"
      using completed facts(4,7) ok(2) all_outcomes_append [of ?comps finished "culprit # lost"]
      by (simp_all del: all_outcomes_simps)
    then have "poisoned_phase finished outs (tr @ [?l]) s'"
      using facts(1-6) new owners s' enq(1)
      by (auto simp: poisoned_phase_def Let_def simp del: all_outcomes_simps(2))
    then show ?thesis
      using ok new s' enq(1) kept(1) receipts_ok_alloc' [OF ok(2)]
      by (intro serialized_invI [OF _ _ run]) auto
  qed
qed

text \<open>Steps that touch neither the executor nor an owner keep the invariant.\<close>

lemma serialized_inv_frame:
  assumes "serialized_inv step m0 tr s" and "ser_executor s' = ser_executor s"
    and "drain_owners s' = drain_owners s"
    and "\<And>k. k \<in> drain_owners s \<Longrightarrow> ser_turns s' k = ser_turns s k"
    and "queued_label l = []" "begun_label l = []" "handled_label l = []"
  shows "serialized_inv step m0 (tr @ [l]) s'"
proof -
  have "running_phase step finished outs m (tr @ [l]) s' k pc \<longleftrightarrow>
      running_phase step finished outs m tr s k pc" for finished outs m k pc
    using assms(2,3,5-7) assms(4) [of k]
    by (cases "drain_owners s = {k}") (simp_all add: running_phase_def Let_def)
  then have "running_phase step finished outs m (tr @ [l]) s' = running_phase step finished outs m tr s"
    for finished outs m by (intro ext) simp
  moreover have "idle_phase finished outs m (tr @ [l]) s' \<longleftrightarrow> idle_phase finished outs m tr s"
    "poisoned_phase finished outs (tr @ [l]) s' \<longleftrightarrow> poisoned_phase finished outs tr s"
    for finished outs m
    using assms(2-7) by (simp_all add: idle_phase_def poisoned_phase_def)
  ultimately show ?thesis using assms(1,2,5) unfolding serialized_inv_def by simp
qed

interpretation serialized_schedule:
  trace_invariant "ser_step step" "serialized_start m0" "serialized_inv step m0"
  for step :: "'m \<Rightarrow> 'i \<Rightarrow> panic + 'o \<times> 'm" and m0 :: 'm
proof (unfold_locales, goal_cases)
  case 1
  have "idle_phase [] [] m0 [] (serialized_start m0)"
    by (simp add: idle_phase_def serialized_start_def serialized_new_def drain_owners_def)
  then show ?case
    by (intro serialized_invI [of _ _ _ _ "[]" "[]" m0])
      (auto simp: serialized_start_def serialized_new_def receipts_ok_def)
next
  case (2 tr s l s')
  from 2(2) show ?case
  proof (cases rule: ser_step_cases)
    case (call k i)
    then have "drain_owners s' = drain_owners s" "k \<notin> drain_owners s"
      by (auto simp: drain_owners_def split: if_splits)
    with call show ?thesis by (intro serialized_inv_frame [OF 2(1)]) auto
  next
    case (advance k pc handled pc' ex)
    show ?thesis
    proof (cases "drains pc")
      case True
      then have owner: "k \<in> drain_owners s" using advance(3) by (auto simp: drain_owners_def)
      from 2(1) obtain finished outs m j q where
          inv: "\<not> lock_poisoned (sx_execution (ser_executor s))"
            "receipts_ok (sx_completions (ser_executor s)) (queued_turns tr)"
            "run_machine step m0 (map fst finished) = Inr (outs, m)"
            "all_outcomes (sx_completions (ser_executor s)) finished (Some OutCompleted)"
          and phase: "running_phase step finished outs m tr s j q"
        using owner unfolding serialized_inv_def idle_phase_def poisoned_phase_def Let_def by blast
      then have "j = k" "q = pc" using owner advance(3) by (auto simp: running_phase_def Let_def)
      with serialized_owner_step [OF inv] phase advance show ?thesis by blast
    next
      case idle: False
      show ?thesis
      proof (cases pc)
        case (AtSubmit i)
        then show ?thesis using serialized_submit_step [OF 2(1)] advance by blast
      qed (use idle advance in \<open>auto intro!: serialized_inv_frame [OF 2(1)] simp: drain_owners_def split: if_splits\<close>)
    qed
  qed
qed

subsection \<open>A drain running alone\<close>

text \<open>
  \<open>serial_alone n\<close> advances one submission at most \<open>n\<close> steps with a handler that returns, and
  collects the outputs it handled.
\<close>

fun serial_alone ::
  "('m \<Rightarrow> 'i \<Rightarrow> panic + 'o \<times> 'm) \<Rightarrow> nat \<Rightarrow> ('m, 'i, 'o) Turn \<Rightarrow> ('m, 'i) SerializedExecutor \<Rightarrow>
     'o list \<times> ('m, 'i, 'o) Turn \<times> ('m, 'i) SerializedExecutor" where
  "serial_alone step 0 pc ex = ([], pc, ex)"
| "serial_alone step (Suc n) pc ex =
     (let (pc', ex') = serial_turn_step step None pc ex; (outs, stop) = serial_alone step n pc' ex'
      in (handled_label (AdvanceTurn 0 pc pc') @ outs, stop))"

lemma serial_alone_drains:
  "sx_execution ex = mutex_new \<lparr>se_machine = Some m, se_inputs = turns, se_turn = TurnRunning\<rparr> \<Longrightarrow>
   run_machine step m (map fst turns) = Inr (outs, m') \<Longrightarrow>
   receipts_ok (sx_completions ex) turns \<Longrightarrow>
     \<exists>ex'. serial_alone step (Suc (5 * length turns)) (AtTake ownership_new r) ex =
         (outs, SubmitReturned (Inr r), ex') \<and>
       sx_execution ex' = mutex_new \<lparr>se_machine = Some m', se_inputs = [], se_turn = TurnIdle\<rparr> \<and>
       all_outcomes (sx_completions ex') turns (Some OutCompleted) \<and>
       (\<forall>c. c \<notin> snd ` set turns \<longrightarrow> sx_completions ex' ! c = sx_completions ex ! c)"
proof (induction turns arbitrary: ex m outs)
  case Nil
  then show ?case by (simp add: executor_defs lock_def unlock_def mutex_new_def)
next
  case (Cons ic turns)
  obtain i c where ic: "ic = (i, c)" by (cases ic)
  obtain out m1 rest where turn: "step m i = Inr (out, m1)"
      "run_machine step m1 (map fst turns) = Inr (rest, m')" "outs = out # rest"
    using Cons.prems(2) ic by auto
  let ?ex = "complete c OutCompleted (ex\<lparr>sx_execution :=
      mutex_new \<lparr>se_machine = Some m1, se_inputs = turns, se_turn = TurnRunning\<rparr>\<rparr>)"
  have c: "c \<notin> snd ` set turns" "c < length (sx_completions ex)"
    using Cons.prems(3) ic by (auto simp: receipts_ok_def)
  have "receipts_ok (sx_completions ?ex) turns" using Cons.prems(3) by (simp add: receipts_ok_def)
  from Cons.IH [OF _ turn(2) this] obtain ex' where
      ex': "serial_alone step (Suc (5 * length turns)) (AtTake ownership_new r) ?ex =
         (rest, SubmitReturned (Inr r), ex')"
      "sx_execution ex' = mutex_new \<lparr>se_machine = Some m', se_inputs = [], se_turn = TurnIdle\<rparr>"
      "all_outcomes (sx_completions ex') turns (Some OutCompleted)"
      "\<And>d. d \<notin> snd ` set turns \<Longrightarrow> sx_completions ex' ! d = sx_completions ?ex ! d"
    by auto
  have five: "serial_alone step (Suc (Suc (Suc (Suc (Suc n))))) (AtTake ownership_new r) ex =
      (let (rest, stop) = serial_alone step n (AtTake ownership_new r) ?ex in (out # rest, stop))" for n
    using Cons.prems(1) ic turn(1)
    by (simp add: executor_defs lock_def unlock_def mutex_new_def case_prod_unfold Let_def)
  have "Suc (5 * length (ic # turns)) = Suc (Suc (Suc (Suc (Suc (Suc (5 * length turns))))))" by simp
  then have "serial_alone step (Suc (5 * length (ic # turns))) (AtTake ownership_new r) ex =
      (outs, SubmitReturned (Inr r), ex')"
    using five [of "Suc (5 * length turns)"] ex'(1) turn(3) by (simp only: Let_def prod.case)
  moreover have "sx_completions ex' ! c = Some OutCompleted" using ex'(4) [OF c(1)] c(2) by simp
  moreover have "sx_completions ex' ! d = sx_completions ex ! d" if "d \<notin> snd ` set (ic # turns)" for d
    using ex'(4) [of d] that ic by simp
  ultimately show ?case using ex'(2,3) ic by auto
qed

lemma all_outcomes_map:
  "all_outcomes comps xs v \<longleftrightarrow> map (\<lambda>x. comps ! snd x) xs = replicate (length xs) v"
  by (induction xs) auto

subsection \<open>Properties\<close>

text \<open>
  C32: Run to completion, first in first out: turns begin in the order their inputs were queued,
  and whenever a transition is about to run, the handlers of all earlier outputs have returned and
  its machine is the successor of exactly the earlier turns.
\<close>

theorem serialized_run_to_completion:
  assumes "schedule (ser_step step) (serialized_start m0) tr s"
    and "ser_turns s k = Some (AtStep ow r machine i c)"
  shows "\<exists>finished waiting. queued_turns tr = finished @ (i, c) # waiting \<and>
     begun_turns tr = finished @ [(i, c)] \<and>
     run_machine step m0 (map fst finished) = Inr (handled_outputs tr, machine)"
proof -
  have "k \<in> drain_owners s" using assms(2) by (auto simp: drain_owners_def)
  with serialized_schedule.inv_schedule [OF assms(1)] assms(2) show ?thesis
    by (fastforce simp: serialized_inv_def idle_phase_def running_phase_def poisoned_phase_def Let_def)
qed

text \<open>
  C33: Every receipt tells the fate of its own turn, and none is stranded: the queued turns split
  into those completed (outputs handled) and the rest; the rest is unresolved only while a drain
  owner is at work, and entirely poisoned once a panic ended it.  Receipts are never shared.
\<close>

theorem serialized_receipts_resolve:
  assumes "schedule (ser_step step) (serialized_start m0) tr s"
  shows "distinct (map snd (queued_turns tr)) \<and>
     (\<exists>finished rest outs m v. queued_turns tr = finished @ rest \<and>
        run_machine step m0 (map fst finished) = Inr (outs, m) \<and> outs = take (length outs) (handled_outputs tr) \<and>
        map (\<lambda>x. receipt_outcome (ser_executor s) (TurnReceipt (snd x))) (queued_turns tr) =
          replicate (length finished) (Some OutCompleted) @ replicate (length rest) v \<and>
        (drain_owners s \<noteq> {} \<and> v = None \<or> drain_owners s = {} \<and> (rest = [] \<or> v = Some OutPoisoned)))"
proof -
  note inv = serialized_schedule.inv_schedule [OF assms(1)]
  then obtain finished outs m where run: "run_machine step m0 (map fst finished) = Inr (outs, m)"
      and completed: "all_outcomes (sx_completions (ser_executor s)) finished (Some OutCompleted)"
      and phase: "idle_phase finished outs m tr s \<or> (\<exists>k pc. running_phase step finished outs m tr s k pc) \<or>
         poisoned_phase finished outs tr s"
    unfolding serialized_inv_def by blast
  have prefix: "outs = take (length outs) (handled_outputs tr)"
    if "running_phase step finished outs m tr s k pc" for k pc
    using that by (cases pc) (auto simp: running_phase_def Let_def)
  have "\<exists>rest v. queued_turns tr = finished @ rest \<and>
      all_outcomes (sx_completions (ser_executor s)) rest v \<and> outs = take (length outs) (handled_outputs tr) \<and>
      (drain_owners s \<noteq> {} \<and> v = None \<or> drain_owners s = {} \<and> (rest = [] \<or> v = Some OutPoisoned))"
    using phase
  proof (elim disjE exE)
    assume "idle_phase finished outs m tr s"
    then show ?thesis by (auto simp: idle_phase_def Let_def)
  next
    fix k pc assume "running_phase step finished outs m tr s k pc"
    with prefix [OF this] show ?thesis unfolding running_phase_def Let_def by blast
  next
    assume "poisoned_phase finished outs tr s"
    then show ?thesis unfolding poisoned_phase_def Let_def
      by (elim conjE exE) (intro exI [of _ "_ # _"] exI [of _ "Some OutPoisoned"], simp)
  qed
  then obtain rest v where rest: "queued_turns tr = finished @ rest"
      "all_outcomes (sx_completions (ser_executor s)) rest v" "outs = take (length outs) (handled_outputs tr)"
      "drain_owners s \<noteq> {} \<and> v = None \<or> drain_owners s = {} \<and> (rest = [] \<or> v = Some OutPoisoned)"
    by blast
  have "map (\<lambda>x. receipt_outcome (ser_executor s) (TurnReceipt (snd x))) (queued_turns tr) =
      replicate (length finished) (Some OutCompleted) @ replicate (length rest) v"
    using rest(1,2) completed by (simp add: receipt_outcome_def all_outcomes_map)
  moreover have "distinct (map snd (queued_turns tr))"
    using inv by (simp add: serialized_inv_def receipts_ok_def)
  ultimately show ?thesis using rest run by blast
qed

text \<open>
  C34: Only the machine and the handler can panic: the lock is never poisoned, at most one
  submission owns the drain, and a submission unwinds only from its transition or its handler, so
  the executor's own \<open>expect\<close>s and its debug assertion never fire.
\<close>

theorem serialized_panics_are_foreign:
  assumes "schedule (ser_step step) (serialized_start m0) (tr @ [AdvanceTurn k pc (SubmitUnwound p)]) s"
    and "pc \<noteq> SubmitUnwound p"
  shows "\<not> lock_poisoned (sx_execution (ser_executor s)) \<and> (\<exists>j. drain_owners s \<subseteq> {j}) \<and>
     ((\<exists>ow r machine i c. pc = AtStep ow r machine i c \<and> step machine i = Inl p) \<or>
      (\<exists>ow r out c. pc = AtHandler ow r out c))"
proof -
  from assms(1) obtain s0 handled ex where s0: "schedule (ser_step step) (serialized_start m0) tr s0"
      "ser_turns s0 k = Some pc" "serial_turn_step step handled pc (ser_executor s0) = (SubmitUnwound p, ex)"
    by auto
  note inv0 = serialized_schedule.inv_schedule [OF s0(1)]
  then have open_lock: "\<not> lock_poisoned (sx_execution (ser_executor s0))" by (simp add: serialized_inv_def)
  have "(\<exists>ow r machine i c. pc = AtStep ow r machine i c \<and> step machine i = Inl p) \<or>
      (\<exists>ow r out c. pc = AtHandler ow r out c)"
  proof (cases "drains pc")
    case True
    then have "k \<in> drain_owners s0" using s0(2) by (auto simp: drain_owners_def)
    then obtain finished outs m where "running_phase step finished outs m tr s0 k pc"
      using inv0 s0(2) by (fastforce simp: serialized_inv_def idle_phase_def poisoned_phase_def
          running_phase_def Let_def)
    then show ?thesis using s0(3) open_lock
      by (cases pc) (auto simp: running_phase_def executor_defs lock_def Let_def
          split: sum.splits list.splits)
  next
    case False
    then show ?thesis using s0(3) open_lock assms(2)
      by (cases pc) (auto simp: serialized_enqueue_def completion_new_def lock_def Let_def
          split: TurnState.splits)
  qed
  moreover have "serialized_inv step m0 (tr @ [AdvanceTurn k pc (SubmitUnwound p)]) s"
    by (rule serialized_schedule.inv_schedule [OF assms(1)])
  then have "\<not> lock_poisoned (sx_execution (ser_executor s)) \<and> (\<exists>j. drain_owners s \<subseteq> {j})"
    by (auto simp: serialized_inv_def idle_phase_def poisoned_phase_def running_phase_def Let_def)
  ultimately show ?thesis by blast
qed

text \<open>
  C35: The drain makes progress: an owner between two turns, with \<open>n\<close> turns queued whose
  transitions and handlers return, handles exactly their outputs in order, resolves all their
  receipts as completed and returns within \<open>5 n + 1\<close> steps, leaving the executor idle.
\<close>

theorem serialized_drain_terminates:
  assumes "schedule (ser_step step) (serialized_start m0) tr s"
    and "ser_turns s k = Some (AtTake ow r)"
    and "se_machine (guarded (sx_execution (ser_executor s))) = Some m"
    and "turns = se_inputs (guarded (sx_execution (ser_executor s)))"
    and "run_machine step m (map fst turns) = Inr (outs, m')"
  shows "\<exists>ex'. serial_alone step (Suc (5 * length turns)) (AtTake ow r) (ser_executor s) =
         (outs, SubmitReturned (Inr r), ex') \<and>
       guarded (sx_execution ex') = \<lparr>se_machine = Some m', se_inputs = [], se_turn = TurnIdle\<rparr> \<and>
       map (\<lambda>x. receipt_outcome ex' (TurnReceipt (snd x))) turns =
         replicate (length turns) (Some OutCompleted)"
proof -
  note inv = serialized_schedule.inv_schedule [OF assms(1)]
  have "k \<in> drain_owners s" using assms(2) by (auto simp: drain_owners_def)
  with inv assms(2) obtain finished outs' m1 where phase: "running_phase step finished outs' m1 tr s k (AtTake ow r)"
    by (fastforce simp: serialized_inv_def idle_phase_def poisoned_phase_def running_phase_def Let_def)
  then have ow: "ow = ownership_new"
      and queue: "queued_turns tr = begun_turns tr @ turns"
      and state: "se_turn (guarded (sx_execution (ser_executor s))) = TurnRunning"
    using assms(4) by (auto simp: running_phase_def Let_def)
  have "sx_execution (ser_executor s) =
      mutex_new \<lparr>se_machine = Some m, se_inputs = turns, se_turn = TurnRunning\<rparr>"
    using assms(3,4) state inv by (auto simp: serialized_inv_def mutex_new_def)
  moreover have "receipts_ok (sx_completions (ser_executor s)) turns"
    using inv queue by (auto simp: serialized_inv_def receipts_ok_def)
  ultimately show ?thesis
    using serial_alone_drains [of "ser_executor s" m turns step outs m' r] assms(5) ow
    by (auto simp: receipt_outcome_def all_outcomes_map [symmetric] mutex_new_def)
qed

subsection \<open>Instances\<close>

text \<open>
  The running sum: 3 is submitted and owns the drain; 0, on which the machine panics, is queued
  behind it and its submitter gets a receipt.
\<close>

abbreviation sample_ownership :: "nat option \<Rightarrow> SerializedOwnership" where
  "sample_ownership active \<equiv> \<lparr>so_execution = True, so_active = active\<rparr>"

definition sum_opening :: "(nat, nat, nat) SerializedLabel list" where
  "sum_opening =
     [CallSubmit 0 3, AdvanceTurn 0 (AtSubmit 3) (AtTake (sample_ownership None) (TurnReceipt 0))]"

definition sum_opened :: "(nat, nat, nat) SerializedSystem" where
  "sum_opened =
     \<lparr>ser_executor =
        \<lparr>sx_execution = mutex_new \<lparr>se_machine = Some 0, se_inputs = [(3, 0)], se_turn = TurnRunning\<rparr>,
         sx_completions = [None]\<rparr>,
      ser_turns = [0 \<mapsto> AtTake (sample_ownership None) (TurnReceipt 0)]\<rparr>"

definition sum_first_turn :: "(nat, nat, nat) SerializedLabel list" where
  "sum_first_turn =
     [CallSubmit 1 0, AdvanceTurn 1 (AtSubmit 0) (SubmitReturned (Inr (TurnReceipt 1))),
      AdvanceTurn 0 (AtTake (sample_ownership None) (TurnReceipt 0))
        (AtStep (sample_ownership (Some 0)) (TurnReceipt 0) 0 3 0),
      AdvanceTurn 0 (AtStep (sample_ownership (Some 0)) (TurnReceipt 0) 0 3 0)
        (AtInstall (sample_ownership (Some 0)) (TurnReceipt 0) 3 3 0),
      AdvanceTurn 0 (AtInstall (sample_ownership (Some 0)) (TurnReceipt 0) 3 3 0)
        (AtHandler (sample_ownership (Some 0)) (TurnReceipt 0) 3 0),
      AdvanceTurn 0 (AtHandler (sample_ownership (Some 0)) (TurnReceipt 0) 3 0)
        (AtComplete (sample_ownership (Some 0)) (TurnReceipt 0) 0),
      AdvanceTurn 0 (AtComplete (sample_ownership (Some 0)) (TurnReceipt 0) 0)
        (AtTake (sample_ownership None) (TurnReceipt 0)),
      AdvanceTurn 0 (AtTake (sample_ownership None) (TurnReceipt 0))
        (AtStep (sample_ownership (Some 1)) (TurnReceipt 0) 3 0 1)]"

definition sum_second_turn :: "(nat, nat, nat) SerializedSystem" where
  "sum_second_turn =
     \<lparr>ser_executor =
        \<lparr>sx_execution = mutex_new \<lparr>se_machine = None, se_inputs = [], se_turn = TurnRunning\<rparr>,
         sx_completions = [Some OutCompleted, None]\<rparr>,
      ser_turns = [0 \<mapsto> AtStep (sample_ownership (Some 1)) (TurnReceipt 0) 3 0 1,
        1 \<mapsto> SubmitReturned (Inr (TurnReceipt 1))]\<rparr>"

definition sum_unwinds :: "(nat, nat, nat) SerializedLabel" where
  "sum_unwinds =
     AdvanceTurn 0 (AtStep (sample_ownership (Some 1)) (TurnReceipt 0) 3 0 1) (SubmitUnwound (Panic ''zero''))"

definition sum_poisoned :: "(nat, nat, nat) SerializedSystem" where
  "sum_poisoned =
     \<lparr>ser_executor =
        \<lparr>sx_execution = mutex_new \<lparr>se_machine = None, se_inputs = [], se_turn = TurnPoisoned\<rparr>,
         sx_completions = [Some OutCompleted, Some OutPoisoned]\<rparr>,
      ser_turns = [0 \<mapsto> SubmitUnwound (Panic ''zero''),
        1 \<mapsto> SubmitReturned (Inr (TurnReceipt 1))]\<rparr>"

lemmas sample_run_simps = executor_defs lock_def unlock_def mutex_new_def sum_step_def fun_upd_twist
  split_option_ex

lemma sum_opens: "schedule (ser_step sum_step) (serialized_start 0) sum_opening sum_opened"
  by (simp add: sum_opening_def sum_opened_def serialized_start_def sample_run_simps)

lemma sum_turns: "schedule (ser_step sum_step) sum_opened sum_first_turn sum_second_turn"
  by (simp add: sum_opened_def sum_first_turn_def sum_second_turn_def sample_run_simps)

lemmas sum_second_begins =
  schedule_append [THEN iffD2, OF exI, OF conjI, OF sum_opens sum_turns]

lemma sum_panics: "ser_step sum_step sum_second_turn sum_unwinds sum_poisoned"
  by (simp add: sum_second_turn_def sum_unwinds_def sum_poisoned_def sample_run_simps)

lemmas sum_poisons = schedule_step [OF sum_second_begins sum_panics]

theorem serialized_run_to_completion_witness:
  "\<exists>finished waiting. queued_turns (sum_opening @ sum_first_turn) = finished @ (0, 1) # waiting \<and>
     run_machine sum_step 0 (map fst finished) = Inr ([3], 3)"
proof -
  have "handled_outputs (sum_opening @ sum_first_turn) = [3]"
    by (simp add: handled_outputs_def sum_opening_def sum_first_turn_def)
  moreover have "ser_turns sum_second_turn 0 = Some (AtStep (sample_ownership (Some 1)) (TurnReceipt 0) 3 0 1)"
    by (simp add: sum_second_turn_def)
  ultimately show ?thesis using serialized_run_to_completion [OF sum_second_begins] by metis
qed

theorem serialized_receipts_resolve_witness:
  "distinct (map snd (queued_turns ((sum_opening @ sum_first_turn) @ [sum_unwinds]))) \<and>
   receipt_outcome (ser_executor sum_poisoned) (TurnReceipt 1) = Some OutPoisoned"
  using serialized_receipts_resolve [OF sum_poisons] by (simp add: sum_poisoned_def receipt_outcome_def)

theorem serialized_panics_are_foreign_witness:
  "\<not> lock_poisoned (sx_execution (ser_executor sum_poisoned)) \<and> sum_step 3 0 = Inl (Panic ''zero'')"
  using serialized_panics_are_foreign [OF sum_poisons [unfolded sum_unwinds_def]] by simp

theorem serialized_drain_terminates_witness:
  "\<exists>ex'. serial_alone sum_step 6 (AtTake (sample_ownership None) (TurnReceipt 0)) (ser_executor sum_opened) =
     ([3], SubmitReturned (Inr (TurnReceipt 0)), ex')"
proof -
  have turns: "se_inputs (guarded (sx_execution (ser_executor sum_opened))) = [(3, 0)]"
    "se_machine (guarded (sx_execution (ser_executor sum_opened))) = Some 0"
    "ser_turns sum_opened 0 = Some (AtTake (sample_ownership None) (TurnReceipt 0))"
    by (simp_all add: sum_opened_def)
  have "run_machine sum_step 0 (map fst [(3 :: nat, 0 :: nat)]) = Inr ([3], 3)" by (simp add: sum_step_def)
  from serialized_drain_terminates [OF sum_opens turns(3,2) turns(1) [symmetric] this]
  show ?thesis by (auto simp del: serial_alone.simps)
qed

end
