(* ===== verification/Turn_Receipt.thy ===== *)
theory Turn_Receipt
  imports Serialized_Executor
begin

section \<open>Waiting for a turn\<close>

text \<open>
  One \<open>TurnCompletion\<close> of \<open>crates/driver/src/lib.rs\<close>: its mutex and its condition variable, the one
  caller that may wait for it (\<open>TurnReceipt::wait\<close> consumes the receipt) and the drain owners that
  complete it.  A locked section is atomic; \<open>Condvar::wait\<close> gives up the lock and falls asleep in
  the section that found no outcome, and a sleeper wakes by a notification or for no reason.
  \<open>Serialized_Executor\<close> shows that every completion is completed; here it is shown that the waiter
  hears of it.
\<close>

subsection \<open>Sections\<close>

datatype WaitState =
    WaitLocks
  | WaitAsleep
  | WaitReturned TurnOutcome
  | WaitUnwound panic

datatype CompleteState =
    CompleteLocks TurnOutcome
  | CompleteNotifies
  | CompleteReturned
  | CompleteUnwound panic

type_synonym TurnCompletion = "TurnOutcome option Mutex"

definition turn_completion_new :: TurnCompletion where
  "turn_completion_new = mutex_new None"

text \<open>\<open>TurnReceipt::outcome\<close>.\<close>

definition outcome_now :: "TurnCompletion \<Rightarrow> panic + TurnOutcome option" where
  "outcome_now self = lock self ''turn receipt lock poisoned''"

text \<open>One round of the loop of \<open>TurnReceipt::wait\<close>, from the lock to the return or the sleep.\<close>

definition wait_round :: "TurnCompletion \<Rightarrow> WaitState" where
  "wait_round self =
     (case lock self ''turn receipt lock poisoned'' of
        Inl p \<Rightarrow> WaitUnwound p
      | Inr (Some outcome) \<Rightarrow> WaitReturned outcome
      | Inr None \<Rightarrow> WaitAsleep)"

text \<open>The section of \<open>complete\<close>, and what its \<open>notify_one\<close> does to the waiter.\<close>

definition store_outcome :: "TurnOutcome \<Rightarrow> TurnCompletion \<Rightarrow> CompleteState \<times> TurnCompletion" where
  "store_outcome outcome self =
     (case lock self ''turn receipt lock poisoned'' of
        Inl p \<Rightarrow> (CompleteUnwound p, self)
      | Inr _ \<Rightarrow> (CompleteNotifies, unlock self (Some outcome)))"

fun notify_one :: "WaitState option \<Rightarrow> WaitState option" where
  "notify_one (Some WaitAsleep) = Some WaitLocks"
| "notify_one waiter = waiter"

subsection \<open>Schedules\<close>

record ReceiptSystem =
  rc_completion :: TurnCompletion
  rc_waiter :: "WaitState option"
  rc_completers :: "nat \<Rightarrow> CompleteState option"

datatype ReceiptLabel =
    CallWait
  | WaitRound
  | WakeUp
  | CallComplete nat TurnOutcome
  | Store nat TurnOutcome
  | Notify nat

definition receipt_start :: ReceiptSystem where
  "receipt_start = \<lparr>rc_completion = turn_completion_new, rc_waiter = None, rc_completers = \<lambda>_. None\<rparr>"

inductive receipt_step :: "ReceiptSystem \<Rightarrow> ReceiptLabel \<Rightarrow> ReceiptSystem \<Rightarrow> bool" where
  rc_call_wait:
    "rc_waiter s = None \<Longrightarrow> receipt_step s CallWait (s\<lparr>rc_waiter := Some WaitLocks\<rparr>)"
| rc_wait_round:
    "rc_waiter s = Some WaitLocks \<Longrightarrow>
       receipt_step s WaitRound (s\<lparr>rc_waiter := Some (wait_round (rc_completion s))\<rparr>)"
| rc_wake_up:
    "rc_waiter s = Some WaitAsleep \<Longrightarrow> receipt_step s WakeUp (s\<lparr>rc_waiter := Some WaitLocks\<rparr>)"
| rc_call_complete:
    "rc_completers s k = None \<Longrightarrow>
       receipt_step s (CallComplete k outcome)
         (s\<lparr>rc_completers := (rc_completers s)(k \<mapsto> CompleteLocks outcome)\<rparr>)"
| rc_store:
    "rc_completers s k = Some (CompleteLocks outcome) \<Longrightarrow>
       store_outcome outcome (rc_completion s) = (pc, completion) \<Longrightarrow>
       receipt_step s (Store k outcome)
         (s\<lparr>rc_completion := completion, rc_completers := (rc_completers s)(k \<mapsto> pc)\<rparr>)"
| rc_notify:
    "rc_completers s k = Some CompleteNotifies \<Longrightarrow>
       receipt_step s (Notify k)
         (s\<lparr>rc_waiter := notify_one (rc_waiter s), rc_completers := (rc_completers s)(k \<mapsto> CompleteReturned)\<rparr>)"

inductive_cases receipt_stepE: "receipt_step s l s'"

text \<open>The outcomes stored so far, the latest first.\<close>

fun stored_label :: "ReceiptLabel \<Rightarrow> TurnOutcome list" where
  "stored_label (Store k outcome) = [outcome]"
| "stored_label _ = []"

definition stored :: "ReceiptLabel list \<Rightarrow> TurnOutcome list" where
  "stored tr = concat (map stored_label (rev tr))"

lemma stored_simps [simp]: "stored [] = []" "stored (tr @ [l]) = stored_label l @ stored tr"
  by (simp_all add: stored_def)

subsection \<open>No wake-up is lost\<close>

definition receipt_inv :: "ReceiptLabel list \<Rightarrow> ReceiptSystem \<Rightarrow> bool" where
  "receipt_inv tr s \<longleftrightarrow>
     \<not> lock_poisoned (rc_completion s) \<and>
     guarded (rc_completion s) = (case stored tr of [] \<Rightarrow> None | outcome # _ \<Rightarrow> Some outcome) \<and>
     (rc_waiter s = Some WaitAsleep \<and> stored tr \<noteq> [] \<longrightarrow> (\<exists>k. rc_completers s k = Some CompleteNotifies)) \<and>
     (\<forall>outcome. rc_waiter s = Some (WaitReturned outcome) \<longrightarrow> outcome \<in> set (stored tr)) \<and>
     (\<forall>p. rc_waiter s \<noteq> Some (WaitUnwound p)) \<and>
     (\<forall>k p. rc_completers s k \<noteq> Some (CompleteUnwound p)) \<and>
     (\<forall>k. rc_completers s k = Some CompleteNotifies \<or> rc_completers s k = Some CompleteReturned \<longrightarrow> stored tr \<noteq> [])"

lemma notify_one_cases: "notify_one w = (if w = Some WaitAsleep then Some WaitLocks else w)"
  by (cases w rule: notify_one.cases) auto

lemma receipt_inv_step:
  assumes "receipt_inv tr s" and "receipt_step s l s'"
  shows "receipt_inv (tr @ [l]) s'"
  using assms(2)
proof cases
  case rc_wait_round
  then show ?thesis using assms(1)
    by (auto simp: receipt_inv_def wait_round_def lock_def split: list.splits)
next
  case (rc_store k outcome pc completion)
  then have "pc = CompleteNotifies" "completion = unlock (rc_completion s) (Some outcome)"
    using assms(1) by (auto simp: receipt_inv_def store_outcome_def lock_def)
  then show ?thesis using assms(1) rc_store by (auto simp: receipt_inv_def)
next
  case (rc_call_complete k outcome)
  then have "j \<noteq> k" if "rc_completers s j = Some CompleteNotifies" for j using that by auto
  then show ?thesis using assms(1) rc_call_complete unfolding receipt_inv_def by (auto split: if_splits)
qed (use assms(1) in \<open>auto simp: receipt_inv_def notify_one_cases split: if_splits\<close>)

interpretation receipt_schedule: trace_invariant receipt_step receipt_start receipt_inv
  by unfold_locales
    (simp add: receipt_inv_def receipt_start_def turn_completion_new_def, rule receipt_inv_step)

text \<open>
  C36: A waiter never misses its turn: in every interleaving of the wait, spurious wake-ups and any
  number of completions, nothing panics; the waiter sleeps on a stored outcome only while a
  completion is about to notify; a wait that returned returned an outcome that was stored; and once
  every completion begun has returned, the waiter is not asleep on a stored outcome, and its next
  round returns the latest one.
\<close>

theorem receipt_wait_wakes:
  assumes "schedule receipt_step receipt_start tr s"
  shows "(rc_waiter s = Some WaitAsleep \<and> stored tr \<noteq> [] \<longrightarrow> (\<exists>k. rc_completers s k = Some CompleteNotifies)) \<and>
     (\<forall>outcome. rc_waiter s = Some (WaitReturned outcome) \<longrightarrow> outcome \<in> set (stored tr)) \<and>
     rc_waiter s \<noteq> Some (WaitUnwound p) \<and> rc_completers s k \<noteq> Some (CompleteUnwound p) \<and>
     outcome_now (rc_completion s) = Inr (case stored tr of [] \<Rightarrow> None | outcome # _ \<Rightarrow> Some outcome) \<and>
     ((\<forall>k. rc_completers s k \<in> {None, Some CompleteReturned}) \<and> rc_completers s k = Some CompleteReturned \<longrightarrow>
        rc_waiter s \<noteq> Some WaitAsleep \<and> wait_round (rc_completion s) = WaitReturned (hd (stored tr)))"
proof -
  have inv: "receipt_inv tr s" by (rule receipt_schedule.inv_schedule [OF assms])
  then have "wait_round (rc_completion s) = WaitReturned (hd (stored tr))" if "stored tr \<noteq> []"
    using that by (cases "stored tr") (auto simp: receipt_inv_def wait_round_def lock_def)
  moreover have "rc_waiter s \<noteq> Some WaitAsleep"
    if "\<forall>k. rc_completers s k \<in> {None, Some CompleteReturned}" "stored tr \<noteq> []"
    using inv that unfolding receipt_inv_def by (metis CompleteState.distinct(7) insertE option.distinct(1) option.inject singletonD)
  moreover have "outcome_now (rc_completion s) = Inr (case stored tr of [] \<Rightarrow> None | outcome # _ \<Rightarrow> Some outcome)"
    using inv by (simp add: receipt_inv_def outcome_now_def)
  ultimately show ?thesis using inv unfolding receipt_inv_def by blast
qed

text \<open>The waiter falls asleep, the turn completes, and the notification wakes the waiter.\<close>

theorem receipt_wait_wakes_witness:
  "\<exists>tr s. schedule receipt_step receipt_start tr s \<and> stored tr = [OutCompleted] \<and> rc_waiter s = Some WaitLocks \<and>
     wait_round (rc_completion s) = WaitReturned OutCompleted"
proof -
  let ?s1 = "receipt_start\<lparr>rc_waiter := Some WaitLocks\<rparr>"
  let ?s2 = "?s1\<lparr>rc_waiter := Some WaitAsleep\<rparr>"
  let ?s3 = "?s2\<lparr>rc_completers := [0 \<mapsto> CompleteLocks OutCompleted]\<rparr>"
  let ?s4 = "?s3\<lparr>rc_completion := unlock turn_completion_new (Some OutCompleted), rc_completers := [0 \<mapsto> CompleteNotifies]\<rparr>"
  let ?s5 = "?s4\<lparr>rc_waiter := Some WaitLocks, rc_completers := [0 \<mapsto> CompleteReturned]\<rparr>"
  let ?tr = "[CallWait, WaitRound, CallComplete 0 OutCompleted, Store 0 OutCompleted, Notify 0]"
  have "receipt_step receipt_start CallWait ?s1"
    using rc_call_wait [of receipt_start] by (simp add: receipt_start_def)
  moreover have "receipt_step ?s1 WaitRound ?s2"
    using rc_wait_round [of ?s1] by (simp add: receipt_start_def wait_round_def turn_completion_new_def lock_def)
  moreover have "receipt_step ?s2 (CallComplete 0 OutCompleted) ?s3"
    using rc_call_complete [of ?s2 0 OutCompleted] by (simp add: receipt_start_def)
  moreover have "receipt_step ?s3 (Store 0 OutCompleted) ?s4"
    using rc_store [of ?s3 0 OutCompleted CompleteNotifies "unlock turn_completion_new (Some OutCompleted)"]
    by (simp add: receipt_start_def store_outcome_def turn_completion_new_def lock_def)
  moreover have "receipt_step ?s4 (Notify 0) ?s5"
    using rc_notify [of ?s4 0] by (simp add: receipt_start_def)
  ultimately have run: "schedule receipt_step receipt_start ?tr ?s5" by (simp del: receipt_start_def) blast
  have "stored ?tr = [OutCompleted]" by (simp add: stored_def)
  then show ?thesis
    using run receipt_wait_wakes [OF run, of undefined 0]
    by (intro exI [of _ ?tr] exI [of _ ?s5]) (auto simp: receipt_start_def)
qed

end
