(* ===== verification/Sharded_Map.thy ===== *)
theory Sharded_Map
  imports Concurrency
begin

section \<open>The sharded entry map\<close>

text \<open>
  The storage half of \<open>LocalDirectory\<close> in \<open>crates/entity/src/directory.rs\<close>: a boxed slice of
  \<open>Mutex<HashMap<EntityId<I>, Arc<Slot>>>\<close> shards, of which a masked hash selects one.  A hash map
  is a partial map (\<open>Eq\<close> on identifiers is equality), an \<open>Arc\<close> the address of its allocation, and
  the build hasher a function to \<open>u64\<close>, which is a parameter of the map.  The locale \<open>entry_map\<close>
  is the interface the directory relies on; the shards implement it, so sharding is invisible.
\<close>

datatype 'i EntityId = EntityId (entity_get: 'i)

record DirectoryConfig =
  cfg_shards :: NonZeroUsize
  cfg_activation_waiters :: NonZeroUsize

definition config_default :: DirectoryConfig where
  "config_default = \<lparr>cfg_shards = nz 64, cfg_activation_waiters = nz 64\<rparr>"

type_synonym 'i Shard = "('i EntityId \<rightharpoonup> nat) Mutex"

record 'i Shards =
  shards :: "'i Shard list"
  shard_mask :: u64
  hash_one :: "'i EntityId \<Rightarrow> u64"

definition is_power_of_two :: "usize \<Rightarrow> bool" where
  "is_power_of_two w = list_ex (\<lambda>k. w = 2 ^ k) [0..<64]"

text \<open>The map part of \<open>with_hasher\<close>: \<open>None\<close> is \<open>InvalidShardCount\<close>.\<close>

definition shards_with_hasher :: "DirectoryConfig \<Rightarrow> ('i EntityId \<Rightarrow> u64) \<Rightarrow> 'i Shards option" where
  "shards_with_hasher config hash_builder =
     (let count = nz_get (cfg_shards config) in
      if \<not> is_power_of_two count then None
      else case checked_sub count 1 of
        None \<Rightarrow> None
      | Some m \<Rightarrow> Some \<lparr>shards = replicate (unat count) (mutex_new Map.empty), shard_mask = m, hash_one = hash_builder\<rparr>)"

definition shard_index :: "'i Shards \<Rightarrow> 'i EntityId \<Rightarrow> nat" where
  "shard_index self i = unat (and (hash_one self i) (shard_mask self))"

text \<open>\<open>self.shards[self.shard_index(id)].lock().expect(..)\<close>: indexing and locking may panic.\<close>

definition lock_shard :: "'i Shards \<Rightarrow> 'i EntityId \<Rightarrow> panic + ('i EntityId \<rightharpoonup> nat)" where
  "lock_shard self i =
     (if shard_index self i < length (shards self)
      then lock (shards self ! shard_index self i) ''directory shard lock poisoned''
      else Inl (Panic ''index out of bounds''))"

definition set_shard :: "'i Shards \<Rightarrow> 'i EntityId \<Rightarrow> ('i EntityId \<rightharpoonup> nat) \<Rightarrow> 'i Shards" where
  "set_shard self i entries =
     self\<lparr>shards := (shards self)[shard_index self i := unlock (shards self ! shard_index self i) entries]\<rparr>"

definition poison_shard :: "'i Shards \<Rightarrow> 'i EntityId \<Rightarrow> ('i EntityId \<rightharpoonup> nat) \<Rightarrow> 'i Shards" where
  "poison_shard self i entries =
     self\<lparr>shards := (shards self)[shard_index self i := unwind (shards self ! shard_index self i) entries]\<rparr>"

text \<open>Insertion in a locked shard, and \<open>remove_matching\<close>: removal by pointer identity.\<close>

definition insert_entry :: "'i Shards \<Rightarrow> 'i EntityId \<Rightarrow> nat \<Rightarrow> panic + 'i Shards" where
  "insert_entry self i slot =
     and_then (lock_shard self i) (\<lambda>entries. Inr (set_shard self i (entries(i \<mapsto> slot))))"

definition remove_matching :: "'i Shards \<Rightarrow> 'i EntityId \<Rightarrow> nat \<Rightarrow> panic + 'i Shards" where
  "remove_matching self i slot =
     and_then (lock_shard self i) (\<lambda>entries.
       Inr (if entries i = Some slot then set_shard self i (entries(i := None)) else self))"

text \<open>\<open>len\<close> sums the shards; the model's sum is taken at one moment.\<close>

definition shards_len :: "'i Shards \<Rightarrow> panic + nat" where
  "shards_len self =
     foldr (\<lambda>sh acc. and_then (lock sh ''directory shard lock poisoned'') (\<lambda>entries.
         and_then acc (\<lambda>n. Inr (card (dom entries) + n)))) (shards self) (Inr 0)"

definition shards_is_empty :: "'i Shards \<Rightarrow> panic + bool" where
  "shards_is_empty self = and_then (shards_len self) (\<lambda>n. Inr (n = 0))"

subsection \<open>The interface of an entry map\<close>

text \<open>
  A sequence of insertions (\<open>Inl\<close>) and conditional removals (\<open>Inr\<close>), on a map of the interface and
  on one plain map.
\<close>

fun map_op ::
  "('d \<Rightarrow> 'k \<Rightarrow> nat \<Rightarrow> panic + 'd) \<Rightarrow> ('d \<Rightarrow> 'k \<Rightarrow> nat \<Rightarrow> panic + 'd) \<Rightarrow> 'd \<Rightarrow> ('k \<times> nat) + ('k \<times> nat) \<Rightarrow> panic + 'd" where
  "map_op add remove d (Inl (k, p)) = add d k p"
| "map_op add remove d (Inr (k, p)) = remove d k p"

fun map_ops ::
  "('d \<Rightarrow> 'k \<Rightarrow> nat \<Rightarrow> panic + 'd) \<Rightarrow> ('d \<Rightarrow> 'k \<Rightarrow> nat \<Rightarrow> panic + 'd) \<Rightarrow> 'd \<Rightarrow> (('k \<times> nat) + ('k \<times> nat)) list \<Rightarrow> panic + 'd" where
  "map_ops add remove d [] = Inr d"
| "map_ops add remove d (x # xs) = and_then (map_op add remove d x) (\<lambda>d'. map_ops add remove d' xs)"

fun reference_op :: "('k \<rightharpoonup> nat) \<Rightarrow> ('k \<times> nat) + ('k \<times> nat) \<Rightarrow> ('k \<rightharpoonup> nat)" where
  "reference_op m (Inl (k, p)) = m(k \<mapsto> p)"
| "reference_op m (Inr (k, p)) = (if m k = Some p then m(k := None) else m)"

text \<open>
  A map from identifiers to slots with insertion and conditional removal, none of which panics
  while \<open>ok\<close> holds.
\<close>

locale entry_map =
  fixes ok :: "'d \<Rightarrow> bool"
    and find :: "'d \<Rightarrow> 'k \<Rightarrow> panic + ('k \<rightharpoonup> nat)"
    and add :: "'d \<Rightarrow> 'k \<Rightarrow> nat \<Rightarrow> panic + 'd"
    and remove :: "'d \<Rightarrow> 'k \<Rightarrow> nat \<Rightarrow> panic + 'd"
    and entry :: "'d \<Rightarrow> 'k \<rightharpoonup> nat"
  assumes find_entry: "ok d \<Longrightarrow> \<exists>entries. find d k = Inr entries \<and> entries k = entry d k"
    and add_entry: "ok d \<Longrightarrow> \<exists>d'. add d k p = Inr d' \<and> ok d' \<and> entry d' = (entry d)(k \<mapsto> p)"
    and remove_entry: "ok d \<Longrightarrow>
      \<exists>d'. remove d k p = Inr d' \<and> ok d' \<and>
        entry d' = (if entry d k = Some p then (entry d)(k := None) else entry d)"
begin

lemma map_op_entry:
  "ok d \<Longrightarrow> \<exists>d'. map_op add remove d x = Inr d' \<and> ok d' \<and> entry d' = reference_op (entry d) x"
  using add_entry remove_entry by (cases x; cases "projl x"; cases "projr x") auto

lemma map_ops_entry:
  "ok d \<Longrightarrow> \<exists>d'. map_ops add remove d xs = Inr d' \<and> ok d' \<and> entry d' = foldl reference_op (entry d) xs"
proof (induction xs arbitrary: d)
  case (Cons x xs)
  from map_op_entry [OF Cons.prems, of x] obtain d1 where
    "map_op add remove d x = Inr d1" "ok d1" "entry d1 = reference_op (entry d) x" by blast
  then show ?case using Cons.IH [of d1] by simp
qed simp

end

subsection \<open>The shards implement the interface\<close>

definition shard_entry :: "'i Shards \<Rightarrow> 'i EntityId \<rightharpoonup> nat" where
  "shard_entry self i = guarded (shards self ! shard_index self i) i"

text \<open>
  Every shard is reachable by a masked hash, unlocked, finite, and holds only the identifiers
  that select it.
\<close>

definition shards_ok :: "'i Shards \<Rightarrow> bool" where
  "shards_ok self \<longleftrightarrow>
     (\<exists>k<64. length (shards self) = 2 ^ k \<and> shard_mask self = 2 ^ k - 1) \<and>
     (\<forall>j<length (shards self). \<not> lock_poisoned (shards self ! j) \<and> finite (dom (guarded (shards self ! j))) \<and>
        (\<forall>i\<in>dom (guarded (shards self ! j)). shard_index self i = j))"

lemma masked_less: "unat (and h (2 ^ k - 1) :: u64) < 2 ^ k" if "k < 64"
proof -
  have "and h (2 ^ k - 1) = take_bit k h"
    by (simp add: take_bit_eq_mask mask_eq_exp_minus_1)
  moreover have "unat (take_bit k h) < 2 ^ k"
    by (simp add: unsigned_take_bit_eq)
  ultimately show ?thesis by simp
qed

lemma shard_index_less: "shards_ok self \<Longrightarrow> shard_index self i < length (shards self)"
  by (auto simp: shards_ok_def shard_index_def masked_less)

lemma shard_index_set [simp]: "shard_index (set_shard self j m) i = shard_index self i"
  by (simp add: shard_index_def set_shard_def)

lemma lock_shard_ok: "shards_ok self \<Longrightarrow> lock_shard self i = Inr (guarded (shards self ! shard_index self i))"
  using shard_index_less [of self i] by (auto simp: lock_shard_def shards_ok_def)

lemma set_shard_entry:
  assumes "shards_ok self" and "finite (dom m)" and "\<And>j. j \<in> dom m \<Longrightarrow> shard_index self j = shard_index self i"
  shows "shards_ok (set_shard self i m)"
    and "shard_entry (set_shard self i m) = (\<lambda>j. if shard_index self j = shard_index self i then m j else shard_entry self j)"
  using assms shard_index_less [OF assms(1)]
  by (auto simp: shards_ok_def shard_entry_def fun_eq_iff set_shard_def nth_list_update shard_index_def
      split: if_splits)

lemma shard_dom:
  "shards_ok self \<Longrightarrow> j \<in> dom (guarded (shards self ! shard_index self i)) \<Longrightarrow> shard_index self j = shard_index self i"
  using shard_index_less [of self i] by (auto simp: shards_ok_def)

lemma shard_finite: "shards_ok self \<Longrightarrow> finite (dom (guarded (shards self ! shard_index self i)))"
  using shard_index_less [of self i] by (auto simp: shards_ok_def)

interpretation sharded: entry_map shards_ok lock_shard insert_entry remove_matching shard_entry
proof (unfold_locales, goal_cases)
  case (1 d k)
  then show ?case by (simp add: lock_shard_ok shard_entry_def)
next
  case (2 d k p)
  let ?m = "(guarded (shards d ! shard_index d k))(k \<mapsto> p)"
  have "finite (dom ?m)" "\<And>j. j \<in> dom ?m \<Longrightarrow> shard_index d j = shard_index d k"
    using shard_finite [OF 2, of k] shard_dom [OF 2, of _ k] by (auto split: if_splits)
  from set_shard_entry [OF 2 this] 2 show ?case
    by (auto simp: insert_entry_def lock_shard_ok shard_entry_def fun_eq_iff)
next
  case (3 d k p)
  let ?m = "(guarded (shards d ! shard_index d k))(k := None)"
  have "finite (dom ?m)" "\<And>j. j \<in> dom ?m \<Longrightarrow> shard_index d j = shard_index d k"
    using shard_finite [OF 3, of k] shard_dom [OF 3, of _ k] by (auto split: if_splits)
  from set_shard_entry [OF 3 this] 3 show ?case
    by (auto simp: remove_matching_def lock_shard_ok shard_entry_def fun_eq_iff)
qed

subsection \<open>Construction and size\<close>

lemma is_power_of_two_iff: "is_power_of_two w \<longleftrightarrow> (\<exists>k<64. w = 2 ^ k)"
  by (auto simp: is_power_of_two_def list_ex_iff)

lemma shards_with_hasher_Some:
  "shards_with_hasher config h = Some d \<longleftrightarrow>
     is_power_of_two (nz_get (cfg_shards config)) \<and>
     d = \<lparr>shards = replicate (unat (nz_get (cfg_shards config))) (mutex_new Map.empty),
          shard_mask = nz_get (cfg_shards config) - 1, hash_one = h\<rparr>"
proof -
  have "(1 :: nat) \<le> unat (nz_get (cfg_shards config))"
    using nz_get_pos [of "cfg_shards config"] by linarith
  then show ?thesis by (auto simp: shards_with_hasher_def checked_sub_def Let_def)
qed

lemma shards_with_hasher_ok:
  assumes "shards_with_hasher config h = Some d"
  shows "shards_ok d" and "shard_entry d = Map.empty"
proof -
  from assms obtain k where k: "k < 64" "nz_get (cfg_shards config) = 2 ^ k"
    by (auto simp: shards_with_hasher_Some is_power_of_two_iff)
  then have "(2 :: nat) ^ k < 2 ^ 64" by (intro power_strict_increasing) simp_all
  then have "unat (nz_get (cfg_shards config)) = 2 ^ k" using k unat_of_nat_u64 [of "2 ^ k"] by simp
  with assms k have d: "d = \<lparr>shards = replicate (2 ^ k) (mutex_new Map.empty), shard_mask = 2 ^ k - 1, hash_one = h\<rparr>"
    by (simp add: shards_with_hasher_Some)
  show ok: "shards_ok d"
    unfolding shards_ok_def using d k(1) by auto
  show "shard_entry d = Map.empty"
    using shard_index_less [OF ok] d by (auto simp: shard_entry_def fun_eq_iff)
qed

lemma dom_shard_entry:
  assumes "shards_ok d"
  shows "dom (shard_entry d) = (\<Union>j<length (shards d). dom (guarded (shards d ! j)))"
proof (intro equalityI subsetI)
  fix i assume "i \<in> dom (shard_entry d)"
  then have "i \<in> dom (guarded (shards d ! shard_index d i))" by (simp add: shard_entry_def dom_def)
  then show "i \<in> (\<Union>j<length (shards d). dom (guarded (shards d ! j)))"
    using shard_index_less [OF assms] by blast
next
  fix i assume "i \<in> (\<Union>j<length (shards d). dom (guarded (shards d ! j)))"
  then obtain j where j: "j < length (shards d)" "i \<in> dom (guarded (shards d ! j))" by blast
  then have "shard_index d i = j" using assms unfolding shards_ok_def by blast
  with j(2) show "i \<in> dom (shard_entry d)" by (simp add: shard_entry_def dom_def)
qed

lemma shards_len_sum:
  "\<forall>sh\<in>set shs. \<not> lock_poisoned sh \<Longrightarrow>
     foldr (\<lambda>sh acc. and_then (lock sh msg) (\<lambda>entries. and_then acc (\<lambda>n. Inr (card (dom entries) + n))))
       shs (Inr 0) = Inr (\<Sum>sh\<leftarrow>shs. card (dom (guarded sh)))"
  by (induction shs) (auto simp: lock_def)

lemma shards_len_entry:
  assumes "shards_ok d"
  shows "shards_len d = Inr (card (dom (shard_entry d)))"
proof -
  have "\<forall>sh\<in>set (shards d). \<not> lock_poisoned sh"
    using assms by (auto simp: shards_ok_def in_set_conv_nth)
  then have "shards_len d = Inr (\<Sum>sh\<leftarrow>shards d. card (dom (guarded sh)))"
    by (simp add: shards_len_def shards_len_sum)
  also have "(\<Sum>sh\<leftarrow>shards d. card (dom (guarded sh))) =
      (\<Sum>j<length (shards d). card (dom (guarded (shards d ! j))))"
    by (simp add: sum_list_sum_nth atLeast0LessThan)
  also have "\<dots> = card (\<Union>j<length (shards d). dom (guarded (shards d ! j)))"
  proof (rule card_UN_disjoint [symmetric])
    show "\<forall>j\<in>{..<length (shards d)}. finite (dom (guarded (shards d ! j)))"
      using assms unfolding shards_ok_def by blast
    show "\<forall>i\<in>{..<length (shards d)}. \<forall>j\<in>{..<length (shards d)}. i \<noteq> j \<longrightarrow>
        dom (guarded (shards d ! i)) \<inter> dom (guarded (shards d ! j)) = {}"
    proof (intro ballI impI)
      fix i j assume "i \<in> {..<length (shards d)}" "j \<in> {..<length (shards d)}" "i \<noteq> j"
      then have "\<forall>x\<in>dom (guarded (shards d ! i)). shard_index d x = i"
        "\<forall>x\<in>dom (guarded (shards d ! j)). shard_index d x = j"
        using assms unfolding shards_ok_def by simp_all
      then show "dom (guarded (shards d ! i)) \<inter> dom (guarded (shards d ! j)) = {}"
        using \<open>i \<noteq> j\<close> by (metis disjoint_iff)
    qed
  qed simp
  finally show ?thesis by (simp add: dom_shard_entry [OF assms])
qed

subsection \<open>Properties\<close>

text \<open>
  C40: Sharding is transparent: construction succeeds exactly for a power of two of shards, and
  then every sequence of insertions and pointer-matched removals returns without an index or lock
  panic, the shard a masked hash selects answers as one plain map would after the same sequence,
  and \<open>len\<close> is the size of that map.
\<close>

theorem sharded_map_is_one_map:
  "(shards_with_hasher config h = None \<longleftrightarrow> (\<forall>k<64. nz_get (cfg_shards config) \<noteq> 2 ^ k)) \<and>
   (shards_with_hasher config h = Some d \<longrightarrow>
     (\<exists>d'. map_ops insert_entry remove_matching d ops = Inr d' \<and>
        (\<exists>entries. lock_shard d' i = Inr entries \<and> entries i = foldl reference_op Map.empty ops i) \<and>
        shards_len d' = Inr (card (dom (foldl reference_op Map.empty ops)))))"
proof (intro conjI impI)
  show "shards_with_hasher config h = None \<longleftrightarrow> (\<forall>k<64. nz_get (cfg_shards config) \<noteq> 2 ^ k)"
    using shards_with_hasher_Some [of config h] is_power_of_two_iff [of "nz_get (cfg_shards config)"]
    by (cases "shards_with_hasher config h") auto
next
  assume "shards_with_hasher config h = Some d"
  note start = shards_with_hasher_ok [OF this]
  from sharded.map_ops_entry [OF start(1), of ops] start(2) obtain d' where
    "map_ops insert_entry remove_matching d ops = Inr d'" "shards_ok d'"
    "shard_entry d' = foldl reference_op Map.empty ops" by auto
  then show "\<exists>d'. map_ops insert_entry remove_matching d ops = Inr d' \<and>
        (\<exists>entries. lock_shard d' i = Inr entries \<and> entries i = foldl reference_op Map.empty ops i) \<and>
        shards_len d' = Inr (card (dom (foldl reference_op Map.empty ops)))"
    using sharded.find_entry [of d' i] shards_len_entry [of d'] by auto
qed

definition sample_config :: DirectoryConfig where
  "sample_config = \<lparr>cfg_shards = nz 2, cfg_activation_waiters = nz 3\<rparr>"

theorem sharded_map_is_one_map_witness:
  "\<exists>d d'. shards_with_hasher sample_config (\<lambda>i. entity_get i) = Some d \<and>
     map_ops insert_entry remove_matching d
       [Inl (EntityId 1, 0), Inl (EntityId 2, 1), Inr (EntityId 2, 7), Inr (EntityId 1, 0)] = Inr d' \<and>
     shards_len d' = Inr 1"
proof -
  have "shards_with_hasher sample_config (\<lambda>i :: u64 EntityId. entity_get i) \<noteq> None"
    using sharded_map_is_one_map [of sample_config "\<lambda>i. entity_get i"]
    by (auto simp: sample_config_def intro!: exI [of _ 1])
  then obtain d where d: "shards_with_hasher sample_config (\<lambda>i :: u64 EntityId. entity_get i) = Some d" by auto
  have "foldl reference_op Map.empty
      [Inl (EntityId 1, 0), Inl (EntityId 2, 1), Inr (EntityId 2, 7), Inr (EntityId (1 :: u64), 0)] = [EntityId 2 \<mapsto> 1]"
    by (auto simp: fun_eq_iff)
  moreover have "card (dom [EntityId (2 :: u64) \<mapsto> (1 :: nat)]) = 1" by simp
  ultimately show ?thesis
    using sharded_map_is_one_map [of sample_config "\<lambda>i. entity_get i" d
        "[Inl (EntityId 1, 0), Inl (EntityId 2, 1), Inr (EntityId 2, 7), Inr (EntityId 1, 0)]"] d
    by metis
qed

end
