(* ===== verification/Directory.thy ===== *)
theory Directory
  imports Sharded_Map Linearized_Executor Lifecycle_Machine
begin

section \<open>The local directory\<close>

text \<open>
  \<open>LocalDirectory\<close> of \<open>crates/entity/src/directory.rs\<close>.  \<open>Arc<Slot>\<close> is an index into
  \<open>dir_slots\<close>, the allocations made so far; \<open>Arc::ptr_eq\<close> is equality of indices and a slot is never
  overwritten by another.  Every operation is a program (\<open>Operation\<close>) that \<open>operation_step\<close> advances
  by one atomic section: one fetch of an identity, one shard-locked section, one slot submission,
  one executor section, or the interpretation of one effect.  A dispatch to an absent entity and
  \<open>current_activation\<close> take the lock of an executor inside their shard-locked section, as the code
  does.  No lock is held across two steps.  An effect either calls the runtime (\<open>RuntimeCall\<close>, reported by the step; \<open>handled\<close> is the panic of
  that callback, if any) or removes an entry.
  \<open>dir_step\<close> interleaves any number of operations; a callback that reenters the directory starts a
  further operation.
\<close>

subsection \<open>Errors, calls and outputs\<close>

datatype 'c DirectoryError =
    InvalidShardCount
  | ActivationIdsExhausted 'c
  | DispatchIdsExhausted 'c

datatype ('i, 'c, 'e, 'l) RuntimeCall =
    CallStartActivation "'i EntityId" ActivationId
  | CallDeliver "'i EntityId" ActivationId DispatchId 'e 'c
  | CallReject DispatchId 'c Refusal
  | CallEnqueueFence "'i EntityId" ActivationId 'e
  | CallRetire "'i EntityId" ActivationId 'l RetirementMode

datatype ('c, 'e, 'l) OutputTarget =
    Mapped nat
  | Transient "('c, 'e, 'l) SlotEffectBatch"

record ('i, 'c, 'e, 'l) DirectoryOutput =
  do_evidence :: TransitionEvidence
  do_activation_id :: "ActivationId option"
  do_entity_id :: "'i EntityId"
  do_target :: "('c, 'e, 'l) OutputTarget"

record ('i, 'c, 'e, 'l) DispatchOutput =
  dp_dispatch_id :: DispatchId
  dp_output :: "('i, 'c, 'e, 'l) DirectoryOutput"

definition directory_output ::
  "'i EntityId \<Rightarrow> TransitionEvidence \<Rightarrow> ActivationId option \<Rightarrow> ('c, 'e, 'l) OutputTarget \<Rightarrow>
     ('i, 'c, 'e, 'l) DirectoryOutput" where
  "directory_output i evidence activation target =
     \<lparr>do_evidence = evidence, do_activation_id = activation, do_entity_id = i, do_target = target\<rparr>"

subsection \<open>Slots\<close>

type_synonym SlotEvidence = "TransitionEvidence \<times> ActivationId option"

type_synonym ('c, 'e, 'l) Slot =
  "(('c, 'e, 'l) LifecycleMachine, ('c, 'e, 'l) LifecycleOutput, SlotEvidence) LinearizedExecutor"

text \<open>\<open>OutputEvidence for LifecycleOutput\<close>; it cannot panic.\<close>

definition output_evidence :: "('c, 'e, 'l) LifecycleOutput \<Rightarrow> panic + SlotEvidence" where
  "output_evidence out = Inr (out_evidence out, out_activation_id out)"

definition slot_new :: "panic + ('c, 'e, 'l) Slot" where
  "slot_new = and_then lifecycle_machine (\<lambda>m. Inr (linearized_new m))"

definition slot_submit ::
  "('c, 'e, 'l) Slot \<Rightarrow> ('c, 'e, 'l) SlotEvent \<Rightarrow> (panic + SlotEvidence) \<times> ('c, 'e, 'l) Slot" where
  "slot_submit slot ev = linearized_submit lifecycle_step output_evidence slot ev"

definition slot_activation :: "('c, 'e, 'l) Slot \<Rightarrow> panic + ActivationId option" where
  "slot_activation slot =
     and_then (linearized_evidence slot) (\<lambda>evidence. Inr (Option.bind evidence snd))"

subsection \<open>The directory\<close>

record ('i, 'c, 'e, 'l) LocalDirectory =
  dir_shards :: "'i Shards"
  dir_waiter_limit :: NonZeroUsize
  dir_next_activation :: u64
  dir_next_dispatch :: u64
  dir_slots :: "('c, 'e, 'l) Slot list"

definition with_hasher ::
  "DirectoryConfig \<Rightarrow> ('i EntityId \<Rightarrow> u64) \<Rightarrow> 'c DirectoryError + ('i, 'c, 'e, 'l) LocalDirectory" where
  "with_hasher config hash_builder =
     (case shards_with_hasher config hash_builder of
        None \<Rightarrow> Inl InvalidShardCount
      | Some shs \<Rightarrow>
          Inr \<lparr>dir_shards = shs, dir_waiter_limit = cfg_activation_waiters config,
            dir_next_activation = 1, dir_next_dispatch = 1, dir_slots = []\<rparr>)"

text \<open>The next identity of a sequence, and the sequence after \<open>fetch_update\<close>.\<close>

definition allocate :: "u64 \<Rightarrow> NonZeroU64 option \<times> u64" where
  "allocate current =
     (case checked_add current 1 of
        None \<Rightarrow> (None, current)
      | Some successor \<Rightarrow> (nz_new current, successor))"

definition alloc_slot ::
  "('i, 'c, 'e, 'l) LocalDirectory \<Rightarrow> ('c, 'e, 'l) Slot \<Rightarrow> nat \<times> ('i, 'c, 'e, 'l) LocalDirectory" where
  "alloc_slot self slot = (length (dir_slots self), self\<lparr>dir_slots := dir_slots self @ [slot]\<rparr>)"

definition submit_at ::
  "nat \<Rightarrow> ('c, 'e, 'l) SlotEvent \<Rightarrow> ('i, 'c, 'e, 'l) LocalDirectory \<Rightarrow>
     (panic + SlotEvidence) \<times> ('i, 'c, 'e, 'l) LocalDirectory" where
  "submit_at slot ev self =
     (let (r, slot') = slot_submit (dir_slots self ! slot) ev
      in (r, self\<lparr>dir_slots := (dir_slots self)[slot := slot']\<rparr>))"

subsection \<open>Effects\<close>

text \<open>
  \<open>apply_effect\<close>: the runtime call an effect makes, and the shards after it.  \<open>target\<close> is the
  mapped slot the effect belongs to, absent for a transient decision.
\<close>

fun apply_effect ::
  "'i EntityId \<Rightarrow> nat option \<Rightarrow> ('c, 'e, 'l) SlotEffect \<Rightarrow> 'i Shards \<Rightarrow>
     ('i, 'c, 'e, 'l) RuntimeCall option \<times> (panic + 'i Shards)" where
  "apply_effect i target (StartActivation a) shs = (Some (CallStartActivation i a), Inr shs)"
| "apply_effect i target (Deliver a d endpoint c) shs = (Some (CallDeliver i a d endpoint c), Inr shs)"
| "apply_effect i target (Reject d c reason) shs = (Some (CallReject d c reason), Inr shs)"
| "apply_effect i target (EnqueueFence a endpoint) shs = (Some (CallEnqueueFence i a endpoint), Inr shs)"
| "apply_effect i target (Retire a lease mode) shs = (Some (CallRetire i a lease mode), Inr shs)"
| "apply_effect i target (Remove a) shs =
     (None, case target of None \<Rightarrow> Inr shs | Some slot \<Rightarrow> remove_matching shs i slot)"

subsection \<open>Operations\<close>

datatype ('i, 'c, 'e, 'l) Operation =
    AtAllocate "'i EntityId" 'c
  | AtLookup DispatchId "'i EntityId" 'c
  | AtDispatch DispatchId "'i EntityId" nat 'c
  | DispatchReturned "'c DirectoryError + ('i, 'c, 'e, 'l) DispatchOutput"
  | AtFind "'i EntityId" "('c, 'e, 'l) SlotEvent"
  | AtSubmitTo nat "'i EntityId" "('c, 'e, 'l) SlotEvent"
  | OutputReturned "('i, 'c, 'e, 'l) DirectoryOutput"
  | AtInterpret "'i EntityId" nat "('c, 'e, 'l) LifecycleOutput Invocation" "('c, 'e, 'l) SlotEffect list"
  | AtTransient "'i EntityId" "('c, 'e, 'l) SlotEffect list"
  | AtCurrent "'i EntityId"
  | CurrentReturned "ActivationId option"
  | OperationUnwound panic

text \<open>\<open>submit_absent\<close>: the event meets an inactive machine that is thrown away.\<close>

definition submit_absent ::
  "'i EntityId \<Rightarrow> ('c, 'e, 'l) SlotEvent \<Rightarrow> panic + ('i, 'c, 'e, 'l) DirectoryOutput" where
  "submit_absent i ev =
     and_then lifecycle_machine (\<lambda>m.
       and_then (lifecycle_step m ev) (\<lambda>(out, _).
         Inr (directory_output i (out_evidence out) (out_activation_id out) (Transient (out_effects out)))))"

text \<open>The section of \<open>dispatch\<close> under the shard lock.\<close>

definition dispatch_lookup ::
  "DispatchId \<Rightarrow> 'i EntityId \<Rightarrow> 'c \<Rightarrow> ('i, 'c, 'e, 'l) LocalDirectory \<Rightarrow>
     ('i, 'c, 'e, 'l) Operation \<times> ('i, 'c, 'e, 'l) LocalDirectory" where
  "dispatch_lookup d i c self =
     (case lock_shard (dir_shards self) i of
        Inl p \<Rightarrow> (OperationUnwound p, self)
      | Inr entries \<Rightarrow>
          (case entries i of
             Some slot \<Rightarrow> (AtDispatch d i slot c, self)
           | None \<Rightarrow>
               (case allocate (dir_next_activation self) of
                  (None, _) \<Rightarrow> (DispatchReturned (Inl (ActivationIdsExhausted c)), self)
                | (Some sequence, next) \<Rightarrow>
                    let self1 = self\<lparr>dir_next_activation := next\<rparr>;
                        poisoned = poison_shard (dir_shards self) i entries in
                    case slot_new of
                      Inl p \<Rightarrow> (OperationUnwound p, self1\<lparr>dir_shards := poisoned\<rparr>)
                    | Inr fresh \<Rightarrow>
                        let (slot, self2) = alloc_slot self1 fresh in
                        case submit_at slot
                            (ClaimActivation (ActivationId sequence) d c (dir_waiter_limit self)) self2 of
                          (Inl p, self3) \<Rightarrow> (OperationUnwound p, self3\<lparr>dir_shards := poisoned\<rparr>)
                        | (Inr (evidence, activation), self3) \<Rightarrow>
                            (DispatchReturned (Inr
                               \<lparr>dp_dispatch_id = d,
                                dp_output = directory_output i evidence activation (Mapped slot)\<rparr>),
                             self3\<lparr>dir_shards := set_shard (dir_shards self) i (entries(i \<mapsto> slot))\<rparr>))))"

fun operation_step ::
  "panic option \<Rightarrow> ('i, 'c, 'e, 'l) Operation \<Rightarrow> ('i, 'c, 'e, 'l) LocalDirectory \<Rightarrow>
     ('i, 'c, 'e, 'l) RuntimeCall option \<times> ('i, 'c, 'e, 'l) Operation \<times> ('i, 'c, 'e, 'l) LocalDirectory"
where
  "operation_step handled (AtAllocate i c) self =
     (case allocate (dir_next_dispatch self) of
        (None, _) \<Rightarrow> (None, DispatchReturned (Inl (DispatchIdsExhausted c)), self)
      | (Some sequence, next) \<Rightarrow>
          (None, AtLookup (DispatchId sequence) i c, self\<lparr>dir_next_dispatch := next\<rparr>))"
| "operation_step handled (AtLookup d i c) self = (None, dispatch_lookup d i c self)"
| "operation_step handled (AtDispatch d i slot c) self =
     (case submit_at slot (Dispatch d c) self of
        (Inl p, self') \<Rightarrow> (None, OperationUnwound p, self')
      | (Inr (evidence, activation), self') \<Rightarrow>
          (None,
           DispatchReturned (Inr
             \<lparr>dp_dispatch_id = d, dp_output = directory_output i evidence activation (Mapped slot)\<rparr>),
           self'))"
| "operation_step handled (AtFind i ev) self =
     (case lock_shard (dir_shards self) i of
        Inl p \<Rightarrow> (None, OperationUnwound p, self)
      | Inr entries \<Rightarrow>
          (case entries i of
             Some slot \<Rightarrow> (None, AtSubmitTo slot i ev, self)
           | None \<Rightarrow>
               (case submit_absent i ev of
                  Inl p \<Rightarrow> (None, OperationUnwound p, self)
                | Inr out \<Rightarrow> (None, OutputReturned out, self))))"
| "operation_step handled (AtSubmitTo slot i ev) self =
     (case submit_at slot ev self of
        (Inl p, self') \<Rightarrow> (None, OperationUnwound p, self')
      | (Inr (evidence, activation), self') \<Rightarrow>
          (None, OutputReturned (directory_output i evidence activation (Mapped slot)), self'))"
| "operation_step handled (AtInterpret i slot pc (effect # effects)) self =
     (let (call, applied) = apply_effect i (Some slot) effect (dir_shards self);
          shs = (case applied of Inl _ \<Rightarrow> dir_shards self | Inr shs \<Rightarrow> shs);
          unwound = (case applied of Inl p \<Rightarrow> Some p | Inr _ \<Rightarrow> Option.bind call (\<lambda>_. handled));
          self' = self\<lparr>dir_shards := shs\<rparr>
      in case unwound of
           None \<Rightarrow> (call, AtInterpret i slot pc effects, self')
         | Some p \<Rightarrow>
             let (pc', executor) = dispatch_pending_step (Some p) pc (dir_slots self ! slot)
             in (call, AtInterpret i slot pc' [],
                 self'\<lparr>dir_slots := (dir_slots self)[slot := executor]\<rparr>))"
| "operation_step handled (AtInterpret i slot pc []) self =
     (let (pc', executor) = dispatch_pending_step None pc (dir_slots self ! slot);
          effects = (case pc' of AtHandle _ out \<Rightarrow> as_slice (out_effects out) | _ \<Rightarrow> [])
      in (None, AtInterpret i slot pc' effects, self\<lparr>dir_slots := (dir_slots self)[slot := executor]\<rparr>))"
| "operation_step handled (AtTransient i (effect # effects)) self =
     (let (call, applied) = apply_effect i None effect (dir_shards self)
      in case Option.bind call (\<lambda>_. handled) of
           None \<Rightarrow> (call, AtTransient i effects, self)
         | Some p \<Rightarrow> (call, OperationUnwound p, self))"
| "operation_step handled (AtCurrent i) self =
     (case lock_shard (dir_shards self) i of
        Inl p \<Rightarrow> (None, OperationUnwound p, self)
      | Inr entries \<Rightarrow>
          (case entries i of
             None \<Rightarrow> (None, CurrentReturned None, self)
           | Some slot \<Rightarrow>
               (case slot_activation (dir_slots self ! slot) of
                  Inl p \<Rightarrow>
                    (None, OperationUnwound p,
                     self\<lparr>dir_shards := poison_shard (dir_shards self) i entries\<rparr>)
                | Inr activation \<Rightarrow> (None, CurrentReturned activation, self))))"
| "operation_step handled finished self = (None, finished, self)"

text \<open>\<open>interpret\<close>: what becomes of an output its caller interprets.\<close>

definition interpret_output ::
  "('i, 'c, 'e, 'l) DirectoryOutput \<Rightarrow> ('i, 'c, 'e, 'l) Operation" where
  "interpret_output out =
     (case do_target out of
        Mapped slot \<Rightarrow> AtInterpret (do_entity_id out) slot AtAcquire []
      | Transient effects \<Rightarrow> AtTransient (do_entity_id out) (as_slice effects))"

text \<open>The public operations.\<close>

definition dispatch :: "'i EntityId \<Rightarrow> 'c \<Rightarrow> ('i, 'c, 'e, 'l) Operation" where
  "dispatch i c = AtAllocate i c"

definition submit_or_inactive ::
  "'i EntityId \<Rightarrow> ('c, 'e, 'l) SlotEvent \<Rightarrow> ('i, 'c, 'e, 'l) Operation" where
  "submit_or_inactive i ev = AtFind i ev"

definition activation_succeeded ::
  "'i EntityId \<Rightarrow> ActivationId \<Rightarrow> 'e \<Rightarrow> 'l \<Rightarrow> ('i, 'c, 'e, 'l) Operation" where
  "activation_succeeded i a endpoint lease = submit_or_inactive i (ActivationSucceeded a endpoint lease)"

definition activation_failed :: "'i EntityId \<Rightarrow> ActivationId \<Rightarrow> ('i, 'c, 'e, 'l) Operation" where
  "activation_failed i a = submit_or_inactive i (ActivationFailed a)"

definition cancel_waiter ::
  "'i EntityId \<Rightarrow> ActivationId \<Rightarrow> DispatchId \<Rightarrow> ('i, 'c, 'e, 'l) Operation" where
  "cancel_waiter i a d = submit_or_inactive i (CancelWaiter a d)"

definition delivery_resolved ::
  "'i EntityId \<Rightarrow> ActivationId \<Rightarrow> (DispatchId \<times> 'c) option \<Rightarrow> ('i, 'c, 'e, 'l) Operation" where
  "delivery_resolved i a failure = submit_or_inactive i (DeliveryResolved a failure)"

definition begin_drain_of :: "'i EntityId \<Rightarrow> ActivationId \<Rightarrow> ('i, 'c, 'e, 'l) Operation" where
  "begin_drain_of i a = submit_or_inactive i (BeginDrain a)"

definition fence_acknowledged :: "'i EntityId \<Rightarrow> ActivationId \<Rightarrow> ('i, 'c, 'e, 'l) Operation" where
  "fence_acknowledged i a = submit_or_inactive i (FenceAcknowledged a)"

definition force_drain_of ::
  "'i EntityId \<Rightarrow> ActivationId \<Rightarrow> DrainFailure \<Rightarrow> ('i, 'c, 'e, 'l) Operation" where
  "force_drain_of i a failure = submit_or_inactive i (ForceDrain a failure)"

definition terminated :: "'i EntityId \<Rightarrow> ActivationId \<Rightarrow> ('i, 'c, 'e, 'l) Operation" where
  "terminated i a = submit_or_inactive i (Terminated a)"

definition current_activation :: "'i EntityId \<Rightarrow> ('i, 'c, 'e, 'l) Operation" where
  "current_activation i = AtCurrent i"

definition directory_len :: "('i, 'c, 'e, 'l) LocalDirectory \<Rightarrow> panic + nat" where
  "directory_len self = shards_len (dir_shards self)"

end
