(* ===== verification/Directory_Schedules.thy ===== *)
theory Directory_Schedules
  imports Directory
begin

section \<open>Schedules of the directory\<close>

text \<open>
  The interleavings of any number of directory operations, and what every schedule keeps: the
  shards stay usable, every pointer an operation holds belongs to the entity it works for, and each
  slot, seen alone, runs a schedule of its linearized executor (\<open>slot_system\<close>).
\<close>

subsection \<open>The system\<close>

record ('i, 'c, 'e, 'l) DirectorySystem =
  ds_directory :: "('i, 'c, 'e, 'l) LocalDirectory"
  ds_operations :: "nat \<Rightarrow> ('i, 'c, 'e, 'l) Operation option"

datatype ('i, 'c, 'e, 'l) DirectoryLabel =
    Begin nat "('i, 'c, 'e, 'l) Operation"
  | Interpret nat "('i, 'c, 'e, 'l) DirectoryOutput"
  | Progress nat "('i, 'c, 'e, 'l) Operation" "('i, 'c, 'e, 'l) RuntimeCall option" "('i, 'c, 'e, 'l) Operation"

definition directory_start ::
  "('i, 'c, 'e, 'l) LocalDirectory \<Rightarrow> ('i, 'c, 'e, 'l) DirectorySystem" where
  "directory_start self = \<lparr>ds_directory = self, ds_operations = \<lambda>_. None\<rparr>"

text \<open>The operations a caller may begin: a dispatch, a typed fact, a look at the activation.\<close>

fun public_operation :: "('i, 'c, 'e, 'l) Operation \<Rightarrow> bool" where
  "public_operation (AtAllocate _ _) = True"
| "public_operation (AtFind _ ev) = (event_generation ev \<noteq> None)"
| "public_operation (AtCurrent _) = True"
| "public_operation _ = False"

lemma public_operations:
  "public_operation (dispatch i c)" "public_operation (activation_succeeded i a endpoint lease)"
  "public_operation (activation_failed i a)" "public_operation (cancel_waiter i a d)"
  "public_operation (delivery_resolved i a failure)" "public_operation (begin_drain_of i a)"
  "public_operation (fence_acknowledged i a)" "public_operation (force_drain_of i a f)"
  "public_operation (terminated i a)" "public_operation (current_activation i)"
  by (simp_all add: dispatch_def submit_or_inactive_def activation_succeeded_def activation_failed_def
      cancel_waiter_def delivery_resolved_def begin_drain_of_def fence_acknowledged_def
      force_drain_of_def terminated_def current_activation_def)

fun returned_output :: "('i, 'c, 'e, 'l) Operation \<Rightarrow> ('i, 'c, 'e, 'l) DirectoryOutput option" where
  "returned_output (DispatchReturned (Inr out)) = Some (dp_output out)"
| "returned_output (OutputReturned out) = Some out"
| "returned_output _ = None"

text \<open>The panic an operation, or its interpretation, ended with.\<close>

fun panicked :: "('i, 'c, 'e, 'l) Operation \<Rightarrow> panic option" where
  "panicked (OperationUnwound p) = Some p"
| "panicked (AtInterpret _ _ (Unwound p) _) = Some p"
| "panicked _ = None"

inductive dir_step ::
  "('i, 'c, 'e, 'l) DirectorySystem \<Rightarrow> ('i, 'c, 'e, 'l) DirectoryLabel \<Rightarrow>
     ('i, 'c, 'e, 'l) DirectorySystem \<Rightarrow> bool" where
  dir_begin:
    "ds_operations s k = None \<Longrightarrow> public_operation op \<Longrightarrow>
       dir_step s (Begin k op) (s\<lparr>ds_operations := (ds_operations s)(k \<mapsto> op)\<rparr>)"
| dir_interpret:
    "ds_operations s k = Some op \<Longrightarrow> returned_output op = Some out \<Longrightarrow>
       dir_step s (Interpret k out) (s\<lparr>ds_operations := (ds_operations s)(k \<mapsto> interpret_output out)\<rparr>)"
| dir_progress:
    "ds_operations s k = Some op \<Longrightarrow>
       operation_step handled op (ds_directory s) = (call, op', dir') \<Longrightarrow>
       dir_step s (Progress k op call op')
         (s\<lparr>ds_directory := dir', ds_operations := (ds_operations s)(k \<mapsto> op')\<rparr>)"

inductive_cases dir_stepE: "dir_step s l s'"
inductive_simps dir_begin_iff [simp]: "dir_step s (Begin k op) s'"
inductive_simps dir_interpret_iff [simp]: "dir_step s (Interpret k out) s'"
inductive_simps dir_progress_iff [simp]: "dir_step s (Progress k op call op') s'"

lemma dir_step_cases [consumes 1, case_names begun interpreted progress]:
  assumes "dir_step s l s'"
  obtains k op where "l = Begin k op" "ds_operations s k = None" "public_operation op"
      "s' = s\<lparr>ds_operations := (ds_operations s)(k \<mapsto> op)\<rparr>"
  | k op out where "l = Interpret k out" "ds_operations s k = Some op" "returned_output op = Some out"
      "s' = s\<lparr>ds_operations := (ds_operations s)(k \<mapsto> interpret_output out)\<rparr>"
  | k op handled call op' dir' where "l = Progress k op call op'" "ds_operations s k = Some op"
      "operation_step handled op (ds_directory s) = (call, op', dir')"
      "s' = s\<lparr>ds_directory := dir', ds_operations := (ds_operations s)(k \<mapsto> op')\<rparr>"
  using assms by (elim dir_stepE) blast+

subsection \<open>Reading a schedule\<close>

text \<open>
  The claims made, in the order of the slots they allocated; the events submitted to a slot; the
  effects of a slot that were applied.
\<close>

fun claim_label :: "('i, 'c, 'e, 'l) DirectoryLabel \<Rightarrow> ('i EntityId \<times> ActivationId option) list" where
  "claim_label (Progress k (AtLookup d i c) call (DispatchReturned (Inr out))) =
     [(i, do_activation_id (dp_output out))]"
| "claim_label _ = []"

fun event_label :: "NonZeroUsize \<Rightarrow> nat \<Rightarrow> ('i, 'c, 'e, 'l) DirectoryLabel \<Rightarrow> ('c, 'e, 'l) SlotEvent list" where
  "event_label limit p (Progress k (AtLookup d i c) call (DispatchReturned (Inr out))) =
     (case (do_target (dp_output out), do_activation_id (dp_output out)) of
        (Mapped q, Some a) \<Rightarrow> if q = p then [ClaimActivation a d c limit] else []
      | _ \<Rightarrow> [])"
| "event_label limit p (Progress k (AtDispatch d i q c) call (DispatchReturned (Inr out))) =
     (if q = p then [Dispatch d c] else [])"
| "event_label limit p (Progress k (AtSubmitTo q i ev) call (OutputReturned out)) =
     (if q = p then [ev] else [])"
| "event_label limit p _ = []"

fun applied_label :: "nat \<Rightarrow> ('i, 'c, 'e, 'l) DirectoryLabel \<Rightarrow> ('c, 'e, 'l) SlotEffect list" where
  "applied_label p (Progress k (AtInterpret i q pc (effect # effects)) call op') =
     (if q = p then [effect] else [])"
| "applied_label p _ = []"

fun callback_panic :: "('i, 'c, 'e, 'l) DirectoryLabel \<Rightarrow> bool" where
  "callback_panic (Progress k (AtInterpret i q pc (effect # effects)) call (AtInterpret _ _ (Unwound _) _)) = True"
| "callback_panic _ = False"

definition claims_made :: "('i, 'c, 'e, 'l) DirectoryLabel list \<Rightarrow> ('i EntityId \<times> ActivationId option) list" where
  "claims_made tr = concat (map claim_label tr)"

definition slot_events ::
  "NonZeroUsize \<Rightarrow> nat \<Rightarrow> ('i, 'c, 'e, 'l) DirectoryLabel list \<Rightarrow> ('c, 'e, 'l) SlotEvent list" where
  "slot_events limit p tr = concat (map (event_label limit p) tr)"

definition applied_effects :: "nat \<Rightarrow> ('i, 'c, 'e, 'l) DirectoryLabel list \<Rightarrow> ('c, 'e, 'l) SlotEffect list" where
  "applied_effects p tr = concat (map (applied_label p) tr)"

lemma directory_schedule_simps [simp]:
  "claims_made [] = []" "claims_made (tr @ [l]) = claims_made tr @ claim_label l"
  "slot_events limit p [] = []" "slot_events limit p (tr @ [l]) = slot_events limit p tr @ event_label limit p l"
  "applied_effects p [] = []" "applied_effects p (tr @ [l]) = applied_effects p tr @ applied_label p l"
  by (simp_all add: claims_made_def slot_events_def applied_effects_def)

subsection \<open>Identities\<close>

lemma allocate_simps:
  "unat n + 1 < 2 ^ 64 \<Longrightarrow> n \<noteq> 0 \<Longrightarrow> allocate n = (Some (nz n), n + 1) \<and> unat (n + 1) = unat n + 1"
  "2 ^ 64 \<le> unat n + 1 \<Longrightarrow> allocate n = (None, n)"
proof -
  assume n: "unat n + 1 < 2 ^ 64" "n \<noteq> 0"
  have one: "unat (1 :: u64) = 1" by simp
  have add: "checked_add n 1 = Some (n + 1)" using n(1) unfolding checked_add_def one by simp
  then have "unat (n + 1) = unat n + 1" using checked_add_Some [OF add] one by simp
  with add n(2) show "allocate n = (Some (nz n), n + 1) \<and> unat (n + 1) = unat n + 1"
    unfolding allocate_def nz_new_def by simp
next
  have one: "unat (1 :: u64) = 1" by simp
  assume "2 ^ 64 \<le> unat n + 1"
  then have "checked_add n 1 = None" unfolding checked_add_None one .
  then show "allocate n = (None, n)" unfolding allocate_def by simp
qed

subsection \<open>Fresh slots\<close>

definition fresh_machine :: "('c, 'e, 'l) LifecycleMachine" where
  "fresh_machine = base_new Inactive (ValidatedTopology lifecycle_topology) transition"

lemma fresh_machine_simps [simp]:
  "base_state fresh_machine = Inactive" "base_transition fresh_machine = transition"
  by (simp_all add: fresh_machine_def base_new_def)

lemma lifecycle_machine_fresh: "lifecycle_machine = Inr fresh_machine"
  by (simp add: lifecycle_machine_eq fresh_machine_def)

lemma slot_new_eq: "slot_new = Inr (linearized_new fresh_machine)"
  by (simp add: slot_new_def lifecycle_machine_fresh)

text \<open>An executor whose slot has ended for good.\<close>

definition ended :: "('c, 'e, 'l) Slot \<Rightarrow> bool" where
  "ended slot \<longleftrightarrow> \<not> lock_poisoned slot \<and>
     (\<exists>m. le_machine (guarded slot) = LmReady m \<and> base_transition m = transition \<and> base_state m = Inactive)"

lemma claim_fresh:
  "\<exists>ev slot' out m'.
     slot_submit (linearized_new fresh_machine) (ClaimActivation a d c limit) = (Inr (ev, Some a), slot') \<and>
     lifecycle_step fresh_machine (ClaimActivation a d c limit) = Inr (out, m') \<and>
     le_outputs (guarded slot') = [out] \<and> as_slice (out_effects out) = [StartActivation a]"
proof -
  let ?ev = "ClaimActivation a d c limit :: ('a, 'b, 'c) SlotEvent"
  have "\<exists>d'. reduce (Inactive :: ('a, 'b, 'c) EntitySlot) ?ev = Inr d' \<and>
      slot_activation_id (dec_state d') = Some a \<and> as_slice (dec_effects d') = [StartActivation a]"
    by (simp add: decision_defs)
  then obtain d' where d': "reduce (Inactive :: ('a, 'b, 'c) EntitySlot) ?ev = Inr d'"
    "slot_activation_id (dec_state d') = Some a" "as_slice (dec_effects d') = [StartActivation a]" by blast
  then obtain out where out: "transition Inactive ?ev = Inr (out, dec_state d')" "out_effects out = dec_effects d'"
    using reduce_transition by blast
  then have "out_activation_id out = Some a" using d'(2) by (auto simp: transition_Inr)
  then show ?thesis
    using out d'(3)
    by (simp add: slot_submit_def linearized_submit_def linearized_new_def lock_def Let_def
        lifecycle_step_Inr output_evidence_def lifecycle_step_def base_step_def call_fn_def)
qed

text \<open>What the shard-locked section of \<open>dispatch\<close> does, with usable shards.\<close>

lemma dispatch_lookup_cases:
  fixes self :: "('i, 'c, 'e, 'l) LocalDirectory"
  assumes "shards_ok (dir_shards self)" and "dir_next_activation self \<noteq> 0"
    and "dispatch_lookup d i c self = (op', self')"
  obtains (found) p where "shard_entry (dir_shards self) i = Some p" "op' = AtDispatch d i p c" "self' = self"
  | (exhausted) "shard_entry (dir_shards self) i = None" "2 ^ 64 \<le> unat (dir_next_activation self) + 1"
      "op' = DispatchReturned (Inl (ActivationIdsExhausted c))" "self' = self"
  | (claimed) ev slot out where "shard_entry (dir_shards self) i = None"
      "unat (dir_next_activation self) + 1 < 2 ^ 64"
      "op' = DispatchReturned (Inr \<lparr>dp_dispatch_id = d, dp_output = directory_output i ev
         (Some (ActivationId (nz (dir_next_activation self)))) (Mapped (length (dir_slots self)))\<rparr>)"
      "slot_submit (linearized_new fresh_machine)
         (ClaimActivation (ActivationId (nz (dir_next_activation self))) d c (dir_waiter_limit self)) =
         (Inr (ev, Some (ActivationId (nz (dir_next_activation self)))), slot)"
      "le_outputs (guarded slot) = [out]"
      "as_slice (out_effects out) = [StartActivation (ActivationId (nz (dir_next_activation self)))]"
      "dir_slots self' = dir_slots self @ [slot]"
      "dir_next_activation self' = dir_next_activation self + 1"
      "dir_waiter_limit self' = dir_waiter_limit self"
      "shards_ok (dir_shards self')"
      "shard_entry (dir_shards self') = (shard_entry (dir_shards self))(i \<mapsto> length (dir_slots self))"
      "dir_next_dispatch self' = dir_next_dispatch self"
proof -
  let ?shs = "dir_shards self" and ?n = "dir_next_activation self"
  let ?entries = "guarded (shards ?shs ! shard_index ?shs i)"
  let ?a = "ActivationId (nz ?n)" and ?slot = "length (dir_slots self)"
  have locked: "lock_shard ?shs i = Inr ?entries" using assms(1) by (rule lock_shard_ok)
  have at: "?entries i = shard_entry ?shs i" by (simp add: shard_entry_def)
  show ?thesis
  proof (cases "shard_entry ?shs i")
    case (Some p)
    then show ?thesis using found assms(3) locked at by (simp add: dispatch_lookup_def)
  next
    case None
    show ?thesis
    proof (cases "unat ?n + 1 < 2 ^ 64")
      case False
      then have max: "2 ^ 64 \<le> unat ?n + 1" by (simp only: not_less)
      have "dispatch_lookup d i c self = (DispatchReturned (Inl (ActivationIdsExhausted c)), self)"
        unfolding dispatch_lookup_def locked sum.case at None option.case allocate_simps(2) [OF max]
          prod.case ..
      then have "op' = DispatchReturned (Inl (ActivationIdsExhausted c))" "self' = self"
        using assms(3) by (simp_all only: prod.inject)
      then show ?thesis by (rule exhausted [OF None max])
    next
      case True
      then have alloc: "allocate ?n = (Some (nz ?n), ?n + 1)" using allocate_simps(1) assms(2) by blast
      obtain ev out and slot :: "('c, 'e, 'l) Slot" where claim:
        "slot_submit (linearized_new fresh_machine) (ClaimActivation ?a d c (dir_waiter_limit self)) =
           (Inr (ev, Some ?a), slot)"
        "le_outputs (guarded slot) = [out]" "as_slice (out_effects out) = [StartActivation ?a]"
        using claim_fresh [of ?a d c "dir_waiter_limit self"] by blast
      have ins: "insert_entry ?shs i ?slot = Inr (set_shard ?shs i (?entries(i \<mapsto> ?slot)))"
        using locked by (simp add: insert_entry_def)
      from sharded.add_entry [OF assms(1), of i ?slot]
      have put: "shards_ok (set_shard ?shs i (?entries(i \<mapsto> ?slot)))"
        "shard_entry (set_shard ?shs i (?entries(i \<mapsto> ?slot))) = (shard_entry ?shs)(i \<mapsto> ?slot)"
        unfolding ins by auto
      let ?shs' = "set_shard ?shs i (?entries(i \<mapsto> ?slot))"
      let ?op = "DispatchReturned (Inr \<lparr>dp_dispatch_id = d,
        dp_output = directory_output i ev (Some ?a) (Mapped ?slot)\<rparr>)"
      let ?self1 = "self\<lparr>dir_next_activation := ?n + 1\<rparr>"
      let ?self2 = "?self1\<lparr>dir_slots := dir_slots ?self1 @ [linearized_new fresh_machine]\<rparr>"
      let ?self3 = "?self2\<lparr>dir_slots := (dir_slots ?self2)[?slot := slot]\<rparr>"
      have "submit_at ?slot (ClaimActivation ?a d c (dir_waiter_limit self)) ?self2 =
          (Inr (ev, Some ?a), ?self3)"
        unfolding submit_at_def by (simp add: claim(1))
      then have "dispatch_lookup d i c self = (?op, ?self3\<lparr>dir_shards := ?shs'\<rparr>)"
        unfolding dispatch_lookup_def locked sum.case at None option.case alloc prod.case slot_new_eq
          Let_def alloc_slot_def by simp
      then have result: "op' = ?op" "self' = ?self3\<lparr>dir_shards := ?shs'\<rparr>"
        using assms(3) by simp_all
      show ?thesis
        by (rule claimed [OF None True result(1) claim]) (simp_all add: result(2) put)
    qed
  qed
qed

end
