(* ===== verification/Runtime.thy ===== *)
theory Runtime
  imports Directory_Schedules
begin

section \<open>The entity runtime\<close>

text \<open>
  \<open>crates/entity/src/runtime.rs\<close>: the asynchronous facade over the directory.  A \<open>Completion\<close> is a
  mutex around its state, whose sections cannot panic; \<open>Arc<Completion>\<close> is an index into the
  completions made so far and a \<open>Waker\<close> a number.  The actor runtime behind \<open>LocalEntityRuntime\<close> is
  a parameter: a spawned task waits for its answer, any answer of the right type at any time.
  Application calls and spawned tasks are threads; a thread runs one directory operation at a time
  (\<open>Directory\<close>), and what it does when that operation returns is \<open>thread_advance\<close>.
\<close>

subsection \<open>Data\<close>

record ('e, 'l) Activated =
  activated_endpoint :: 'e
  activated_lease :: 'l

datatype FenceFailure = FfEnqueue | FfAcknowledgement

datatype Passivation = Begun | NotActive | AlreadyPassivating | Superseded

datatype 'c DispatchFailure =
    Refused 'c Refusal
  | RefusedActivationIds 'c
  | RefusedDispatchIds 'c

record 'c PendingCommand =
  pc_command :: 'c
  pc_completion :: nat

subsection \<open>Completions\<close>

type_synonym 'c DispatchResult = "'c DispatchFailure + unit"

datatype 'c CompletionState =
    Awaiting "nat option"
  | Ready "'c DispatchResult"
  | Consumed

definition completion_new_state :: "'c CompletionState" where
  "completion_new_state = Awaiting None"

text \<open>\<open>Completion::complete\<close>: the waker it wakes, and the state it leaves.\<close>

fun completion_complete :: "'c CompletionState \<Rightarrow> 'c DispatchResult \<Rightarrow> nat option \<times> 'c CompletionState" where
  "completion_complete (Awaiting waker) result = (waker, Ready result)"
| "completion_complete (Ready r) result = (None, Ready r)"
| "completion_complete Consumed result = (None, Consumed)"

fun poll_take :: "'c CompletionState \<Rightarrow> nat \<Rightarrow> 'c DispatchResult option \<times> 'c CompletionState" where
  "poll_take (Ready result) waker = (Some result, Consumed)"
| "poll_take (Awaiting stored) waker = (None, Awaiting (Some waker))"
| "poll_take Consumed waker = (None, Consumed)"

definition is_consumed :: "'c CompletionState \<Rightarrow> bool" where
  "is_consumed self \<longleftrightarrow> self = Consumed"

subsection \<open>Calls of the application\<close>

text \<open>The error of \<open>LocalDirectory::dispatch\<close> as a dispatch failure.\<close>

definition dispatch_failure :: "'c PendingCommand DirectoryError \<Rightarrow> panic + 'c DispatchFailure" where
  "dispatch_failure error =
     (case error of
        InvalidShardCount \<Rightarrow> Inl (Panic ''configuration was validated'')
      | ActivationIdsExhausted pending \<Rightarrow> Inr (RefusedActivationIds (pc_command pending))
      | DispatchIdsExhausted pending \<Rightarrow> Inr (RefusedDispatchIds (pc_command pending)))"

text \<open>The error of the constructor.\<close>

definition strip_error :: "'c PendingCommand DirectoryError \<Rightarrow> 'c DirectoryError" where
  "strip_error error =
     (case error of
        InvalidShardCount \<Rightarrow> InvalidShardCount
      | ActivationIdsExhausted pending \<Rightarrow> ActivationIdsExhausted (pc_command pending)
      | DispatchIdsExhausted pending \<Rightarrow> DispatchIdsExhausted (pc_command pending))"

text \<open>How \<open>passivate\<close> reads the evidence of its \<open>BeginDrain\<close>.\<close>

definition passivation_of :: "TransitionEvidence \<Rightarrow> Passivation" where
  "passivation_of evidence =
     (let by_phase = (\<lambda>p. case p of
          PActive \<Rightarrow> Superseded
        | PDraining \<Rightarrow> AlreadyPassivating
        | PRetiring \<Rightarrow> AlreadyPassivating
        | PInactive \<Rightarrow> NotActive
        | PActivating \<Rightarrow> NotActive)
      in case evidence of
           Traversed _ \<Rightarrow> Begun
         | SelfLoop p _ \<Rightarrow> by_phase p
         | Ignored p _ \<Rightarrow> by_phase p)"

record 'i DispatchWait =
  dw_completion :: nat
  dw_entity_id :: "'i EntityId"
  dw_activation_id :: "ActivationId option"
  dw_dispatch_id :: DispatchId

subsection \<open>Tasks\<close>

datatype ('i, 'c, 'e, 'l) Task =
    ActivateTask "'i EntityId" ActivationId
  | DeliverTask "'i EntityId" ActivationId DispatchId 'e "'c PendingCommand"
  | FenceTask "'i EntityId" ActivationId 'e
  | RetireTask "'i EntityId" ActivationId 'l RetirementMode

datatype ('i, 'c, 'e, 'l) Callback =
    Spawn "('i, 'c, 'e, 'l) Task"
  | Complete nat "'c DispatchResult"

text \<open>The \<open>EffectInterpreter\<close> of the runtime.\<close>

fun on_call :: "('i, 'c PendingCommand, 'e, 'l) RuntimeCall \<Rightarrow> ('i, 'c, 'e, 'l) Callback" where
  "on_call (CallStartActivation i a) = Spawn (ActivateTask i a)"
| "on_call (CallDeliver i a d endpoint pending) = Spawn (DeliverTask i a d endpoint pending)"
| "on_call (CallReject d pending reason) =
     Complete (pc_completion pending) (Inl (Refused (pc_command pending) reason))"
| "on_call (CallEnqueueFence i a endpoint) = Spawn (FenceTask i a endpoint)"
| "on_call (CallRetire i a lease mode) = Spawn (RetireTask i a lease mode)"

datatype ('c, 'e, 'l) Answer =
    AnsActivate "unit + ('e, 'l) Activated"
  | AnsDeliver "'c + unit"
  | AnsFence "FenceFailure + unit"
  | AnsRetire

text \<open>
  What a task does once its future is ready: the completion it completes, and the fact it submits.
\<close>

fun task_answer ::
  "('i, 'c, 'e, 'l) Task \<Rightarrow> ('c, 'e, 'l) Answer \<Rightarrow>
     ((nat \<times> 'c DispatchResult) option \<times> ('i, 'c PendingCommand, 'e, 'l) Operation) option" where
  "task_answer (ActivateTask i a) (AnsActivate result) =
     Some (None,
       case result of
         Inr activated \<Rightarrow>
           activation_succeeded i a (activated_endpoint activated) (activated_lease activated)
       | Inl _ \<Rightarrow> activation_failed i a)"
| "task_answer (DeliverTask i a d endpoint pending) (AnsDeliver result) =
     Some (case result of
         Inr _ \<Rightarrow> (Some (pc_completion pending, Inr ()), delivery_resolved i a None)
       | Inl command \<Rightarrow>
           (None, delivery_resolved i a
              (Some (d, \<lparr>pc_command = command, pc_completion = pc_completion pending\<rparr>))))"
| "task_answer (FenceTask i a endpoint) (AnsFence result) =
     Some (None,
       case result of
         Inr _ \<Rightarrow> fence_acknowledged i a
       | Inl failure \<Rightarrow>
           force_drain_of i a
             \<lparr>stage = (case failure of FfEnqueue \<Rightarrow> StFenceEnqueue | FfAcknowledgement \<Rightarrow> StFenceAcknowledgement),
              outstanding_reservations = 0\<rparr>)"
| "task_answer (RetireTask i a lease mode) AnsRetire = Some (None, terminated i a)"
| "task_answer _ _ = None"

subsection \<open>Threads\<close>

text \<open>A thread and the key of the directory operation it is in.\<close>

datatype ('i, 'c, 'e, 'l) Thread =
    DispatchCall "'i EntityId" nat nat
  | DispatchEffects "'i DispatchWait" nat
  | DispatchWaiting "'i DispatchWait"
  | DispatchDone "'c DispatchResult"
  | WaitCancel nat
  | WaitCancelEffects nat
  | WaitDropped
  | PassivateLook "'i EntityId" nat
  | PassivateDrain nat
  | PassivateEffects Passivation nat
  | PassivateDone Passivation
  | TaskRunning "('i, 'c, 'e, 'l) Task"
  | TaskFact nat
  | TaskEffects nat
  | TaskDone
  | ThreadUnwound panic

text \<open>What a thread does to the directory when its operation returned: the operation is\<close>

datatype ('i, 'c, 'e, 'l) OperationUse =
    Leave
  | UseOutput "('i, 'c, 'e, 'l) DirectoryOutput"
  | UseBegin "('i, 'c, 'e, 'l) Operation"

text \<open>Whether \<open>interpret\<close> has returned.\<close>

fun interpreted :: "('i, 'c, 'e, 'l) Operation \<Rightarrow> bool" where
  "interpreted (AtInterpret _ _ (Returned _) []) = True"
| "interpreted (AtTransient _ []) = True"
| "interpreted _ = False"

text \<open>What an operation returned.\<close>

fun dispatch_result :: "('i, 'c, 'e, 'l) Operation \<Rightarrow> ('c DirectoryError + ('i, 'c, 'e, 'l) DispatchOutput) option" where
  "dispatch_result (DispatchReturned result) = Some result"
| "dispatch_result _ = None"

fun fact_result :: "('i, 'c, 'e, 'l) Operation \<Rightarrow> ('i, 'c, 'e, 'l) DirectoryOutput option" where
  "fact_result (OutputReturned out) = Some out"
| "fact_result _ = None"

fun current_result :: "('i, 'c, 'e, 'l) Operation \<Rightarrow> ActivationId option option" where
  "current_result (CurrentReturned activation) = Some activation"
| "current_result _ = None"

text \<open>
  The code of a thread between two directory operations; \<open>fresh\<close> is the key of the operation it
  begins, if any.
\<close>

fun thread_returned ::
  "nat \<Rightarrow> ('i, 'c, 'e, 'l) Thread \<Rightarrow> ('i, 'c PendingCommand, 'e, 'l) Operation \<Rightarrow>
     (('i, 'c, 'e, 'l) Thread \<times> ('i, 'c PendingCommand, 'e, 'l) OperationUse) option" where
  "thread_returned fresh (DispatchCall i n k) op =
     map_option (\<lambda>result. case result of
         Inl error \<Rightarrow>
           (case dispatch_failure error of
              Inl p \<Rightarrow> ThreadUnwound p
            | Inr failure \<Rightarrow> DispatchDone (Inl failure), Leave)
       | Inr out \<Rightarrow>
           (DispatchEffects
              \<lparr>dw_completion = n, dw_entity_id = i, dw_activation_id = do_activation_id (dp_output out),
               dw_dispatch_id = dp_dispatch_id out\<rparr> k,
            UseOutput (dp_output out))) (dispatch_result op)"
| "thread_returned fresh (DispatchEffects wait k) op =
     (if interpreted op then Some (DispatchWaiting wait, Leave) else None)"
| "thread_returned fresh (WaitCancel k) op =
     map_option (\<lambda>out. (WaitCancelEffects k, UseOutput out)) (fact_result op)"
| "thread_returned fresh (WaitCancelEffects k) op =
     (if interpreted op then Some (WaitDropped, Leave) else None)"
| "thread_returned fresh (PassivateLook i k) op =
     map_option (\<lambda>activation. case activation of
         None \<Rightarrow> (PassivateDone NotActive, Leave)
       | Some a \<Rightarrow> (PassivateDrain fresh, UseBegin (begin_drain_of i a))) (current_result op)"
| "thread_returned fresh (PassivateDrain k) op =
     map_option (\<lambda>out. (PassivateEffects (passivation_of (do_evidence out)) k, UseOutput out))
       (fact_result op)"
| "thread_returned fresh (PassivateEffects passivation k) op =
     (if interpreted op then Some (PassivateDone passivation, Leave) else None)"
| "thread_returned fresh (TaskFact k) op =
     map_option (\<lambda>out. (TaskEffects k, UseOutput out)) (fact_result op)"
| "thread_returned fresh (TaskEffects k) op =
     (if interpreted op then Some (TaskDone, Leave) else None)"
| "thread_returned fresh _ op = None"

fun thread_operation :: "('i, 'c, 'e, 'l) Thread \<Rightarrow> nat option" where
  "thread_operation (DispatchCall _ _ k) = Some k"
| "thread_operation (DispatchEffects _ k) = Some k"
| "thread_operation (WaitCancel k) = Some k"
| "thread_operation (WaitCancelEffects k) = Some k"
| "thread_operation (PassivateLook _ k) = Some k"
| "thread_operation (PassivateDrain k) = Some k"
| "thread_operation (PassivateEffects _ k) = Some k"
| "thread_operation (TaskFact k) = Some k"
| "thread_operation (TaskEffects k) = Some k"
| "thread_operation _ = None"

definition thread_advance ::
  "nat \<Rightarrow> ('i, 'c, 'e, 'l) Thread \<Rightarrow> ('i, 'c PendingCommand, 'e, 'l) Operation \<Rightarrow>
     (('i, 'c, 'e, 'l) Thread \<times> ('i, 'c PendingCommand, 'e, 'l) OperationUse) option" where
  "thread_advance fresh thread op =
     (case panicked op of
        Some p \<Rightarrow> Some (ThreadUnwound p, Leave)
      | None \<Rightarrow> thread_returned fresh thread op)"

subsection \<open>The system\<close>

record ('i, 'c, 'e, 'l) RuntimeSystem =
  rs_directory :: "('i, 'c PendingCommand, 'e, 'l) DirectorySystem"
  rs_completions :: "'c CompletionState list"
  rs_threads :: "nat \<Rightarrow> ('i, 'c, 'e, 'l) Thread option"

definition runtime_start ::
  "('i, 'c PendingCommand, 'e, 'l) LocalDirectory \<Rightarrow> ('i, 'c, 'e, 'l) RuntimeSystem" where
  "runtime_start directory =
     \<lparr>rs_directory = directory_start directory, rs_completions = [], rs_threads = \<lambda>_. None\<rparr>"

definition runtime_new ::
  "DirectoryConfig \<Rightarrow> ('i EntityId \<Rightarrow> u64) \<Rightarrow> 'c DirectoryError + ('i, 'c, 'e, 'l) RuntimeSystem" where
  "runtime_new config hash_builder =
     (case with_hasher config hash_builder of
        Inl error \<Rightarrow> Inl (strip_error error)
      | Inr directory \<Rightarrow> Inr (runtime_start directory))"

text \<open>
  The callback of a directory step: a spawned task becomes the thread \<open>t\<close>, a completion is
  completed.  When the callback panics, a task was not spawned; a completion was completed before
  its waker panicked.
\<close>

definition run_callback ::
  "panic option \<Rightarrow> ('i, 'c PendingCommand, 'e, 'l) RuntimeCall option \<Rightarrow> nat \<Rightarrow>
     ('i, 'c, 'e, 'l) RuntimeSystem \<Rightarrow> ('i, 'c, 'e, 'l) RuntimeSystem" where
  "run_callback handled call t s =
     (case map_option on_call call of
        None \<Rightarrow> s
      | Some (Spawn task) \<Rightarrow>
          if handled = None then s\<lparr>rs_threads := (rs_threads s)(t \<mapsto> TaskRunning task)\<rparr> else s
      | Some (Complete n result) \<Rightarrow>
          s\<lparr>rs_completions :=
            (rs_completions s)[n := snd (completion_complete (rs_completions s ! n) result)]\<rparr>)"

definition use_operation ::
  "nat \<Rightarrow> nat \<Rightarrow> ('i, 'c, 'e, 'l) OperationUse \<Rightarrow> ('i, 'c, 'e, 'l) DirectorySystem \<Rightarrow>
     ('i, 'c, 'e, 'l) DirectoryLabel option \<times> ('i, 'c, 'e, 'l) DirectorySystem" where
  "use_operation k fresh u ds =
     (case u of
        Leave \<Rightarrow> (None, ds)
      | UseOutput out \<Rightarrow>
          (Some (Interpret k out), ds\<lparr>ds_operations := (ds_operations ds)(k \<mapsto> interpret_output out)\<rparr>)
      | UseBegin op \<Rightarrow>
          (Some (Begin fresh op), ds\<lparr>ds_operations := (ds_operations ds)(fresh \<mapsto> op)\<rparr>))"

text \<open>
  \<open>Drop for DispatchWait\<close>: the cancellation it begins; \<open>upgraded\<close> is whether the weak reference
  still finds the runtime.
\<close>

definition drop_wait ::
  "bool \<Rightarrow> 'i DispatchWait \<Rightarrow> 'c CompletionState \<Rightarrow> ('i, 'c PendingCommand, 'e, 'l) Operation option" where
  "drop_wait upgraded wait completion =
     (if is_consumed completion \<or> \<not> upgraded then None
      else map_option (\<lambda>a. cancel_waiter (dw_entity_id wait) a (dw_dispatch_id wait)) (dw_activation_id wait))"

datatype ('i, 'c, 'e, 'l) RuntimeAction =
    RtDispatch nat "'i EntityId" 'c
  | RtPassivate nat "'i EntityId"
  | RtOperation nat "('i, 'c, 'e, 'l) Task option"
  | RtAdvance nat
  | RtPoll nat nat
  | RtDrop nat
  | RtAnswer nat "('i, 'c, 'e, 'l) Task" "('c, 'e, 'l) Answer"

type_synonym ('i, 'c, 'e, 'l) RuntimeLabel =
  "('i, 'c, 'e, 'l) RuntimeAction \<times> ('i, 'c PendingCommand, 'e, 'l) DirectoryLabel option"

text \<open>The task a callback spawned.\<close>

definition spawned ::
  "panic option \<Rightarrow> ('i, 'c PendingCommand, 'e, 'l) RuntimeCall option \<Rightarrow> ('i, 'c, 'e, 'l) Task option" where
  "spawned handled call =
     (case map_option on_call call of Some (Spawn task) \<Rightarrow> if handled = None then Some task else None | _ \<Rightarrow> None)"

inductive rt_step ::
  "('i, 'c, 'e, 'l) RuntimeSystem \<Rightarrow> ('i, 'c, 'e, 'l) RuntimeLabel \<Rightarrow>
     ('i, 'c, 'e, 'l) RuntimeSystem \<Rightarrow> bool" where
  rt_dispatch:
    "rs_threads s t = None \<Longrightarrow> ds_operations (rs_directory s) k = None \<Longrightarrow> n = length (rs_completions s) \<Longrightarrow>
       op = dispatch i \<lparr>pc_command = c, pc_completion = n\<rparr> \<Longrightarrow>
       rt_step s (RtDispatch t i c, Some (Begin k op))
         (s\<lparr>rs_directory := (rs_directory s)\<lparr>ds_operations := (ds_operations (rs_directory s))(k \<mapsto> op)\<rparr>,
            rs_completions := rs_completions s @ [completion_new_state],
            rs_threads := (rs_threads s)(t \<mapsto> DispatchCall i n k)\<rparr>)"
| rt_passivate:
    "rs_threads s t = None \<Longrightarrow> ds_operations (rs_directory s) k = None \<Longrightarrow> op = current_activation i \<Longrightarrow>
       rt_step s (RtPassivate t i, Some (Begin k op))
         (s\<lparr>rs_directory := (rs_directory s)\<lparr>ds_operations := (ds_operations (rs_directory s))(k \<mapsto> op)\<rparr>,
            rs_threads := (rs_threads s)(t \<mapsto> PassivateLook i k)\<rparr>)"
| rt_operation:
    "ds_operations (rs_directory s) k = Some op \<Longrightarrow>
       operation_step handled op (ds_directory (rs_directory s)) = (call, op', dir') \<Longrightarrow>
       rs_threads s t = None \<Longrightarrow>
       rt_step s (RtOperation t (spawned handled call), Some (Progress k op call op'))
         ((run_callback handled call t s)\<lparr>rs_directory :=
            (rs_directory s)\<lparr>ds_directory := dir', ds_operations := (ds_operations (rs_directory s))(k \<mapsto> op')\<rparr>\<rparr>)"
| rt_advance:
    "rs_threads s t = Some thread \<Longrightarrow> thread_operation thread = Some k \<Longrightarrow>
       ds_operations (rs_directory s) k = Some op \<Longrightarrow> ds_operations (rs_directory s) fresh = None \<Longrightarrow>
       thread_advance fresh thread op = Some (thread', u) \<Longrightarrow>
       use_operation k fresh u (rs_directory s) = (l, ds') \<Longrightarrow>
       rt_step s (RtAdvance t, l) (s\<lparr>rs_directory := ds', rs_threads := (rs_threads s)(t \<mapsto> thread')\<rparr>)"
| rt_poll:
    "rs_threads s t = Some (DispatchWaiting wait) \<Longrightarrow>
       poll_take (rs_completions s ! dw_completion wait) waker = (r, completion) \<Longrightarrow>
       rt_step s (RtPoll t waker, None)
         (s\<lparr>rs_completions := (rs_completions s)[dw_completion wait := completion],
            rs_threads := (rs_threads s)(t \<mapsto>
              (case r of None \<Rightarrow> DispatchWaiting wait | Some result \<Rightarrow> DispatchDone result))\<rparr>)"
| rt_drop:
    "rs_threads s t = Some (DispatchWaiting wait) \<Longrightarrow> ds_operations (rs_directory s) k = None \<Longrightarrow>
       drop_wait upgraded wait (rs_completions s ! dw_completion wait) = cancel \<Longrightarrow>
       rt_step s (RtDrop t, map_option (Begin k) cancel)
         (s\<lparr>rs_directory := (case cancel of None \<Rightarrow> rs_directory s | Some op \<Rightarrow>
              (rs_directory s)\<lparr>ds_operations := (ds_operations (rs_directory s))(k \<mapsto> op)\<rparr>),
            rs_threads := (rs_threads s)(t \<mapsto> (case cancel of None \<Rightarrow> WaitDropped | Some _ \<Rightarrow> WaitCancel k))\<rparr>)"
| rt_answer:
    "rs_threads s t = Some (TaskRunning task) \<Longrightarrow> task_answer task answer = Some (completed, op) \<Longrightarrow>
       ds_operations (rs_directory s) k = None \<Longrightarrow>
       rt_step s (RtAnswer t task answer, Some (Begin k op))
         (s\<lparr>rs_directory := (rs_directory s)\<lparr>ds_operations := (ds_operations (rs_directory s))(k \<mapsto> op)\<rparr>,
            rs_completions := (case completed of None \<Rightarrow> rs_completions s | Some (n, result) \<Rightarrow>
              (rs_completions s)[n := snd (completion_complete (rs_completions s ! n) result)]),
            rs_threads := (rs_threads s)(t \<mapsto> TaskFact k)\<rparr>)"

inductive_cases rt_stepE: "rt_step s l s'"

subsection \<open>The directory below the runtime\<close>

definition directory_trace ::
  "('i, 'c, 'e, 'l) RuntimeLabel list \<Rightarrow> ('i, 'c PendingCommand, 'e, 'l) DirectoryLabel list" where
  "directory_trace tr = List.map_filter snd tr"

lemma directory_trace_simps [simp]:
  "directory_trace [] = []"
  "directory_trace (tr @ [l]) = directory_trace tr @ (case snd l of None \<Rightarrow> [] | Some d \<Rightarrow> [d])"
  by (simp_all add: directory_trace_def map_filter_def split: option.splits)

lemma task_answer_public: "task_answer task answer = Some (completed, op) \<Longrightarrow> public_operation op"
  by (cases "(task, answer)" rule: task_answer.cases) (auto simp: public_operations split: sum.splits)

lemma thread_begins_public: "thread_advance fresh thread op = Some (thread', UseBegin op') \<Longrightarrow> public_operation op'"
  by (cases thread)
    (auto simp: thread_advance_def public_operations split: option.splits sum.splits if_splits, metis sum.exhaust)

lemma thread_uses_output:
  "thread_advance fresh thread op = Some (thread', UseOutput out) \<Longrightarrow> returned_output op = Some out"
  by (cases thread; cases op)
    (auto simp: thread_advance_def split: option.splits sum.splits if_splits)

lemma run_callback_frame [simp]: "rs_directory (run_callback handled call t s) = rs_directory s"
  by (auto simp: run_callback_def split: option.splits Callback.splits)

text \<open>Every step of the runtime is at most one step of the directory.\<close>

lemma rt_step_directory:
  assumes "rt_step s l s'"
  shows "case snd l of None \<Rightarrow> rs_directory s' = rs_directory s
      | Some d \<Rightarrow> dir_step (rs_directory s) d (rs_directory s')"
  using assms
proof cases
  case (rt_advance t thread k op fresh thread' u d ds')
  then show ?thesis
    by (cases u) (auto simp: use_operation_def dest: thread_begins_public thread_uses_output)
next
  case (rt_drop t wait k upgraded cancel)
  then show ?thesis
    by (cases cancel) (auto simp: drop_wait_def public_operations split: if_splits)
qed (auto simp: public_operations dest: task_answer_public)

interpretation runtime_schedule:
  trace_invariant rt_step "runtime_start self"
    "\<lambda>tr s. schedule dir_step (directory_start self) (directory_trace tr) (rs_directory s)"
  for self :: "('i, 'c PendingCommand, 'e, 'l) LocalDirectory"
proof unfold_locales
  fix tr l and s s' :: "('i, 'c, 'e, 'l) RuntimeSystem"
  assume "schedule dir_step (directory_start self) (directory_trace tr) (rs_directory s)" and "rt_step s l s'"
  then show "schedule dir_step (directory_start self) (directory_trace (tr @ [l])) (rs_directory s')"
    using rt_step_directory [of s l s'] by (cases "snd l") auto
qed (simp add: runtime_start_def)

subsection \<open>Driving the system\<close>

text \<open>
  An executable driver: each choice picks a step, with callbacks that return; every run of choices is a schedule.
\<close>

datatype ('i, 'c, 'e, 'l) Choice =
    ChooseDispatch nat nat "'i EntityId" 'c
  | ChoosePassivate nat nat "'i EntityId"
  | ChooseOperation nat nat
  | ChooseAdvance nat nat
  | ChooseAnswer nat nat "('c, 'e, 'l) Answer"

fun pick ::
  "('i, 'c, 'e, 'l) Choice \<Rightarrow> ('i, 'c, 'e, 'l) RuntimeSystem \<Rightarrow>
     (('i, 'c, 'e, 'l) RuntimeLabel \<times> ('i, 'c, 'e, 'l) RuntimeSystem) option" where
  "pick (ChooseDispatch t k i c) s =
     (if rs_threads s t = None \<and> ds_operations (rs_directory s) k = None then
        let n = length (rs_completions s); op = dispatch i \<lparr>pc_command = c, pc_completion = n\<rparr> in
        Some ((RtDispatch t i c, Some (Begin k op)),
          s\<lparr>rs_directory := (rs_directory s)\<lparr>ds_operations := (ds_operations (rs_directory s))(k \<mapsto> op)\<rparr>,
            rs_completions := rs_completions s @ [completion_new_state],
            rs_threads := (rs_threads s)(t \<mapsto> DispatchCall i n k)\<rparr>)
      else None)"
| "pick (ChoosePassivate t k i) s =
     (if rs_threads s t = None \<and> ds_operations (rs_directory s) k = None then
        Some ((RtPassivate t i, Some (Begin k (current_activation i))),
          s\<lparr>rs_directory := (rs_directory s)\<lparr>ds_operations :=
              (ds_operations (rs_directory s))(k \<mapsto> current_activation i)\<rparr>,
            rs_threads := (rs_threads s)(t \<mapsto> PassivateLook i k)\<rparr>)
      else None)"
| "pick (ChooseOperation k t) s =
     (case ds_operations (rs_directory s) k of
        None \<Rightarrow> None
      | Some op \<Rightarrow>
          if rs_threads s t \<noteq> None then None
          else let (call, op', dir') = operation_step None op (ds_directory (rs_directory s)) in
            Some ((RtOperation t (spawned None call), Some (Progress k op call op')),
              (run_callback None call t s)\<lparr>rs_directory :=
                (rs_directory s)\<lparr>ds_directory := dir',
                  ds_operations := (ds_operations (rs_directory s))(k \<mapsto> op')\<rparr>\<rparr>))"
| "pick (ChooseAdvance t fresh) s =
     (case rs_threads s t of
        None \<Rightarrow> None
      | Some thread \<Rightarrow>
          (case thread_operation thread of
             None \<Rightarrow> None
           | Some k \<Rightarrow>
               (case ds_operations (rs_directory s) k of
                  None \<Rightarrow> None
                | Some op \<Rightarrow>
                    (case thread_advance fresh thread op of
                       None \<Rightarrow> None
                     | Some (thread', u) \<Rightarrow>
                         if ds_operations (rs_directory s) fresh \<noteq> None then None
                         else let (l, ds') = use_operation k fresh u (rs_directory s) in
                           Some ((RtAdvance t, l),
                             s\<lparr>rs_directory := ds', rs_threads := (rs_threads s)(t \<mapsto> thread')\<rparr>)))))"
| "pick (ChooseAnswer t k answer) s =
     (case rs_threads s t of
        Some (TaskRunning task) \<Rightarrow>
          (case task_answer task answer of
             None \<Rightarrow> None
           | Some (completed, op) \<Rightarrow>
               if ds_operations (rs_directory s) k \<noteq> None then None
               else Some ((RtAnswer t task answer, Some (Begin k op)),
                 s\<lparr>rs_directory := (rs_directory s)\<lparr>ds_operations := (ds_operations (rs_directory s))(k \<mapsto> op)\<rparr>,
                   rs_completions := (case completed of None \<Rightarrow> rs_completions s | Some (n, result) \<Rightarrow>
                     (rs_completions s)[n := snd (completion_complete (rs_completions s ! n) result)]),
                   rs_threads := (rs_threads s)(t \<mapsto> TaskFact k)\<rparr>))
      | _ \<Rightarrow> None)"

fun pick_all ::
  "('i, 'c, 'e, 'l) Choice list \<Rightarrow> ('i, 'c, 'e, 'l) RuntimeSystem \<Rightarrow>
     (('i, 'c, 'e, 'l) RuntimeLabel list \<times> ('i, 'c, 'e, 'l) RuntimeSystem) option" where
  "pick_all [] s = Some ([], s)"
| "pick_all (ch # chs) s =
     (case pick ch s of
        None \<Rightarrow> None
      | Some (l, s') \<Rightarrow> map_option (\<lambda>(tr, s''). (l # tr, s'')) (pick_all chs s'))"

lemma pick_step:
  assumes "pick ch s = Some (l, s')"
  shows "rt_step s l s'"
proof (cases ch)
  case (ChooseDispatch t k i c)
  then show ?thesis using assms by (auto simp: Let_def split: if_splits intro: rt_dispatch)
next
  case (ChoosePassivate t k i)
  then show ?thesis using assms by (auto split: if_splits intro: rt_passivate)
next
  case (ChooseOperation k t)
  then show ?thesis using assms
    by (auto simp: Let_def split: option.splits if_splits prod.splits intro: rt_operation)
next
  case (ChooseAdvance t fresh)
  then show ?thesis using assms
    by (auto simp: Let_def split: option.splits if_splits prod.splits intro: rt_advance)
next
  case (ChooseAnswer t k answer)
  obtain task where task: "rs_threads s t = Some (TaskRunning task)"
    using assms ChooseAnswer by (auto split: option.splits Thread.splits)
  then obtain completed op where answer: "task_answer task answer = Some (completed, op)"
    using assms ChooseAnswer by (auto split: option.splits)
  then have "ds_operations (rs_directory s) k = None"
    using assms ChooseAnswer task by (auto split: if_splits)
  from rt_answer [OF task answer this] show ?thesis
    using assms ChooseAnswer task answer by (simp split: if_splits)
qed

lemma pick_all_schedule: "pick_all chs s = Some (tr, s') \<Longrightarrow> schedule rt_step s tr s'"
  by (induction chs arbitrary: s tr) (fastforce split: option.splits prod.splits dest: pick_step)+

lemma pick_all_append:
  "pick_all chs s = Some (tr, s') \<Longrightarrow> pick_all chs' s' = Some (tr', s'') \<Longrightarrow>
     pick_all (chs @ chs') s = Some (tr @ tr', s'')"
  by (induction chs arbitrary: s tr) (fastforce split: option.splits prod.splits)+

subsection \<open>One completion\<close>

text \<open>A sequence of completions (\<open>Inl\<close>) and polls (\<open>Inr\<close>): the wakers woken, the results taken, the state.\<close>

fun completion_run ::
  "'c CompletionState \<Rightarrow> ('c DispatchResult + nat) list \<Rightarrow> nat list \<times> 'c DispatchResult list \<times> 'c CompletionState" where
  "completion_run st [] = ([], [], st)"
| "completion_run st (Inl result # ops) =
     (let (waker, st') = completion_complete st result; (woken, taken, stop) = completion_run st' ops
      in (case waker of None \<Rightarrow> woken | Some w \<Rightarrow> w # woken, taken, stop))"
| "completion_run st (Inr waker # ops) =
     (let (r, st') = poll_take st waker; (woken, taken, stop) = completion_run st' ops
      in (woken, case r of None \<Rightarrow> taken | Some result \<Rightarrow> result # taken, stop))"

lemma completion_run_consumed: "completion_run Consumed ops = ([], [], Consumed)"
  by (induction "Consumed :: 'a CompletionState" ops rule: completion_run.induct) simp_all

lemma completion_run_ready:
  "completion_run (Ready r) ops =
     (if \<exists>w. Inr w \<in> set ops then ([], [r], Consumed) else ([], [], Ready r))"
proof (induction ops)
  case (Cons op ops)
  then show ?case by (cases op) (auto simp: completion_run_consumed)
qed simp

lemma completion_run_polls:
  "completion_run (Awaiting w) (map Inr ws @ ops) =
     completion_run (Awaiting (if ws = [] then w else Some (last ws))) ops"
  by (induction ws arbitrary: w) (auto split: prod.splits)

subsection \<open>Properties\<close>

text \<open>
  A dispatch is answered once, and its waiter is never forgotten: polls before the first result
  take nothing; the first result wakes the waker of the last of them; any later result is
  ignored; and the first result is taken by exactly one poll, the first one after it.
\<close>

theorem completion_answers_once:
  "completion_run completion_new_state (map Inr ws @ Inl result # ops) =
     (if ws = [] then [] else [last ws],
      if \<exists>w. Inr w \<in> set ops then [result] else [],
      if \<exists>w. Inr w \<in> set ops then Consumed else Ready result) \<and>
   completion_run completion_new_state (map Inr ws) =
     ([], [], Awaiting (if ws = [] then None else Some (last ws)))"
  using completion_run_polls [of None ws "Inl result # ops"] completion_run_polls [of None ws "[]"]
  by (cases "ws = []") (auto simp: completion_new_state_def completion_run_ready)

text \<open>
  How a \<open>BeginDrain\<close> that reaches a slot is read: \<open>Begun\<close> exactly when the slot was active in the named
  incarnation, which it then drains without admitting for it; in all other cases the slot is left as
  it was.
\<close>

lemma passivation_classified:
  "\<exists>out st'. transition st (BeginDrain a) = Inr (out, st') \<and>
     passivation_of (out_evidence out) =
       (case st of
          Active active \<Rightarrow> if ac_activation_id active = a then Begun else Superseded
        | Draining _ \<Rightarrow> AlreadyPassivating
        | Retiring _ \<Rightarrow> AlreadyPassivating
        | _ \<Rightarrow> NotActive) \<and>
     (if passivation_of (out_evidence out) = Begun
      then slot_activation_id st' = Some a \<and> phase st' = PDraining \<and> \<not> admits_for a st'
      else st' = st)"
proof -
  have "\<exists>d. reduce st (BeginDrain a) = Inr d \<and>
      (if \<exists>active. st = Active active \<and> ac_activation_id active = a
       then slot_activation_id (dec_state d) = Some a \<and> phase (dec_state d) = PDraining \<and>
         \<not> admits_for a (dec_state d)
       else dec_state d = st)"
    by (cases st) (auto simp: decision_defs split: ReservationCount.splits)
  then obtain d where d: "reduce st (BeginDrain a) = Inr d"
    "if \<exists>active. st = Active active \<and> ac_activation_id active = a
     then slot_activation_id (dec_state d) = Some a \<and> phase (dec_state d) = PDraining \<and>
       \<not> admits_for a (dec_state d)
     else dec_state d = st" by blast
  then obtain out where out: "transition st (BeginDrain a) = Inr (out, dec_state d)"
    using reduce_transition by blast
  then have "passivation_of (out_evidence out) =
       (case st of
          Active active \<Rightarrow> if ac_activation_id active = a then Begun else Superseded
        | Draining _ \<Rightarrow> AlreadyPassivating
        | Retiring _ \<Rightarrow> AlreadyPassivating
        | _ \<Rightarrow> NotActive)"
    using d
    by (cases st; cases "out_evidence out")
      (auto simp: transition_Inr passivation_of_def Let_def decision_defs split: if_splits
        ReservationCount.splits elim: endpoints.elims)
  with d(2) out show ?thesis by (cases st) (auto split: if_splits)
qed

end
