(* ===== verification/Slot_Life.thy ===== *)
theory Slot_Life
  imports Slot_Invariants
begin

section \<open>The life of a slot that is claimed once\<close>

text \<open>
  Streams of events as the directory feeds them to a slot: one claim, then dispatches and facts.
  Such a stream starts one activation and removes it at most once, and its reservations are the
  deliveries it emitted less the resolutions it received, which is why the fence, and with it
  graceful retirement, comes after every delivery was resolved.
\<close>

subsection \<open>A slot claimed once\<close>

definition is_remove :: "('c, 'e, 'l) SlotEffect \<Rightarrow> bool" where
  "is_remove e = (case e of Remove _ \<Rightarrow> True | _ \<Rightarrow> False)"

definition is_start :: "('c, 'e, 'l) SlotEffect \<Rightarrow> bool" where
  "is_start e = (case e of StartActivation _ \<Rightarrow> True | _ \<Rightarrow> False)"

lemma is_remove_simps [simp]:
  "is_remove (Remove a)" "\<not> is_remove (StartActivation a)" "\<not> is_remove (Deliver a d endpoint c)"
  "\<not> is_remove (Reject d c reason)" "\<not> is_remove (EnqueueFence a endpoint)"
  "\<not> is_remove (Retire a lease mode)"
  by (simp_all add: is_remove_def)

lemma is_start_simps [simp]:
  "is_start (StartActivation a)" "\<not> is_start (Remove a)" "\<not> is_start (Deliver a d endpoint c)"
  "\<not> is_start (Reject d c reason)" "\<not> is_start (EnqueueFence a endpoint)"
  "\<not> is_start (Retire a lease mode)"
  by (simp_all add: is_start_def)

definition unclaimed :: "('c, 'e, 'l) SlotEvent list \<Rightarrow> bool" where
  "unclaimed evs \<longleftrightarrow> (\<forall>ev\<in>set evs. \<forall>a. \<not> claims a ev)"

lemma unclaimed_simps [simp]:
  "unclaimed []" "unclaimed (ev # evs) \<longleftrightarrow> (\<forall>a. \<not> claims a ev) \<and> unclaimed evs"
  "unclaimed (evs @ evs') \<longleftrightarrow> unclaimed evs \<and> unclaimed evs'"
  by (auto simp: unclaimed_def)

lemma generation_unclaimed: "event_generation ev = Some b \<Longrightarrow> \<not> claims a ev"
  by (cases ev) auto

text \<open>One reduction, with the starts and removals it emits.\<close>

lemma reduce_life:
  assumes "reduce slot ev = Inr d" and "\<And>b. \<not> claims b ev"
    and "slot = Inactive \<or> slot_activation_id slot = Some a"
  shows "filter is_start (as_slice (dec_effects d)) = []"
    and "filter is_remove (as_slice (dec_effects d)) =
      (if slot \<noteq> Inactive \<and> dec_state d = Inactive then [Remove a] else [])"
    and "dec_state d = Inactive \<or> slot_activation_id (dec_state d) = Some a"
    and "slot = Inactive \<Longrightarrow> dec_state d = Inactive"
  using assms
  by (cases slot; cases ev; auto simp: reducer_simps filter_empty_conv split: option.splits prod.splits
      Ordering.splits DrainProgress.splits ReservationCount.splits ReservationResolution.splits if_splits)+

lemma decide_all_life:
  assumes "decide_all slot evs = Inr d" and "unclaimed evs"
    and "slot = Inactive \<or> slot_activation_id slot = Some a"
  shows "filter is_start (as_slice (dec_effects d)) = [] \<and>
    filter is_remove (as_slice (dec_effects d)) =
      (if slot \<noteq> Inactive \<and> dec_state d = Inactive then [Remove a] else []) \<and>
    (dec_state d = Inactive \<or> slot_activation_id (dec_state d) = Some a) \<and>
    (slot = Inactive \<longrightarrow> dec_state d = Inactive)"
  using assms
proof (induction evs arbitrary: slot d)
  case (Cons ev evs)
  from Cons.prems(1) obtain d1 d2 where step: "reduce slot ev = Inr d1"
    and rest: "decide_all (dec_state d1) evs = Inr d2"
    and d: "d = decision_new (dec_state d2) (batch_add (dec_effects d1) (dec_effects d2))"
    by (auto simp: decide_all_Cons)
  have "\<And>b. \<not> claims b ev" "unclaimed evs" using Cons.prems(2) by simp_all
  note one = reduce_life [OF step this(1) Cons.prems(3)]
  from Cons.IH [OF rest \<open>unclaimed evs\<close> one(3)] one d show ?case by auto
qed auto

text \<open>
  A stream with one claim at its head starts one activation, and removes it exactly when it ends
  inactive.
\<close>

lemma claimed_stream:
  assumes "decide_all Inactive (ClaimActivation a i c limit # evs) = Inr d" and "unclaimed evs"
  shows "filter is_start (as_slice (dec_effects d)) = [StartActivation a]"
    and "filter is_remove (as_slice (dec_effects d)) = (if dec_state d = Inactive then [Remove a] else [])"
    and "dec_state d = Inactive \<or> slot_activation_id (dec_state d) = Some a"
proof -
  obtain d1 d2 where step: "reduce Inactive (ClaimActivation a i c limit) = Inr d1"
    and rest: "decide_all (dec_state d1) evs = Inr d2"
    and d: "d = decision_new (dec_state d2) (batch_add (dec_effects d1) (dec_effects d2))"
    using assms(1) by (auto simp: decide_all_Cons)
  have one: "as_slice (dec_effects d1) = [StartActivation a]" "slot_activation_id (dec_state d1) = Some a"
    "dec_state d1 \<noteq> Inactive"
    using step by (auto simp: decision_defs)
  from decide_all_life [OF rest assms(2) disjI2 [OF one(2)]] one d
  show "filter is_start (as_slice (dec_effects d)) = [StartActivation a]"
    "filter is_remove (as_slice (dec_effects d)) = (if dec_state d = Inactive then [Remove a] else [])"
    "dec_state d = Inactive \<or> slot_activation_id (dec_state d) = Some a"
    by auto
qed

lemma reduce_delivers_own:
  "reduce slot ev = Inr d \<Longrightarrow> slot = Inactive \<or> slot_activation_id slot = Some a \<Longrightarrow>
     e \<in> set (as_slice (dec_effects d)) \<Longrightarrow> delivers_to b e \<Longrightarrow> b = a"
  using reduce_delivers [of slot ev d e b] by (cases slot) auto

lemma decide_all_delivers_own:
  assumes "decide_all slot evs = Inr d" and "unclaimed evs"
    and "slot = Inactive \<or> slot_activation_id slot = Some a"
    and "e \<in> set (as_slice (dec_effects d))" and "delivers_to b e"
  shows "b = a"
  using assms(1-4)
proof (induction evs arbitrary: slot d)
  case (Cons ev evs)
  from Cons.prems(1) obtain d1 d2 where step: "reduce slot ev = Inr d1"
    and rest: "decide_all (dec_state d1) evs = Inr d2"
    and d: "d = decision_new (dec_state d2) (batch_add (dec_effects d1) (dec_effects d2))"
    by (auto simp: decide_all_Cons)
  have "\<And>b. \<not> claims b ev" "unclaimed evs" using Cons.prems(2) by simp_all
  note one = reduce_life [OF step this(1) Cons.prems(3)]
  show ?case
    using Cons.IH [OF rest \<open>unclaimed evs\<close> one(3)] reduce_delivers_own [OF step Cons.prems(3) _ assms(5)]
      Cons.prems(4) d by auto
qed auto

lemma claimed_delivers_own:
  assumes "decide_all Inactive (ClaimActivation a i c limit # evs) = Inr d" and "unclaimed evs"
    and "e \<in> set (as_slice (dec_effects d))" and "delivers_to b e"
  shows "b = a"
proof -
  obtain d1 d2 where step: "reduce Inactive (ClaimActivation a i c limit) = Inr d1"
    and rest: "decide_all (dec_state d1) evs = Inr d2"
    and d: "d = decision_new (dec_state d2) (batch_add (dec_effects d1) (dec_effects d2))"
    using assms(1) by (auto simp: decide_all_Cons)
  have "as_slice (dec_effects d1) = [StartActivation a]" "slot_activation_id (dec_state d1) = Some a"
    using step by (auto simp: decision_defs)
  then show ?thesis
    using decide_all_delivers_own [OF rest assms(2) _ _ assms(4)] assms(3,4) d by auto
qed

subsection \<open>Reservations count unresolved deliveries\<close>

definition resolves :: "ActivationId \<Rightarrow> ('c, 'e, 'l) SlotEvent \<Rightarrow> bool" where
  "resolves a ev = (case ev of DeliveryResolved b _ \<Rightarrow> a = b | _ \<Rightarrow> False)"

definition resolved :: "ActivationId \<Rightarrow> ('c, 'e, 'l) SlotEvent list \<Rightarrow> nat" where
  "resolved a evs = length (filter (resolves a) evs)"

definition delivered :: "ActivationId \<Rightarrow> ('c, 'e, 'l) SlotEffect list \<Rightarrow> nat" where
  "delivered a effects = length (filter (delivers_to a) effects)"

definition is_graceful :: "('c, 'e, 'l) SlotEffect \<Rightarrow> bool" where
  "is_graceful e = (case e of Retire _ _ mode \<Rightarrow> mode = Graceful | _ \<Rightarrow> False)"

definition is_fence :: "('c, 'e, 'l) SlotEffect \<Rightarrow> bool" where
  "is_fence e = (case e of EnqueueFence _ _ \<Rightarrow> True | _ \<Rightarrow> False)"

lemma count_simps [simp]:
  "resolved a [] = 0" "resolved a (ev # evs) = (if resolves a ev then 1 else 0) + resolved a evs"
  "resolved a (evs @ evs') = resolved a evs + resolved a evs'"
  "delivered a [] = 0" "delivered a (e # es) = (if delivers_to a e then 1 else 0) + delivered a es"
  "delivered a (es @ es') = delivered a es + delivered a es'"
  by (simp_all add: resolved_def delivered_def)

lemma effect_kind_simps [simp]:
  "resolves a (DeliveryResolved b failure) \<longleftrightarrow> a = b"
  "is_graceful (Retire a lease mode) \<longleftrightarrow> mode = Graceful" "\<not> is_graceful (Remove a)"
  "\<not> is_graceful (StartActivation a)" "\<not> is_graceful (Deliver a d endpoint c)"
  "\<not> is_graceful (Reject d c reason)" "\<not> is_graceful (EnqueueFence a endpoint)"
  "is_fence (EnqueueFence a endpoint)" "\<not> is_fence (Retire a lease mode)" "\<not> is_fence (Remove a)"
  "\<not> is_fence (StartActivation a)" "\<not> is_fence (Deliver a d endpoint c)" "\<not> is_fence (Reject d c reason)"
  by (simp_all add: resolves_def is_graceful_def is_fence_def)

lemma resolves_other [simp]:
  "\<not> resolves a (ClaimActivation b d c limit)" "\<not> resolves a (Dispatch d c)" "\<not> resolves a (CancelWaiter b d)"
  "\<not> resolves a (ActivationSucceeded b endpoint lease)" "\<not> resolves a (ActivationFailed b)"
  "\<not> resolves a (BeginDrain b)" "\<not> resolves a (FenceAcknowledged b)" "\<not> resolves a (ForceDrain b f)"
  "\<not> resolves a (Terminated b)"
  by (simp_all add: resolves_def)

text \<open>
  The account of incarnation \<open>a\<close>: its state, the deliveries emitted, the resolutions received, and
  whether a fence or a graceful retirement was emitted.
\<close>

definition accounted ::
  "ActivationId \<Rightarrow> ('c, 'e, 'l) EntitySlot \<Rightarrow> ('c, 'e, 'l) SlotEffect list \<Rightarrow> ('c, 'e, 'l) SlotEvent list \<Rightarrow> bool"
where
  "accounted a st effects evs \<longleftrightarrow>
     resolved a evs \<le> delivered a effects \<and>
     (list_ex is_fence effects \<or> list_ex is_graceful effects \<longrightarrow> delivered a effects = resolved a evs) \<and>
     (case st of
        Inactive \<Rightarrow> True
      | Activating s \<Rightarrow> ag_activation_id s = a \<and> delivered a effects = 0 \<and>
          \<not> list_ex is_fence effects \<and> \<not> list_ex is_graceful effects
      | Active s \<Rightarrow> ac_activation_id s = a \<and>
          delivered a effects = resolved a evs + reservation_number (ac_reservations s) \<and>
          \<not> list_ex is_fence effects \<and> \<not> list_ex is_graceful effects
      | Draining s \<Rightarrow> dr_activation_id s = a \<and> \<not> list_ex is_graceful effects \<and>
          (case dr_progress s of
             Reservations n \<Rightarrow> delivered a effects = resolved a evs + unat (nz_get n) \<and>
               \<not> list_ex is_fence effects
           | FenceAcknowledgement \<Rightarrow> delivered a effects = resolved a evs)
      | Retiring b \<Rightarrow> b = a)"

lemma remaining_reservations:
  "Option.bind (checked_sub (nz_get n) 1) nz_new =
     (if unat (nz_get n) = 1 then None else Some (nz (nz_get n - 1)))"
  "Suc (unat (nz_get n - 1)) = unat (nz_get n)" "Suc 0 \<le> unat (nz_get n)"
proof -
  define v where "v = nz_get n"
  have pos: "1 \<le> unat v" using nz_get_pos [of n] unfolding v_def by linarith
  have one: "unat (1 :: u64) = 1" by simp
  have sub: "checked_sub v 1 = Some (v - 1)" using pos unfolding checked_sub_def one by simp
  then have pred: "unat (v - 1) = unat v - 1" using checked_sub_Some [OF sub] one by simp
  have zero: "v - 1 = 0 \<longleftrightarrow> unat v = 1"
    using pos unfolding word_unat_eq_iff pred unat_0 by linarith
  show "Option.bind (checked_sub (nz_get n) 1) nz_new =
      (if unat (nz_get n) = 1 then None else Some (nz (nz_get n - 1)))"
    using zero unfolding v_def [symmetric] sub by (simp only: Option.bind.simps nz_new_def)
  show "Suc (unat (nz_get n - 1)) = unat (nz_get n)" "Suc 0 \<le> unat (nz_get n)"
    using pred pos unfolding v_def [symmetric] by simp_all
qed

lemma delivered_waiters: "delivered a (map (\<lambda>w. Deliver a (f w) endpoint (g w)) ws) = length ws"
  by (induction ws) auto

lemma not_delivered [simp]: "(\<And>e. e \<in> set es \<Longrightarrow> \<not> delivers_to a e) \<Longrightarrow> delivered a es = 0"
  by (auto simp: delivered_def filter_empty_conv)

lemma reduce_accounted:
  assumes "accounted a st effects evs" and "reduce st ev = Inr d" and "\<And>b. \<not> claims b ev"
    and "slot_wf st" and "resolves a ev \<Longrightarrow> resolved a evs < delivered a effects"
  shows "accounted a (dec_state d) (effects @ as_slice (dec_effects d)) (evs @ [ev])"
proof (cases st)
  case (Active s)
  then show ?thesis using assms
    by (cases ev) (auto simp: accounted_def reducer_simps resolve_Unexpected
      split: option.splits ReservationResolution.splits ReservationCount.splits if_splits
      dest!: reserve_Inr resolve_ResDrained resolve_ResPending)
next
  case Inactive
  then show ?thesis using assms
    by (cases ev) (auto simp: accounted_def reducer_simps split: option.splits)
next
  case (Activating s)
  have "length (ag_waiters s) < 2 ^ 64"
    using assms(4) Activating by (auto intro: le_less_trans [OF _ unat_u64_less])
  then have "unat (of_nat (length (ag_waiters s)) :: u64) = length (ag_waiters s)"
    by (rule unat_of_nat_u64)
  then show ?thesis using assms Activating
    by (cases ev) (auto simp: accounted_def reducer_simps comp_def list_ex_iff delivered_waiters
      reservation_number_from_len split: option.splits Ordering.splits if_splits)
next
  case (Draining s)
  then show ?thesis using assms
    by (cases ev) (auto simp: accounted_def reducer_simps remaining_reservations
      split: option.splits DrainProgress.splits if_splits)
next
  case (Retiring b)
  then show ?thesis using assms
    by (cases ev) (auto simp: accounted_def reducer_simps split: option.splits)
qed

text \<open>No resolution comes before its delivery: each one meets a slot that emitted more.\<close>

definition accountable :: "ActivationId \<Rightarrow> ('c, 'e, 'l) SlotEvent list \<Rightarrow> bool" where
  "accountable a evs \<longleftrightarrow>
     (\<forall>n<length evs. \<forall>d. resolves a (evs ! n) \<longrightarrow> decide_all Inactive (take n evs) = Inr d \<longrightarrow>
        resolved a (take n evs) < delivered a (as_slice (dec_effects d)))"

lemma accountable_snoc:
  "accountable a (evs @ [ev]) \<longleftrightarrow> accountable a evs \<and>
     (\<forall>d. resolves a ev \<longrightarrow> decide_all Inactive evs = Inr d \<longrightarrow>
        resolved a evs < delivered a (as_slice (dec_effects d)))"
  by (auto simp: accountable_def nth_append less_Suc_eq)

lemma accountable_Nil [simp]: "accountable a []"
  by (simp add: accountable_def)

lemma decide_all_accounted:
  assumes "decide_all Inactive (ClaimActivation a i c limit # evs) = Inr d" and "unclaimed evs"
    and "accountable a (ClaimActivation a i c limit # evs)"
  shows "accounted a (dec_state d) (as_slice (dec_effects d)) (ClaimActivation a i c limit # evs)"
  using assms
proof (induction evs arbitrary: d rule: rev_induct)
  case Nil
  then show ?case by (auto simp: decide_all_single decision_defs accounted_def)
next
  case (snoc ev evs)
  let ?evs = "ClaimActivation a i c limit # evs"
  obtain d1 d2 where run: "decide_all Inactive ?evs = Inr d1" and step: "reduce (dec_state d1) ev = Inr d2"
    and d: "d = decision_new (dec_state d2) (batch_add (dec_effects d1) (dec_effects d2))"
    using snoc.prems(1) unfolding append_Cons [symmetric] decide_all_append decide_all_single by auto
  have acc: "accountable a ?evs" "resolves a ev \<Longrightarrow> resolved a ?evs < delivered a (as_slice (dec_effects d1))"
    using snoc.prems(3) accountable_snoc [of a ?evs ev] run by auto
  have unc: "unclaimed evs" "\<And>b. \<not> claims b ev" using snoc.prems(2) by auto
  have "accounted a (dec_state d1) (as_slice (dec_effects d1)) ?evs" by (rule snoc.IH [OF run unc(1) acc(1)])
  from reduce_accounted [OF this step unc(2) decide_all_wf [OF _ run] acc(2)] show ?case
    unfolding d by simp
qed

subsection \<open>Properties\<close>

text \<open>
  C12: The reservation count is the number of unresolved deliveries, and the fence waits for them:
  in a stream that claims a slot once and resolves only what was delivered, an active slot holds as
  many reservations as the deliveries it emitted exceed the resolutions it received, a draining
  slot likewise, and a fence or a graceful retirement is emitted only once all deliveries ever
  emitted for the incarnation are resolved.
\<close>

theorem reservations_are_unresolved_deliveries:
  assumes "decide_all Inactive (ClaimActivation a i c limit # evs) = Inr d" and "unclaimed evs"
    and "accountable a (ClaimActivation a i c limit # evs)"
  shows "(\<forall>s. dec_state d = Active s \<longrightarrow>
        delivered a (as_slice (dec_effects d)) = resolved a evs + reservation_number (ac_reservations s)) \<and>
     (\<forall>s n. dec_state d = Draining s \<longrightarrow> dr_progress s = Reservations n \<longrightarrow>
        delivered a (as_slice (dec_effects d)) = resolved a evs + unat (nz_get n)) \<and>
     (list_ex is_fence (as_slice (dec_effects d)) \<or> list_ex is_graceful (as_slice (dec_effects d)) \<longrightarrow>
        delivered a (as_slice (dec_effects d)) = resolved a evs)"
  using decide_all_accounted [OF assms] by (auto simp: accounted_def)

definition draining_events :: "(nat, nat, nat) SlotEvent list" where
  "draining_events = [ActivationSucceeded (act 1) 7 8, Dispatch (dsp 2) 20, BeginDrain (act 1)]"

definition drained_events :: "(nat, nat, nat) SlotEvent list" where
  "drained_events =
     draining_events @ [DeliveryResolved (act 1) None, DeliveryResolved (act 1) (Some (dsp 2, 20))]"

lemma draining_run:
  "\<exists>d. decide_all Inactive (ClaimActivation (act 1) (dsp 1) 10 (nz 2) # draining_events) = Inr d \<and>
     delivered (act 1) (as_slice (dec_effects d)) = 2 \<and>
     dec_state d = Draining \<lparr>dr_activation_id = act 1, dr_endpoint = 7, dr_lease = 8,
       dr_progress = Reservations (nz 2)\<rparr>"
  by (simp add: draining_events_def decide_all_Cons decision_defs cmp_def from_len_def nz_new_def
      checked_add_def)

theorem reservations_are_unresolved_deliveries_witness:
  "\<exists>d. decide_all Inactive (ClaimActivation (act 1) (dsp 1) 10 (nz 2) # drained_events) = Inr d \<and>
     list_ex is_fence (as_slice (dec_effects d)) \<and> delivered (act 1) (as_slice (dec_effects d)) = 2"
proof -
  let ?claim = "ClaimActivation (act 1) (dsp 1) 10 (nz 2) :: (nat, nat, nat) SlotEvent"
  let ?none = "DeliveryResolved (act 1) None :: (nat, nat, nat) SlotEvent"
  let ?some = "DeliveryResolved (act 1) (Some (dsp 2, 20)) :: (nat, nat, nat) SlotEvent"
  obtain d0 where d0: "decide_all Inactive (?claim # draining_events) = Inr d0"
    "delivered (act 1) (as_slice (dec_effects d0)) = 2"
    "dec_state d0 = Draining \<lparr>dr_activation_id = act 1, dr_endpoint = 7, dr_lease = 8,
       dr_progress = Reservations (nz 2)\<rparr>"
    using draining_run by blast
  obtain d1 where d1: "decide_all Inactive ((?claim # draining_events) @ [?none]) = Inr d1"
    "delivered (act 1) (as_slice (dec_effects d1)) = 2"
    using d0 unfolding decide_all_append decide_all_single
    by (auto simp: decision_defs checked_sub_def nz_new_def)
  obtain d where d: "decide_all Inactive (?claim # drained_events) = Inr d"
    "list_ex is_fence (as_slice (dec_effects d))"
    using d0 unfolding drained_events_def append_Cons [symmetric] decide_all_append
    by (auto simp: decide_all_Cons decision_defs checked_sub_def nz_new_def)
  have "accountable (act 1) (?claim # draining_events)"
    by (auto simp: accountable_def draining_events_def less_Suc_eq)
  then have "accountable (act 1) (((?claim # draining_events) @ [?none]) @ [?some])"
    using d0 d1 unfolding accountable_snoc by (auto simp: draining_events_def)
  then have "accountable (act 1) (?claim # drained_events)" by (simp add: drained_events_def)
  moreover have "unclaimed drained_events" by (simp add: drained_events_def draining_events_def)
  ultimately have "delivered (act 1) (as_slice (dec_effects d)) = resolved (act 1) drained_events"
    using reservations_are_unresolved_deliveries [OF d(1)] d(2) by blast
  then show ?thesis using d by (auto simp: drained_events_def draining_events_def)
qed

end
