(* ===== verification/Slot_Duties.thy ===== *)
theory Slot_Duties
  imports Slot_Life
begin

section \<open>What a slot waits for\<close>

text \<open>
  Some effects ask the runtime for an answer: an activation, a delivery, a fence, a retirement.
  The fact that answers it comes back as an event.  \<open>owed\<close> is what a slot in a given state waits for,
  per incarnation and kind; the reducer keeps it equal to what was asked for and not answered yet.
  A slot closed to admission therefore ends after a number of answers that its state fixes.
\<close>

subsection \<open>Duties\<close>

datatype Duty = DutyActivation | DutyDelivery | DutyFence | DutyRetirement

fun effect_duty :: "('c, 'e, 'l) SlotEffect \<Rightarrow> (ActivationId \<times> Duty) option" where
  "effect_duty (StartActivation a) = Some (a, DutyActivation)"
| "effect_duty (Deliver a _ _ _) = Some (a, DutyDelivery)"
| "effect_duty (EnqueueFence a _) = Some (a, DutyFence)"
| "effect_duty (Retire a _ _) = Some (a, DutyRetirement)"
| "effect_duty (Reject _ _ _) = None"
| "effect_duty (Remove _) = None"

fun event_duty :: "('c, 'e, 'l) SlotEvent \<Rightarrow> (ActivationId \<times> Duty) option" where
  "event_duty (ActivationSucceeded a _ _) = Some (a, DutyActivation)"
| "event_duty (ActivationFailed a) = Some (a, DutyActivation)"
| "event_duty (DeliveryResolved a _) = Some (a, DutyDelivery)"
| "event_duty (FenceAcknowledged a) = Some (a, DutyFence)"
| "event_duty (ForceDrain a _) = Some (a, DutyFence)"
| "event_duty (Terminated a) = Some (a, DutyRetirement)"
| "event_duty _ = None"

fun owed :: "('c, 'e, 'l) EntitySlot \<Rightarrow> ActivationId \<times> Duty \<Rightarrow> nat" where
  "owed Inactive x = 0"
| "owed (Activating st) x = (if x = (ag_activation_id st, DutyActivation) then 1 else 0)"
| "owed (Active st) x =
     (if x = (ac_activation_id st, DutyDelivery) then reservation_number (ac_reservations st) else 0)"
| "owed (Draining st) x =
     (case dr_progress st of
        Reservations n \<Rightarrow> if x = (dr_activation_id st, DutyDelivery) then unat (nz_get n) else 0
      | FenceAcknowledgement \<Rightarrow> if x = (dr_activation_id st, DutyFence) then 1 else 0)"
| "owed (Retiring a) x = (if x = (a, DutyRetirement) then 1 else 0)"

definition duties :: "ActivationId \<times> Duty \<Rightarrow> ('c, 'e, 'l) SlotEffect list \<Rightarrow> nat" where
  "duties x effects = length (filter (\<lambda>e. effect_duty e = Some x) effects)"

definition answers :: "ActivationId \<times> Duty \<Rightarrow> ('c, 'e, 'l) SlotEvent list \<Rightarrow> nat" where
  "answers x evs = length (filter (\<lambda>ev. event_duty ev = Some x) evs)"

lemma duties_simps [simp]:
  "duties x [] = 0" "duties x (e # es) = (if effect_duty e = Some x then 1 else 0) + duties x es"
  "duties x (es @ es') = duties x es + duties x es'"
  by (simp_all add: duties_def)

lemma answers_simps [simp]:
  "answers x [] = 0" "answers x (ev # evs) = (if event_duty ev = Some x then 1 else 0) + answers x evs"
  "answers x (evs @ evs') = answers x evs + answers x evs'"
  by (simp_all add: answers_def)

lemma duty_delivery:
  "effect_duty e = Some (a, DutyDelivery) \<longleftrightarrow> delivers_to a e"
  "event_duty ev = Some (a, DutyDelivery) \<longleftrightarrow> resolves a ev"
  by (cases e; auto) (cases ev; auto)

lemma duties_delivered: "duties (a, DutyDelivery) effects = delivered a effects"
  by (simp add: duties_def delivered_def duty_delivery)

lemma answers_resolved: "answers (a, DutyDelivery) evs = resolved a evs"
  by (simp add: answers_def resolved_def duty_delivery)

lemma duties_none [simp]: "(\<And>e. e \<in> set es \<Longrightarrow> effect_duty e \<noteq> Some x) \<Longrightarrow> duties x es = 0"
  by (auto simp: duties_def filter_empty_conv)

lemma duties_pos: "0 < duties x es \<longleftrightarrow> (\<exists>e\<in>set es. effect_duty e = Some x)"
  by (auto simp: duties_def filter_empty_conv)

lemma duties_waiters:
  "duties x (map (\<lambda>w. Deliver a (f w) endpoint (g w)) ws) = (if x = (a, DutyDelivery) then length ws else 0)"
  by (induction ws) auto

lemma duties_rejects [simp]: "duties x (map (\<lambda>w. Reject (f w) (g w) reason) ws) = 0"
  by (induction ws) auto

lemma event_duty_generation: "event_duty ev = Some x \<Longrightarrow> event_generation ev = Some (fst x)"
  by (cases ev) auto

subsection \<open>One reduction\<close>

lemma reduce_duties:
  assumes "reduce st ev = Inr d" and "\<And>b. \<not> claims b ev" and "slot_wf st"
    and "st = Inactive \<or> slot_activation_id st = Some (fst x)"
    and "\<And>y. event_duty ev = Some y \<Longrightarrow> fst y = fst x \<Longrightarrow> 0 < owed st y"
  shows "owed (dec_state d) x + (if event_duty ev = Some x then 1 else 0) =
    owed st x + duties x (as_slice (dec_effects d))"
proof (cases st)
  case (Active s)
  then show ?thesis using assms
    by (cases ev) (auto simp: reducer_simps resolve_Unexpected
      split: option.splits ReservationResolution.splits ReservationCount.splits if_splits
      dest!: reserve_Inr resolve_ResDrained resolve_ResPending)
next
  case Inactive
  then show ?thesis using assms
    by (cases ev) (auto simp: reducer_simps split: option.splits)
next
  case (Activating s)
  have "length (ag_waiters s) < 2 ^ 64"
    using assms(3) Activating by (auto intro: le_less_trans [OF _ unat_u64_less])
  then have "unat (of_nat (length (ag_waiters s)) :: u64) = length (ag_waiters s)"
    by (rule unat_of_nat_u64)
  then show ?thesis using assms Activating
    by (cases ev) (auto simp: reducer_simps comp_def duties_waiters
      reservation_number_from_len split: option.splits Ordering.splits if_splits)
next
  case (Draining s)
  then show ?thesis using assms
    by (cases ev) (auto simp: reducer_simps remaining_reservations
      split: option.splits DrainProgress.splits if_splits)
next
  case (Retiring b)
  then show ?thesis using assms
    by (cases ev) (auto simp: reducer_simps split: option.splits)
qed

text \<open>A slot asks in the name of another incarnation only to give back a lease that was sent to it.\<close>

lemma reduce_foreign:
  assumes "reduce st ev = Inr d" and "\<And>b. \<not> claims b ev"
    and "st = Inactive \<or> slot_activation_id st = Some a"
    and "e \<in> set (as_slice (dec_effects d))" and "effect_duty e = Some (b, k)" and "b \<noteq> a"
  shows "event_duty ev = Some (b, DutyActivation)"
  using assms
  by (cases st; cases ev)
    (auto simp: reducer_simps split: option.splits prod.splits Ordering.splits
      DrainProgress.splits ReservationCount.splits ReservationResolution.splits if_splits)

subsection \<open>Streams of events\<close>

text \<open>The balance of incarnation \<open>a\<close> after the events \<open>evs\<close>.\<close>

definition balanced ::
  "ActivationId \<Rightarrow> ('c, 'e, 'l) SlotEvent list \<Rightarrow> ('c, 'e, 'l) SlotDecision \<Rightarrow> bool" where
  "balanced a evs d \<longleftrightarrow>
     (\<forall>k. owed (dec_state d) (a, k) + answers (a, k) evs = duties (a, k) (as_slice (dec_effects d)))"

lemma balanced_claim:
  "decide_all Inactive [ClaimActivation a i c limit] = Inr d \<Longrightarrow> balanced a [ClaimActivation a i c limit] d"
  by (auto simp: decide_all_single decision_defs balanced_def)

lemma balanced_snoc:
  assumes "balanced a evs d" and "decide_all Inactive evs = Inr d" and "decide_all Inactive (evs @ [ev]) = Inr d'"
    and "dec_state d = Inactive \<or> slot_activation_id (dec_state d) = Some a" and "\<And>b. \<not> claims b ev"
    and "\<And>k. event_duty ev = Some (a, k) \<Longrightarrow> 0 < owed (dec_state d) (a, k)"
  shows "balanced a (evs @ [ev]) d'"
proof -
  obtain d1 where step: "reduce (dec_state d) ev = Inr d1"
    and d': "d' = decision_new (dec_state d1) (batch_add (dec_effects d) (dec_effects d1))"
    using assms(2,3) by (auto simp: decide_all_append decide_all_single)
  have wf: "slot_wf (dec_state d)" by (rule decide_all_wf [OF _ assms(2)]) simp
  have "owed (dec_state d1) (a, k) + (if event_duty ev = Some (a, k) then 1 else 0) =
      owed (dec_state d) (a, k) + duties (a, k) (as_slice (dec_effects d1))" for k
    using assms(4,6) by (intro reduce_duties [OF step assms(5) wf]) auto
  then have one: "owed (dec_state d1) (a, k) + answers (a, k) [ev] =
      owed (dec_state d) (a, k) + duties (a, k) (as_slice (dec_effects d1))" for k by simp
  show ?thesis
    unfolding balanced_def
  proof
    fix k
    have "owed (dec_state d) (a, k) + answers (a, k) evs = duties (a, k) (as_slice (dec_effects d))"
      using assms(1) by (simp add: balanced_def)
    then show "owed (dec_state d') (a, k) + answers (a, k) (evs @ [ev]) = duties (a, k) (as_slice (dec_effects d'))"
      using one [of k] unfolding answers_simps(3) d' by simp
  qed
qed

lemma decide_all_foreign:
  assumes "decide_all st evs = Inr d" and "unclaimed evs"
    and "st = Inactive \<or> slot_activation_id st = Some a"
    and "e \<in> set (as_slice (dec_effects d))" and "effect_duty e = Some (b, k)" and "b \<noteq> a"
  shows "\<exists>ev\<in>set evs. event_duty ev = Some (b, DutyActivation)"
  using assms(1-4)
proof (induction evs arbitrary: st d)
  case (Cons ev evs)
  from Cons.prems(1) obtain d1 d2 where step: "reduce st ev = Inr d1"
    and rest: "decide_all (dec_state d1) evs = Inr d2"
    and d: "d = decision_new (dec_state d2) (batch_add (dec_effects d1) (dec_effects d2))"
    by (auto simp: decide_all_Cons)
  have unc: "\<And>b. \<not> claims b ev" "unclaimed evs" using Cons.prems(2) by simp_all
  note life = reduce_life [OF step unc(1) Cons.prems(3)]
  show ?case
    using Cons.IH [OF rest unc(2) life(3)] reduce_foreign [OF step unc(1) Cons.prems(3) _ assms(5,6)]
      Cons.prems(4) d by auto
qed auto

lemma claimed_foreign:
  assumes "decide_all Inactive (ClaimActivation a i c limit # evs) = Inr d" and "unclaimed evs"
    and "e \<in> set (as_slice (dec_effects d))" and "effect_duty e = Some (b, k)" and "b \<noteq> a"
  shows "\<exists>ev\<in>set evs. event_duty ev = Some (b, DutyActivation)"
proof -
  obtain d1 d2 where step: "reduce Inactive (ClaimActivation a i c limit) = Inr d1"
    and rest: "decide_all (dec_state d1) evs = Inr d2"
    and d: "d = decision_new (dec_state d2) (batch_add (dec_effects d1) (dec_effects d2))"
    using assms(1) by (auto simp: decide_all_Cons)
  have "as_slice (dec_effects d1) = [StartActivation a]" "slot_activation_id (dec_state d1) = Some a"
    using step by (auto simp: decision_defs)
  then show ?thesis
    using decide_all_foreign [OF rest assms(2) _ _ assms(4,5)] assms(3-5) d by auto
qed

subsection \<open>A closed slot ends\<close>

text \<open>How many answers a slot closed to admission still needs before it is removed.\<close>

fun distance :: "('c, 'e, 'l) EntitySlot \<Rightarrow> nat option" where
  "distance (Draining st) =
     (case dr_progress st of Reservations n \<Rightarrow> Some (unat (nz_get n) + 2) | FenceAcknowledgement \<Rightarrow> Some 2)"
| "distance (Retiring _) = Some 1"
| "distance Inactive = Some 0"
| "distance _ = None"

text \<open>An event is dutiful when it answers nothing, another incarnation, or something owed.\<close>

definition dutiful :: "('c, 'e, 'l) EntitySlot \<Rightarrow> ('c, 'e, 'l) SlotEvent \<Rightarrow> bool" where
  "dutiful st ev =
     (case event_duty ev of
        None \<Rightarrow> True
      | Some x \<Rightarrow> if slot_activation_id st = Some (fst x) then 0 < owed st x else True)"

fun all_dutiful :: "('c, 'e, 'l) EntitySlot \<Rightarrow> ('c, 'e, 'l) SlotEvent list \<Rightarrow> bool" where
  "all_dutiful st [] = True"
| "all_dutiful st (ev # evs) =
     (dutiful st ev \<and> (case reduce st ev of Inl _ \<Rightarrow> True | Inr d \<Rightarrow> all_dutiful (dec_state d) evs))"

text \<open>The events that answer incarnation \<open>a\<close>.\<close>

definition answers_of :: "ActivationId \<Rightarrow> ('c, 'e, 'l) SlotEvent list \<Rightarrow> nat" where
  "answers_of a evs = length (filter (\<lambda>ev. map_option fst (event_duty ev) = Some a) evs)"

lemma reduce_distance:
  assumes "distance st = Some n" and "\<And>b. \<not> claims b ev" and "dutiful st ev"
  shows "\<exists>d. reduce st ev = Inr d \<and>
    distance (dec_state d) = Some (n - (if slot_activation_id st \<noteq> None \<and>
      map_option fst (event_duty ev) = slot_activation_id st then 1 else 0))"
  using assms
  by (cases st; cases ev)
    (auto simp: reducer_simps dutiful_def remaining_reservations split: option.splits DrainProgress.splits if_splits)

lemma distance_Inactive [simp]: "distance st = Some 0 \<longleftrightarrow> st = Inactive"
  by (cases st) (auto split: DrainProgress.splits)

lemma distance_owed: "distance st = Some n \<Longrightarrow> st \<noteq> Inactive \<Longrightarrow> slot_activation_id st = Some a \<Longrightarrow> \<exists>k. 0 < owed st (a, k)"
  by (cases st) (auto split: DrainProgress.splits)

lemma decide_all_distance:
  assumes "distance st = Some n" and "unclaimed evs" and "all_dutiful st evs"
    and "st = Inactive \<or> slot_activation_id st = Some a"
  shows "\<exists>d. decide_all st evs = Inr d \<and> distance (dec_state d) = Some (n - answers_of a evs)"
  using assms
proof (induction evs arbitrary: st n)
  case (Cons ev evs)
  have unc: "\<And>b. \<not> claims b ev" "unclaimed evs" using Cons.prems(2) by simp_all
  obtain d1 where step: "reduce st ev = Inr d1"
    and dist: "distance (dec_state d1) = Some (n - (if slot_activation_id st \<noteq> None \<and>
      map_option fst (event_duty ev) = slot_activation_id st then 1 else 0))"
    using reduce_distance [OF Cons.prems(1) unc(1)] Cons.prems(3) by auto
  have "\<exists>d. decide_all (dec_state d1) evs = Inr d \<and>
      distance (dec_state d) = Some (n - (if slot_activation_id st \<noteq> None \<and>
        map_option fst (event_duty ev) = slot_activation_id st then 1 else 0) - answers_of a evs)"
    using Cons.IH [OF dist unc(2) _ reduce_life(3) [OF step unc(1) Cons.prems(4)]] Cons.prems(3) step by simp
  moreover have "st = Inactive \<Longrightarrow> n = 0" using Cons.prems(1) by simp
  ultimately show ?case
    using step Cons.prems(4) by (auto simp: decide_all_Cons answers_of_def)
qed (simp add: answers_of_def)

subsection \<open>Properties\<close>

text \<open>
  C18: A drain always ends: once a slot is closed to admission, the number of answers it still needs
  is fixed by its state (its unresolved deliveries, the fence, the retirement).  Whatever else is
  submitted meanwhile, if answers come only when they are owed, no event panics, the slot is removed
  exactly when that number of answers has come, with one \<open>Remove\<close> of that incarnation, and until then
  it waits for at least one more answer.
\<close>

theorem closed_slot_is_removed:
  assumes "distance st = Some n" and "slot_activation_id st = Some a"
    and "unclaimed evs" and "all_dutiful st evs"
  shows "\<exists>d. decide_all st evs = Inr d \<and> distance (dec_state d) = Some (n - answers_of a evs) \<and>
     (if n \<le> answers_of a evs
      then dec_state d = Inactive \<and> filter is_remove (as_slice (dec_effects d)) = [Remove a]
      else filter is_remove (as_slice (dec_effects d)) = [] \<and> (\<exists>k. 0 < owed (dec_state d) (a, k)))"
proof -
  obtain d where d: "decide_all st evs = Inr d" "distance (dec_state d) = Some (n - answers_of a evs)"
    using decide_all_distance [OF assms(1,3,4) disjI2 [OF assms(2)]] by blast
  have active: "st \<noteq> Inactive" using assms(2) by auto
  note life = decide_all_life [OF d(1) assms(3) disjI2 [OF assms(2)]]
  show ?thesis
  proof (cases "n \<le> answers_of a evs")
    case True
    then have "dec_state d = Inactive" using d(2) by simp
    then show ?thesis using True d life active by auto
  next
    case False
    then have "dec_state d \<noteq> Inactive" using d(2) by auto
    then show ?thesis using False d life distance_owed [OF d(2)] by auto
  qed
qed

definition ending_events :: "(nat, nat, nat) SlotEvent list" where
  "ending_events =
     [Dispatch (dsp 3) 30, DeliveryResolved (act 1) None, Terminated (act 9),
      DeliveryResolved (act 1) (Some (dsp 2, 20)),
      ForceDrain (act 1) \<lparr>stage = StFenceEnqueue, outstanding_reservations = 0\<rparr>, BeginDrain (act 1),
      Terminated (act 1)]"

theorem closed_slot_is_removed_witness:
  "\<exists>d. decide_all (Draining \<lparr>dr_activation_id = act 1, dr_endpoint = 7, dr_lease = 8,
         dr_progress = Reservations (nz 2)\<rparr>) ending_events = Inr d \<and>
     dec_state d = Inactive \<and> filter is_remove (as_slice (dec_effects d)) = [Remove (act 1)]"
proof -
  let ?st = "Draining \<lparr>dr_activation_id = act 1, dr_endpoint = 7, dr_lease = 8,
    dr_progress = Reservations (nz 2)\<rparr> :: (nat, nat, nat) EntitySlot"
  have "answers_of (act 1) ending_events = 4" by (simp add: answers_of_def ending_events_def)
  moreover have "all_dutiful ?st ending_events"
    by (simp add: ending_events_def dutiful_def decision_defs checked_sub_def nz_new_def)
  moreover have "unclaimed ending_events" by (simp add: ending_events_def)
  ultimately show ?thesis
    using closed_slot_is_removed [of ?st 4 "act 1" ending_events] by auto
qed

end
