(* ===== verification/Runtime_Duties.thy ===== *)
theory Runtime_Duties
  imports Runtime Slot_Duties
begin

section \<open>Counting tasks and facts\<close>

text \<open>
  Every duty of a slot passes through the runtime as a call, then a spawned task, then the fact that
  the task submits.  Along every step of the runtime the tasks and the facts of one duty are counted:
  a step spawns at most one task, turns it into one fact, and hands the fact on, submits it, or loses it.
\<close>

subsection \<open>Duties of calls, tasks and operations\<close>

fun call_duty :: "('i, 'c, 'e, 'l) RuntimeCall \<Rightarrow> (ActivationId \<times> Duty) option" where
  "call_duty (CallStartActivation _ a) = Some (a, DutyActivation)"
| "call_duty (CallDeliver _ a _ _ _) = Some (a, DutyDelivery)"
| "call_duty (CallEnqueueFence _ a _) = Some (a, DutyFence)"
| "call_duty (CallRetire _ a _ _) = Some (a, DutyRetirement)"
| "call_duty (CallReject _ _ _) = None"

fun task_duty :: "('i, 'c, 'e, 'l) Task \<Rightarrow> ActivationId \<times> Duty" where
  "task_duty (ActivateTask _ a) = (a, DutyActivation)"
| "task_duty (DeliverTask _ a _ _ _) = (a, DutyDelivery)"
| "task_duty (FenceTask _ a _) = (a, DutyFence)"
| "task_duty (RetireTask _ a _ _) = (a, DutyRetirement)"

fun call_label :: "ActivationId \<times> Duty \<Rightarrow> ('i, 'c, 'e, 'l) DirectoryLabel \<Rightarrow> bool" where
  "call_label x (Progress k op call op') = (Option.bind call call_duty = Some x)"
| "call_label x _ = False"

definition calls :: "ActivationId \<times> Duty \<Rightarrow> ('i, 'c, 'e, 'l) DirectoryLabel list \<Rightarrow> nat" where
  "calls x tr = length (filter (call_label x) tr)"

lemma calls_simps [simp]:
  "calls x [] = 0" "calls x (tr @ [l]) = calls x tr + (if call_label x l then 1 else 0)"
  by (simp_all add: calls_def)

fun runs :: "ActivationId \<times> Duty \<Rightarrow> ('i, 'c, 'e, 'l) Thread option \<Rightarrow> bool" where
  "runs x (Some (TaskRunning task)) = (task_duty task = x)"
| "runs x _ = False"

text \<open>The fact that answers a duty, on its way to a slot.\<close>

fun carries :: "ActivationId \<times> Duty \<Rightarrow> ('i, 'c, 'e, 'l) Operation option \<Rightarrow> bool" where
  "carries x (Some (AtFind i ev)) = (event_duty ev = Some x)"
| "carries x (Some (AtSubmitTo p i ev)) = (event_duty ev = Some x)"
| "carries x _ = False"

definition tasks_of :: "ActivationId \<times> Duty \<Rightarrow> ('i, 'c, 'e, 'l) RuntimeSystem \<Rightarrow> nat set" where
  "tasks_of x s = {t. runs x (rs_threads s t)}"

definition facts_of :: "ActivationId \<times> Duty \<Rightarrow> ('i, 'c, 'e, 'l) RuntimeSystem \<Rightarrow> nat set" where
  "facts_of x s = {k. carries x (ds_operations (rs_directory s) k)}"

fun spawn_label :: "ActivationId \<times> Duty \<Rightarrow> ('i, 'c, 'e, 'l) RuntimeLabel \<Rightarrow> bool" where
  "spawn_label x (RtOperation t (Some task), l) = (task_duty task = x)"
| "spawn_label x _ = False"

fun answer_label :: "ActivationId \<times> Duty \<Rightarrow> ('i, 'c, 'e, 'l) RuntimeLabel \<Rightarrow> bool" where
  "answer_label x (RtAnswer t task answer, l) = (task_duty task = x)"
| "answer_label x _ = False"

definition spawned_tasks :: "ActivationId \<times> Duty \<Rightarrow> ('i, 'c, 'e, 'l) RuntimeLabel list \<Rightarrow> nat" where
  "spawned_tasks x tr = length (filter (spawn_label x) tr)"

definition answered_tasks :: "ActivationId \<times> Duty \<Rightarrow> ('i, 'c, 'e, 'l) RuntimeLabel list \<Rightarrow> nat" where
  "answered_tasks x tr = length (filter (answer_label x) tr)"

lemma task_count_simps [simp]:
  "spawned_tasks x [] = 0" "answered_tasks x [] = 0"
  "spawned_tasks x (tr @ [l]) = spawned_tasks x tr + (if spawn_label x l then 1 else 0)"
  "answered_tasks x (tr @ [l]) = answered_tasks x tr + (if answer_label x l then 1 else 0)"
  by (simp_all add: spawned_tasks_def answered_tasks_def)

subsection \<open>One step\<close>

text \<open>How a set of keys grows and shrinks when one key is updated.\<close>

lemma keys_update:
  assumes "finite {k. P (f k)}"
  shows "finite {j. P ((f(k := x)) j)}"
    and "card {j. P ((f(k := x)) j)} + (if P (f k) then 1 else 0) =
      card {j. P (f j)} + (if P x then 1 else 0)"
proof -
  let ?A = "{j. P (f j)} - {k}"
  have old: "\<not> P (f k) \<Longrightarrow> {j. P (f j)} = ?A" by auto
  have new: "{j. P ((f(k := x)) j)} = (if P x then insert k ?A else ?A)" by auto
  have fin: "finite ?A" using assms by simp
  then show "finite {j. P ((f(k := x)) j)}" unfolding new by simp
  have "card {j. P (f j)} = (if P (f k) then 1 else 0) + card ?A"
    using card.remove [OF assms, of k] old by auto
  moreover have "card {j. P ((f(k := x)) j)} = (if P x then 1 else 0) + card ?A"
    by (subst new) (simp add: fin assms card.insert_remove)
  ultimately show "card {j. P ((f(k := x)) j)} + (if P (f k) then 1 else 0) =
      card {j. P (f j)} + (if P x then 1 else 0)" by simp
qed

lemma spawned_duty: "spawned handled call = Some task \<Longrightarrow> Option.bind call call_duty = Some (task_duty task)"
  by (cases call; cases "the call") (auto simp: spawned_def split: if_splits)

lemma spawn_calls:
  "rt_step s l s' \<Longrightarrow> spawn_label x l \<Longrightarrow> \<exists>d. snd l = Some d \<and> call_label x d"
  by (erule rt_stepE) (auto dest: spawned_duty split: option.splits elim: spawn_label.elims)

lemma run_callback_threads:
  "rs_threads (run_callback handled call t s) =
     (case spawned handled call of None \<Rightarrow> rs_threads s | Some task \<Rightarrow> (rs_threads s)(t \<mapsto> TaskRunning task))"
  by (auto simp: run_callback_def spawned_def split: option.splits Callback.splits)

lemma advance_not_running: "thread_advance fresh thread op = Some (thread', u) \<Longrightarrow> thread' \<noteq> TaskRunning task"
proof (cases thread)
  case (DispatchCall i n k)
  moreover assume "thread_advance fresh thread op = Some (thread', u)"
  ultimately show ?thesis
    by (cases "dispatch_result op"; cases "the (dispatch_result op)")
      (auto simp: thread_advance_def split: option.splits sum.splits)
qed (auto simp: thread_advance_def split: option.splits if_splits)

lemma tasks_step:
  assumes "finite (tasks_of x s)" and "rt_step s l s'"
  shows "finite (tasks_of x s')"
    and "card (tasks_of x s') + (if answer_label x l then 1 else 0) =
      card (tasks_of x s) + (if spawn_label x l then 1 else 0)"
proof -
  have upd: "finite (tasks_of x s') \<and> card (tasks_of x s') + (if runs x (rs_threads s t) then 1 else 0) =
      card (tasks_of x s) + (if runs x y then 1 else 0)"
    if "rs_threads s' = (rs_threads s)(t := y)" for t y
    using keys_update [of "runs x" "rs_threads s" t y] assms(1) that by (auto simp: tasks_of_def)
  have "finite (tasks_of x s') \<and> card (tasks_of x s') + (if answer_label x l then 1 else 0) =
      card (tasks_of x s) + (if spawn_label x l then 1 else 0)"
    using assms(2)
  proof cases
    case (rt_operation k op handled call op' dir' t)
    show ?thesis
    proof (cases "spawned handled call")
      case None
      then have "tasks_of x s' = tasks_of x s"
        using rt_operation by (simp add: tasks_of_def run_callback_threads)
      then show ?thesis using None rt_operation(1) assms(1) by simp
    next
      case (Some task)
      then have "rs_threads s' = (rs_threads s)(t := Some (TaskRunning task))"
        using rt_operation by (simp add: run_callback_threads)
      from upd [OF this] show ?thesis using Some rt_operation by auto
    qed
  next
    case (rt_advance t thread k op fresh thread' u d ds')
    then have "\<not> runs x (Some thread)" by (cases thread) auto
    moreover have "\<not> runs x (Some thread')"
      using advance_not_running [OF rt_advance(7)] by (cases thread') auto
    ultimately show ?thesis using upd [of t "Some thread'"] rt_advance by auto
  next
    case (rt_dispatch t k n op i c)
    then show ?thesis using upd [of t "Some (DispatchCall i n k)"] by auto
  next
    case (rt_passivate t k op i)
    then show ?thesis using upd [of t "Some (PassivateLook i k)"] by auto
  next
    case (rt_poll t wait waker r completion)
    then show ?thesis
      using upd [of t "Some (case r of None \<Rightarrow> DispatchWaiting wait | Some result \<Rightarrow> DispatchDone result)"]
      by (auto split: option.splits)
  next
    case (rt_drop t wait k upgraded cancel)
    then show ?thesis
      using upd [of t "Some (case cancel of None \<Rightarrow> WaitDropped | Some _ \<Rightarrow> WaitCancel k)"]
      by (auto split: option.splits)
  next
    case (rt_answer t task answer completed op k)
    then show ?thesis using upd [of t "Some (TaskFact k)"] by auto
  qed
  then show "finite (tasks_of x s')"
    and "card (tasks_of x s') + (if answer_label x l then 1 else 0) =
      card (tasks_of x s) + (if spawn_label x l then 1 else 0)" by auto
qed

lemmas fact_defs =
  submit_or_inactive_def activation_succeeded_def activation_failed_def cancel_waiter_def
  delivery_resolved_def begin_drain_of_def fence_acknowledged_def force_drain_of_def terminated_def
  dispatch_def current_activation_def

lemma answer_fact:
  "task_answer task answer = Some (completed, op) \<Longrightarrow> carries x (Some op) \<longleftrightarrow> task_duty task = x"
  by (cases "(task, answer)" rule: task_answer.cases) (auto simp: fact_defs split: sum.splits)

lemma begun_fact: "thread_advance fresh thread op = Some (thread', UseBegin op') \<Longrightarrow> \<not> carries x (Some op')"
proof (cases thread)
  case (DispatchCall i n k)
  moreover assume "thread_advance fresh thread op = Some (thread', UseBegin op')"
  ultimately show ?thesis
    by (cases "dispatch_result op"; cases "the (dispatch_result op)")
      (auto simp: thread_advance_def split: option.splits sum.splits)
qed (auto simp: thread_advance_def fact_defs split: option.splits if_splits)

lemma interpreted_fact [simp]: "\<not> carries x (Some (interpret_output out))"
  by (simp add: interpret_output_def split: OutputTarget.splits)

lemma returned_fact: "returned_output op = Some out \<Longrightarrow> \<not> carries x (Some op)"
  by (cases op) auto

lemma dispatch_lookup_fact: "dispatch_lookup d i c self = (op', self') \<Longrightarrow> \<not> carries x (Some op')"
  by (auto simp: dispatch_lookup_def Let_def alloc_slot_def split: sum.splits option.splits prod.splits)

text \<open>A directory step hands a fact on, submits it, or loses it; it makes none.\<close>

lemma operation_fact:
  assumes "operation_step handled op self = (call, op', self')"
  shows "(if carries x (Some op') then 1 else 0) + answers x (event_label limit p (Progress k op call op'))
    \<le> (if carries x (Some op) then 1 else (0 :: nat))"
proof (cases op)
  case (AtLookup d i c)
  then show ?thesis using assms dispatch_lookup_fact [of d i c self op' self' x]
    by (cases "(limit, p, Progress k op call op')" rule: event_label.cases)
      (auto split: OutputTarget.splits option.splits)
next
  case (AtFind i ev)
  then show ?thesis using assms by (auto split: sum.splits option.splits)
next
  case (AtSubmitTo q i ev)
  then show ?thesis using assms by (auto split: sum.splits prod.splits)
next
  case (AtInterpret i q pc effects)
  then show ?thesis using assms by (cases effects) (auto simp: Let_def split: prod.splits option.splits)
next
  case (AtTransient i effects)
  then show ?thesis using assms by (cases effects) (auto simp: Let_def split: prod.splits option.splits)
qed (use assms in \<open>auto split: sum.splits option.splits prod.splits\<close>)

definition submitted :: "NonZeroUsize \<Rightarrow> nat \<Rightarrow> ActivationId \<times> Duty \<Rightarrow> ('i, 'c, 'e, 'l) RuntimeLabel \<Rightarrow> nat" where
  "submitted limit p x l = (case snd l of None \<Rightarrow> 0 | Some d \<Rightarrow> answers x (event_label limit p d))"

text \<open>The fact a step takes off its way without submitting it to slot \<open>p\<close>.\<close>

fun lost_label :: "NonZeroUsize \<Rightarrow> nat \<Rightarrow> ActivationId \<times> Duty \<Rightarrow> ('i, 'c, 'e, 'l) DirectoryLabel \<Rightarrow> nat" where
  "lost_label limit p x (Progress k op call op') =
     (if carries x (Some op) then 1 else 0) -
       ((if carries x (Some op') then 1 else 0) + answers x (event_label limit p (Progress k op call op')))"
| "lost_label limit p x _ = 0"

definition lost :: "NonZeroUsize \<Rightarrow> nat \<Rightarrow> ActivationId \<times> Duty \<Rightarrow> ('i, 'c, 'e, 'l) RuntimeLabel \<Rightarrow> nat" where
  "lost limit p x l = (case snd l of None \<Rightarrow> 0 | Some d \<Rightarrow> lost_label limit p x d)"

lemma facts_step:
  assumes "finite (facts_of x s)" and "rt_step s l s'"
  shows "finite (facts_of x s')"
    and "card (facts_of x s') + submitted limit p x l + lost limit p x l = card (facts_of x s) + (if answer_label x l then 1 else 0)"
proof -
  let ?ops = "ds_operations (rs_directory s)"
  have upd: "finite (facts_of x s') \<and> card (facts_of x s') + (if carries x (?ops k) then 1 else 0) =
      card (facts_of x s) + (if carries x y then 1 else 0)"
    if "ds_operations (rs_directory s') = ?ops(k := y)" for k y
    using keys_update [of "carries x" ?ops k y] assms(1) that by (auto simp: facts_of_def)
  have same: "facts_of x s' = facts_of x s" if "ds_operations (rs_directory s') = ?ops"
    using that by (simp add: facts_of_def)
  have "finite (facts_of x s') \<and>
      card (facts_of x s') + submitted limit p x l + lost limit p x l = card (facts_of x s) + (if answer_label x l then 1 else 0)"
    using assms(2)
  proof cases
    case (rt_operation k op handled call op' dir' t)
    then have "ds_operations (rs_directory s') = ?ops(k := Some op')" by simp
    from upd [OF this] show ?thesis
      using operation_fact [OF rt_operation(4), of x limit p k] rt_operation(1,3)
      by (auto simp: submitted_def lost_def split: if_splits)
  next
    case (rt_advance t thread k op fresh thread' u d ds')
    show ?thesis
    proof (cases u)
      case Leave
      then show ?thesis using same rt_advance assms(1) by (auto simp: use_operation_def submitted_def lost_def)
    next
      case (UseOutput out)
      then show ?thesis
        using upd [of k "Some (interpret_output out)"] rt_advance
          returned_fact [OF thread_uses_output, of fresh thread op thread' out x]
        by (auto simp: use_operation_def submitted_def lost_def)
    next
      case (UseBegin op')
      then show ?thesis
        using upd [of fresh "Some op'"] rt_advance begun_fact [of fresh thread op thread' op' x]
        by (auto simp: use_operation_def submitted_def lost_def)
    qed
  next
    case (rt_dispatch t k n op i c)
    then show ?thesis using upd [of k "Some op"] by (auto simp: submitted_def lost_def fact_defs)
  next
    case (rt_passivate t k op i)
    then show ?thesis using upd [of k "Some op"] by (auto simp: submitted_def lost_def fact_defs)
  next
    case (rt_poll t wait waker r completion)
    then show ?thesis using same assms(1) by (auto simp: submitted_def lost_def)
  next
    case (rt_drop t wait k upgraded cancel)
    show ?thesis
    proof (cases cancel)
      case None
      then show ?thesis using same rt_drop assms(1) by (auto simp: submitted_def lost_def)
    next
      case (Some op)
      then have "\<not> carries x (Some op)" using rt_drop(5) by (auto simp: drop_wait_def fact_defs split: if_splits)
      then show ?thesis using Some upd [of k "Some op"] rt_drop by (auto simp: submitted_def lost_def)
    qed
  next
    case (rt_answer t task answer completed op k)
    then show ?thesis using upd [of k "Some op"] answer_fact [OF rt_answer(4), of x] by (auto simp: submitted_def lost_def)
  qed
  then show "finite (facts_of x s')"
    and "card (facts_of x s') + submitted limit p x l + lost limit p x l = card (facts_of x s) + (if answer_label x l then 1 else 0)"
    by auto
qed

text \<open>The accounts of a schedule.\<close>

definition duty_accounts ::
  "NonZeroUsize \<Rightarrow> ('i, 'c, 'e, 'l) RuntimeLabel list \<Rightarrow> ('i, 'c, 'e, 'l) RuntimeSystem \<Rightarrow> bool" where
  "duty_accounts limit tr s \<longleftrightarrow>
     (\<forall>x. finite (tasks_of x s) \<and> finite (facts_of x s) \<and>
        card (tasks_of x s) + answered_tasks x tr = spawned_tasks x tr \<and>
        spawned_tasks x tr \<le> calls x (directory_trace tr) \<and>
        (\<forall>p. card (facts_of x s) + answers x (slot_events limit p (directory_trace tr)) \<le>
           answered_tasks x tr))"

lemma duty_accountsD:
  assumes "duty_accounts limit tr s"
  shows "finite (tasks_of x s)" "finite (facts_of x s)"
    "card (tasks_of x s) + answered_tasks x tr = spawned_tasks x tr"
    "spawned_tasks x tr \<le> calls x (directory_trace tr)"
    "card (facts_of x s) + answers x (slot_events limit p (directory_trace tr)) \<le> answered_tasks x tr"
  using assms unfolding duty_accounts_def by blast+

lemma submitted_events:
  "answers x (slot_events limit p (directory_trace (tr @ [l]))) =
     answers x (slot_events limit p (directory_trace tr)) + submitted limit p x l"
  by (auto simp: submitted_def split: option.splits)

interpretation duty_schedule:
  trace_invariant rt_step "runtime_start self" "duty_accounts limit"
  for self :: "('i, 'c PendingCommand, 'e, 'l) LocalDirectory" and limit
proof unfold_locales
  show "duty_accounts limit [] (runtime_start self)"
    by (simp add: duty_accounts_def runtime_start_def directory_start_def tasks_of_def facts_of_def)
next
  fix tr l and s s' :: "('i, 'c, 'e, 'l) RuntimeSystem"
  assume before: "duty_accounts limit tr s" and step: "rt_step s l s'"
  show "duty_accounts limit (tr @ [l]) s'"
    unfolding duty_accounts_def
  proof (intro allI conjI)
    fix x p
    note old = duty_accountsD(1-4) [OF before, of x] duty_accountsD(5) [OF before, of x p]
    note tasks = tasks_step [OF old(1) step]
    show "finite (tasks_of x s')" "finite (facts_of x s')"
      using tasks(1) facts_step(1) [OF old(2) step] by auto
    show "card (tasks_of x s') + answered_tasks x (tr @ [l]) = spawned_tasks x (tr @ [l])"
      using tasks(2) old(3) by (simp split: if_splits)
    show "spawned_tasks x (tr @ [l]) \<le> calls x (directory_trace (tr @ [l]))"
      using spawn_calls [OF step, of x] old(4) by (auto split: option.splits)
    show "card (facts_of x s') + answers x (slot_events limit p (directory_trace (tr @ [l]))) \<le>
        answered_tasks x (tr @ [l])"
      using facts_step(2) [OF old(2) step, of limit p] old(5)
      unfolding submitted_events by (simp split: if_splits)
  qed
qed

lemma runtime_directory:
  "schedule rt_step (runtime_start self) tr s \<Longrightarrow>
     schedule dir_step (directory_start self) (directory_trace tr) (rs_directory s)"
  by (rule runtime_schedule.inv_schedule)

end
