(* ===== verification/Directory_Health.thy ===== *)
theory Directory_Health
  imports Directory_Schedules
begin

section \<open>Healthy executors\<close>

text \<open>
  The one panic of the lifecycle machine is a reservation count at its limit.  A slot accounts for
  at most as many commands as dispatches were sent to it (\<open>demand\<close>), so as long as they are
  fewer than a word can count, no event makes its executor unwind with its lock held.
\<close>

subsection \<open>Demand of a slot\<close>

definition slot_state :: "('c, 'e, 'l) Slot \<Rightarrow> ('c, 'e, 'l) EntitySlot" where
  "slot_state slot = (case le_machine (guarded slot) of LmReady m \<Rightarrow> base_state m | LmPoisoned \<Rightarrow> Inactive)"

definition slot_healthy :: "('c, 'e, 'l) Slot \<Rightarrow> bool" where
  "slot_healthy slot \<longleftrightarrow> \<not> lock_poisoned slot \<and>
     (\<exists>m. le_machine (guarded slot) = LmReady m \<and> base_transition m = transition)"

text \<open>The commands a state accounts for: those that wait and those that are reserved.\<close>

fun demand :: "('c, 'e, 'l) EntitySlot \<Rightarrow> nat" where
  "demand (Activating st) = length (ag_waiters st)"
| "demand (Active st) = reservation_number (ac_reservations st)"
| "demand _ = 0"

fun event_ticket :: "('c, 'e, 'l) SlotEvent \<Rightarrow> nat" where
  "event_ticket (ClaimActivation _ _ _ _) = 1"
| "event_ticket (Dispatch _ _) = 1"
| "event_ticket _ = 0"

lemma reduce_demand:
  assumes "reduce st ev = Inr d"
  shows "demand (dec_state d) \<le> demand st + event_ticket ev"
proof (cases st)
  case (Activating ag)
  have "unat (of_nat n :: u64) \<le> n" for n by (simp add: unat_of_nat)
  with Activating show ?thesis using assms
    by (cases ev) (auto simp: reducer_simps reservation_number_from_len classify_def
        intro: order_trans [OF _ length_filter_le] split: option.splits prod.splits Ordering.splits)
next
  case (Active ac)
  then show ?thesis using assms
    by (cases ev) (auto simp: reducer_simps dest!: reserve_Inr resolve_ResPending [THEN eq_imp_le, THEN Suc_leD]
        split: option.splits prod.splits ReservationCount.splits ReservationResolution.splits if_splits)
next
  case (Draining dr)
  then show ?thesis using assms
    by (cases ev) (auto simp: reducer_simps split: option.splits prod.splits DrainProgress.splits if_splits)
qed (use assms in \<open>cases ev; auto simp: reducer_simps split: option.splits prod.splits\<close>)+

lemma slot_submit_demand:
  assumes "slot_healthy slot" and "slot_submit slot ev = (r, slot')" and "demand (slot_state slot) < 2 ^ 64 - 1"
  shows "\<exists>e. r = Inr e" and "slot_healthy slot'"
    and "demand (slot_state slot') \<le> demand (slot_state slot) + event_ticket ev"
proof -
  obtain m where m: "\<not> lock_poisoned slot" "le_machine (guarded slot) = LmReady m" "base_transition m = transition"
    using assms(1) by (auto simp: slot_healthy_def)
  then have "reduce (slot_state slot) ev \<noteq> Inl p" for p
    using assms(3) by (auto simp: reduce_panics)
  then obtain d where d: "reduce (slot_state slot) ev = Inr d" by (cases "reduce (slot_state slot) ev") auto
  then obtain out where out: "transition (slot_state slot) ev = Inr (out, dec_state d)"
    using reduce_transition by blast
  have "lifecycle_step m ev = Inr (out, m\<lparr>base_state := dec_state d\<rparr>)"
    using out m by (auto simp: lifecycle_step_Inr slot_state_def)
  then have "r = Inr (out_evidence out, out_activation_id out) \<and> slot_healthy slot' \<and> slot_state slot' = dec_state d"
    using assms(2) m by (auto simp: slot_submit_def linearized_submit_def lock_def Let_def output_evidence_def
        slot_healthy_def slot_state_def)
  with reduce_demand [OF d] show "\<exists>e. r = Inr e" "slot_healthy slot'"
    "demand (slot_state slot') \<le> demand (slot_state slot) + event_ticket ev" by auto
qed

lemma dispatch_step_healthy:
  assumes "dispatch_pending_step handled pc slot = (pc', slot')"
  shows "slot_healthy slot' = slot_healthy slot" and "slot_state slot' = slot_state slot"
  using dispatch_step_frame(1,2) [OF assms] by (simp_all add: slot_healthy_def slot_state_def)

lemma healthy_fresh:
  "slot_healthy (linearized_new fresh_machine)" "slot_state (linearized_new fresh_machine) = Inactive"
  by (simp_all add: slot_healthy_def slot_state_def linearized_new_def)

lemma healthy_activation: "slot_healthy slot \<Longrightarrow> \<exists>a. slot_activation slot = Inr a"
  by (auto simp: slot_healthy_def slot_activation_def linearized_evidence_def lock_def)

text \<open>An executor without a poisoned lock that unwinds was asked to dispatch and panicked.\<close>

lemma dispatch_step_calm:
  "dispatch_pending_step None pc slot = (Unwound p, slot') \<Longrightarrow> \<forall>q. pc \<noteq> Unwound q \<Longrightarrow> \<not> slot_healthy slot"
  by (cases pc) (auto simp: executor_defs lock_def slot_healthy_def
      split: DispatchState.splits list.splits option.splits if_splits)

subsection \<open>Demand of the directory\<close>

text \<open>The identities drawn that no slot accounts for yet, and those the slots account for.\<close>

fun operation_ticket :: "('i, 'c, 'e, 'l) Operation \<Rightarrow> nat" where
  "operation_ticket (AtLookup _ _ _) = 1"
| "operation_ticket (AtDispatch _ _ _ _) = 1"
| "operation_ticket _ = 0"

definition slots_demand :: "('c, 'e, 'l) Slot list \<Rightarrow> nat" where
  "slots_demand slots = (\<Sum>slot\<leftarrow>slots. demand (slot_state slot))"

lemma slots_demand_update:
  "q < length slots \<Longrightarrow> demand (slot_state slot) \<le> demand (slot_state (slots ! q)) + n \<Longrightarrow>
     slots_demand (slots[q := slot]) \<le> slots_demand slots + n"
  unfolding slots_demand_def map_update
  using elem_le_sum_list [of q "map (\<lambda>slot. demand (slot_state slot)) slots"]
  by (simp add: sum_list_update)

lemma slots_demand_member: "slot \<in> set slots \<Longrightarrow> demand (slot_state slot) \<le> slots_demand slots"
  unfolding slots_demand_def by (intro member_le_sum_list) auto

end
