(* ===== verification/Directory_Pointers.thy ===== *)
theory Directory_Pointers
  imports Directory_Health
begin

section \<open>Pointers, entries and healthy slots\<close>

text \<open>
  What every schedule keeps of the shards, the sequences and the operations: every pointer belongs to
  the entity it is used for, every executor is healthy, and the dispatches under way and the ones its
  slots account for are together fewer than the identities drawn.
\<close>

subsection \<open>Pointers and entries\<close>

definition home :: "('i EntityId \<times> ActivationId option) list \<Rightarrow> nat \<Rightarrow> 'i EntityId option" where
  "home cs p = (if p < length cs then Some (fst (cs ! p)) else None)"

lemma home_append: "home cs p = Some i \<Longrightarrow> home (cs @ cs') p = Some i"
  by (auto simp: home_def nth_append split: if_splits)

fun output_ok :: "('i EntityId \<times> ActivationId option) list \<Rightarrow> ('i, 'c, 'e, 'l) DirectoryOutput \<Rightarrow> bool" where
  "output_ok cs out =
     (case do_target out of Mapped p \<Rightarrow> home cs p = Some (do_entity_id out) | Transient _ \<Rightarrow> True)"

fun operation_ok :: "('i EntityId \<times> ActivationId option) list \<Rightarrow> ('i, 'c, 'e, 'l) Operation \<Rightarrow> bool" where
  "operation_ok cs (AtDispatch d i p c) = (home cs p = Some i)"
| "operation_ok cs (DispatchReturned (Inr out)) = output_ok cs (dp_output out)"
| "operation_ok cs (AtFind i ev) = (event_generation ev \<noteq> None)"
| "operation_ok cs (AtSubmitTo p i ev) = (home cs p = Some i \<and> event_generation ev \<noteq> None)"
| "operation_ok cs (OutputReturned out) = output_ok cs out"
| "operation_ok cs (AtInterpret i p pc effects) =
     (home cs p = Some i \<and> (effects \<noteq> [] \<longrightarrow> in_flight pc \<noteq> []))"
| "operation_ok cs _ = True"

lemma operation_ok_append: "operation_ok cs op \<Longrightarrow> operation_ok (cs @ cs') op"
  by (induction cs op rule: operation_ok.induct)
    (auto simp: home_append split: OutputTarget.splits)

definition pointers_ok ::
  "NonZeroUsize \<Rightarrow> ('i, 'c, 'e, 'l) DirectoryLabel list \<Rightarrow> ('i, 'c, 'e, 'l) DirectorySystem \<Rightarrow> bool" where
  "pointers_ok limit tr s \<longleftrightarrow>
     (let self = ds_directory s; cs = claims_made tr in
      shards_ok (dir_shards self) \<and> dir_waiter_limit self = limit \<and>
      length (dir_slots self) = length cs \<and>
      unat (dir_next_activation self) = Suc (length cs) \<and>
      (\<forall>p<length cs. snd (cs ! p) = Some (ActivationId (nz (of_nat (Suc p))))) \<and>
      (\<forall>i p. shard_entry (dir_shards self) i = Some p \<longrightarrow> home cs p = Some i) \<and>
      (\<forall>k op. ds_operations s k = Some op \<longrightarrow> operation_ok cs op) \<and>
      (\<forall>slot\<in>set (dir_slots self). slot_healthy slot) \<and> finite (dom (ds_operations s)) \<and>
      holdings operation_ticket (ds_operations s) + slots_demand (dir_slots self) < unat (dir_next_dispatch self))"

lemma submit_at_frame:
  "submit_at p ev self = (r, self') \<Longrightarrow>
     dir_shards self' = dir_shards self \<and> dir_waiter_limit self' = dir_waiter_limit self \<and>
     dir_next_activation self' = dir_next_activation self \<and>
     length (dir_slots self') = length (dir_slots self)"
  by (auto simp: submit_at_def Let_def split: prod.splits)

text \<open>A step that is not a claim keeps the slots, the sequence and the limit.\<close>

lemma operation_step_frame:
  assumes "shards_ok (dir_shards self)" and "operation_step handled op self = (call, op', self')"
    and "\<And>d i c. op \<noteq> AtLookup d i c"
    and healthy: "\<forall>i p. shard_entry (dir_shards self) i = Some p \<longrightarrow> slot_healthy (dir_slots self ! p)"
  shows "dir_waiter_limit self' = dir_waiter_limit self"
    and "dir_next_activation self' = dir_next_activation self"
    and "length (dir_slots self') = length (dir_slots self)"
    and "shards_ok (dir_shards self')"
    and "shard_entry (dir_shards self') =
      (case op of AtInterpret i p _ (Remove _ # _) \<Rightarrow>
         if shard_entry (dir_shards self) i = Some p then (shard_entry (dir_shards self))(i := None)
         else shard_entry (dir_shards self)
       | _ \<Rightarrow> shard_entry (dir_shards self))"
    and "claim_label (Progress k op call op') = []"
proof -
  have "dir_waiter_limit self' = dir_waiter_limit self \<and>
      dir_next_activation self' = dir_next_activation self \<and>
      length (dir_slots self') = length (dir_slots self) \<and> shards_ok (dir_shards self') \<and>
      shard_entry (dir_shards self') =
      (case op of AtInterpret i p _ (Remove _ # _) \<Rightarrow>
         if shard_entry (dir_shards self) i = Some p then (shard_entry (dir_shards self))(i := None)
         else shard_entry (dir_shards self)
       | _ \<Rightarrow> shard_entry (dir_shards self)) \<and> claim_label (Progress k op call op') = []"
  proof (cases op)
    case (AtInterpret i p pc effects)
    show ?thesis
    proof (cases effects)
      case Nil
      then show ?thesis using assms AtInterpret by (auto simp: Let_def split: prod.splits)
    next
      case (Cons effect rest)
      obtain shs where "remove_matching (dir_shards self) i p = Inr shs" "shards_ok shs"
        "shard_entry shs = (if shard_entry (dir_shards self) i = Some p
           then (shard_entry (dir_shards self))(i := None) else shard_entry (dir_shards self))"
        using sharded.remove_entry [OF assms(1), of i p] by blast
      then show ?thesis using assms AtInterpret Cons
        by (cases effect) (auto simp: Let_def split: prod.splits option.splits)
    qed
  next
    case (AtTransient i effects)
    then show ?thesis using assms
      by (cases effects) (auto simp: Let_def split: prod.splits option.splits)
  next
    case (AtCurrent i)
    show ?thesis
    proof (cases "shard_entry (dir_shards self) i")
      case (Some p)
      with healthy healthy_activation show ?thesis using assms AtCurrent
        by (fastforce simp: lock_shard_ok shard_entry_def)
    qed (use assms AtCurrent in \<open>auto simp: lock_shard_ok shard_entry_def\<close>)
  qed (use assms in \<open>auto simp: Let_def lock_shard_ok split: prod.splits option.splits sum.splits
      dest!: submit_at_frame\<close>)
  then show "dir_waiter_limit self' = dir_waiter_limit self"
    "dir_next_activation self' = dir_next_activation self"
    "length (dir_slots self') = length (dir_slots self)" "shards_ok (dir_shards self')"
    "shard_entry (dir_shards self') =
      (case op of AtInterpret i p _ (Remove _ # _) \<Rightarrow>
         if shard_entry (dir_shards self) i = Some p then (shard_entry (dir_shards self))(i := None)
         else shard_entry (dir_shards self)
       | _ \<Rightarrow> shard_entry (dir_shards self))"
    "claim_label (Progress k op call op') = []" by simp_all
qed

lemma operation_step_ok:
  assumes "operation_ok cs op" and "operation_step handled op self = (call, op', self')"
    and "\<And>d i c. op \<noteq> AtLookup d i c" and "shards_ok (dir_shards self)"
    and "\<And>i p. shard_entry (dir_shards self) i = Some p \<Longrightarrow> home cs p = Some i"
  shows "operation_ok cs op'"
proof -
  have entries: "lock_shard (dir_shards self) i = Inr entries \<Longrightarrow> entries i = Some p \<Longrightarrow> home cs p = Some i"
    for i p entries
    using assms(4,5) by (auto simp: lock_shard_ok shard_entry_def)
  show ?thesis
  proof (cases op)
    case (AtInterpret i p pc effects)
    have flight: "in_flight pc' \<noteq> []" if "pc' = AtHandle ow out" for pc' ow out using that by simp
    show ?thesis using assms(1,2) AtInterpret
      by (cases effects)
        (auto simp: Let_def split: prod.splits option.splits sum.splits Invocation.splits)
  next
    case (AtFind i ev)
    then show ?thesis using assms(1,2) entries [of i]
      by (auto simp: submit_absent_def directory_output_def split: sum.splits option.splits)
  next
    case (AtTransient i effects)
    then show ?thesis using assms(1,2)
      by (cases effects) (auto simp: Let_def split: prod.splits option.splits)
  next
    case (AtCurrent i)
    then show ?thesis using assms(1,2)
      by (auto split: sum.splits option.splits)
  qed (use assms(1-3) in \<open>auto simp: directory_output_def split: prod.splits option.splits sum.splits\<close>)
qed

text \<open>No step makes an executor unhealthy; what is demanded grows with the tickets handed in.\<close>

lemma submit_at_demand:
  assumes "submit_at q ev self = (r, self')" and "q < length (dir_slots self)"
    and "\<forall>slot\<in>set (dir_slots self). slot_healthy slot" and "slots_demand (dir_slots self) < 2 ^ 64 - 1"
  shows "\<exists>e. r = Inr e" and "\<forall>slot\<in>set (dir_slots self'). slot_healthy slot"
    and "slots_demand (dir_slots self') \<le> slots_demand (dir_slots self) + event_ticket ev"
    and "dir_next_dispatch self' = dir_next_dispatch self"
proof -
  obtain slot where slot: "slot_submit (dir_slots self ! q) ev = (r, slot)"
    "self' = self\<lparr>dir_slots := (dir_slots self)[q := slot]\<rparr>"
    using assms(1) by (auto simp: submit_at_def split: prod.splits)
  have "slot_healthy (dir_slots self ! q)" using assms(2,3) by simp
  moreover have "demand (slot_state (dir_slots self ! q)) < 2 ^ 64 - 1"
    using slots_demand_member [of "dir_slots self ! q" "dir_slots self"] assms(2,4) by simp
  ultimately have submitted: "\<exists>e. r = Inr e" "slot_healthy slot"
    "demand (slot_state slot) \<le> demand (slot_state (dir_slots self ! q)) + event_ticket ev"
    using slot_submit_demand slot(1) by blast+
  show "\<exists>e. r = Inr e" by (rule submitted(1))
  show "\<forall>slot\<in>set (dir_slots self'). slot_healthy slot"
    using assms(3) submitted(2) slot(2) set_update_subset_insert [of "dir_slots self" q slot] by auto
  show "slots_demand (dir_slots self') \<le> slots_demand (dir_slots self) + event_ticket ev"
    using slots_demand_update [OF assms(2) submitted(3)] slot(2) by simp
  show "dir_next_dispatch self' = dir_next_dispatch self" using slot(2) by simp
qed

lemma operation_step_demand:
  assumes "operation_ok cs op" and "operation_step handled op self = (call, op', self')"
    and "\<And>d i c. op \<noteq> AtLookup d i c" and "length (dir_slots self) = length cs"
    and "\<forall>slot\<in>set (dir_slots self). slot_healthy slot"
    and "slots_demand (dir_slots self) + operation_ticket op < unat (dir_next_dispatch self)"
  shows "(\<forall>slot\<in>set (dir_slots self'). slot_healthy slot) \<and>
    slots_demand (dir_slots self') + operation_ticket op' + unat (dir_next_dispatch self) \<le>
      slots_demand (dir_slots self) + operation_ticket op + unat (dir_next_dispatch self')"
proof -
  have bound: "slots_demand (dir_slots self) < 2 ^ 64 - 1"
    using less_le_trans [OF assms(6), of "2 ^ 64 - 1"] unat_u64_less [of "dir_next_dispatch self"]
    by (simp del: unat_u64_less)
  have homed: "q < length (dir_slots self)" if "home cs q = Some i" for q i
    using that assms(4) by (simp add: home_def split: if_splits)
  have dispatched: "(\<forall>slot\<in>set ((dir_slots self)[q := slot']). slot_healthy slot) \<and>
      slots_demand ((dir_slots self)[q := slot']) \<le> slots_demand (dir_slots self)"
    if "home cs q = Some i" "dispatch_pending_step h pc (dir_slots self ! q) = (pc', slot')" for q i h pc pc' slot'
    using dispatch_step_healthy [OF that(2)] homed [OF that(1)] assms(5)
      set_update_subset_insert [of "dir_slots self" q slot'] slots_demand_update [of q "dir_slots self" slot' 0]
    by auto
  show ?thesis
  proof (cases op)
    case (AtAllocate i c)
    show ?thesis
    proof (cases "unat (dir_next_dispatch self) + 1 < 2 ^ 64")
      case True
      moreover have "dir_next_dispatch self \<noteq> 0" using assms(6) by auto
      ultimately show ?thesis using AtAllocate assms(2,5) allocate_simps(1) by auto
    next
      case False
      then show ?thesis using AtAllocate assms(2,5) allocate_simps(2) [of "dir_next_dispatch self"]
        by (auto simp: not_less)
    qed
  next
    case (AtDispatch d i q c)
    then obtain r where "submit_at q (Dispatch d c) self = (r, self')" "operation_ticket op' = 0"
      using assms(2) by (auto split: prod.splits sum.splits)
    with submit_at_demand [OF this(1) _ assms(5) bound] homed show ?thesis using assms(1) AtDispatch by auto
  next
    case (AtSubmitTo q i ev)
    then obtain r where r: "submit_at q ev self = (r, self')" "operation_ticket op' = 0"
      using assms(2) by (auto split: prod.splits sum.splits)
    have "event_ticket ev = 0" using assms(1) AtSubmitTo by (cases ev) auto
    with r submit_at_demand [OF r(1) _ assms(5) bound] homed show ?thesis using assms(1) AtSubmitTo by auto
  next
    case (AtInterpret i q pc effects)
    then show ?thesis using assms(1,2,5) dispatched [of q i]
      by (cases effects) (auto simp: Let_def split: prod.splits option.splits sum.splits)
  next
    case (AtTransient i effects)
    then show ?thesis using assms(2,5)
      by (cases effects) (auto simp: Let_def split: prod.splits option.splits)
  qed (use assms(2,3,5) in \<open>auto split: prod.splits option.splits sum.splits\<close>)
qed

lemma pointers_ok_step:
  assumes "pointers_ok limit tr s" and "dir_step s l s'"
  shows "pointers_ok limit (tr @ [l]) s'"
proof -
  let ?self = "ds_directory s" and ?cs = "claims_made tr"
  have ok: "shards_ok (dir_shards ?self)" "dir_waiter_limit ?self = limit"
      "length (dir_slots ?self) = length ?cs" "unat (dir_next_activation ?self) = Suc (length ?cs)"
      "\<And>p. p < length ?cs \<Longrightarrow> snd (?cs ! p) = Some (ActivationId (nz (of_nat (Suc p))))"
      "\<And>i p. shard_entry (dir_shards ?self) i = Some p \<Longrightarrow> home ?cs p = Some i"
      "\<And>k op. ds_operations s k = Some op \<Longrightarrow> operation_ok ?cs op"
      "\<forall>slot\<in>set (dir_slots ?self). slot_healthy slot" "finite (dom (ds_operations s))"
      "holdings operation_ticket (ds_operations s) + slots_demand (dir_slots ?self) < unat (dir_next_dispatch ?self)"
    using assms(1) by (auto simp: pointers_ok_def Let_def)
  have entry: "\<forall>i p. shard_entry (dir_shards ?self) i = Some p \<longrightarrow> slot_healthy (dir_slots ?self ! p)"
    using ok(3,8) ok(6) by (fastforce simp: home_def split: if_splits)
  have same: "pointers_ok limit (tr @ [l]) s'"
    if "ds_directory s' = ?self" "claim_label l = []" "ds_operations s' = (ds_operations s)(k \<mapsto> op')"
      "operation_ok ?cs op'"
      "operation_ticket op' \<le> (case ds_operations s k of None \<Rightarrow> 0 | Some op \<Rightarrow> operation_ticket op)" for k op'
    using that ok holdings_update [OF ok(9), of operation_ticket k op']
    by (auto simp: pointers_ok_def Let_def)
  from assms(2) show ?thesis
  proof (cases rule: dir_step_cases)
    case (begun k op)
    then show ?thesis by (intro same [of k op]) (cases op; auto)+
  next
    case (interpreted k op out)
    then have "output_ok ?cs out" using ok(7) [of k op] by (cases op rule: returned_output.cases) auto
    then have "operation_ok ?cs (interpret_output out)"
      by (auto simp: interpret_output_def split: OutputTarget.splits)
    moreover have "operation_ticket (interpret_output out) = 0"
      by (simp add: interpret_output_def split: OutputTarget.splits)
    ultimately show ?thesis using interpreted by (intro same [of k "interpret_output out"]) auto
  next
    case (progress k op handled call op' dir')
    show ?thesis
    proof (cases "\<exists>d i c. op = AtLookup d i c")
      case False
      then have op: "\<And>d i c. op \<noteq> AtLookup d i c" by blast
      note frame = operation_step_frame [OF ok(1) progress(3) op entry]
      have "operation_ok ?cs op'"
        by (rule operation_step_ok [OF ok(7) [OF progress(2)] progress(3) op ok(1,6)])
      moreover have "home ?cs p = Some i" if "shard_entry (dir_shards dir') i = Some p" for i p
        using that ok(6) [of i p] frame(5)
        by (auto split: Operation.splits list.splits SlotEffect.splits if_splits)
      moreover have "(\<forall>slot\<in>set (dir_slots dir'). slot_healthy slot) \<and>
          holdings operation_ticket ((ds_operations s)(k \<mapsto> op')) + slots_demand (dir_slots dir') < unat (dir_next_dispatch dir')"
        using operation_step_demand [OF ok(7) [OF progress(2)] progress(3) op ok(3,8)] ok(10) progress(2)
          holdings_update [OF ok(9), of operation_ticket k op'] holdings_upper [OF ok(9) progress(2), of operation_ticket]
        by simp
      ultimately show ?thesis using frame(1-4,6) progress(1,4) ok
        by (auto simp: pointers_ok_def Let_def)
    next
      case True
      then obtain d i c where op: "op = AtLookup d i c" by blast
      have next0: "dir_next_activation ?self \<noteq> 0" using ok(4) by auto
      have "dispatch_lookup d i c ?self = (op', dir')" using progress(3) op by simp
      with ok(1) next0 show ?thesis
      proof (cases rule: dispatch_lookup_cases)
        case (found p)
        then show ?thesis using op progress(1,2,4) ok(6) by (intro same [of k op']) auto
      next
        case exhausted
        then show ?thesis using op progress(1,2,4) by (intro same [of k op']) auto
      next
        case (claimed ev slot out)
        let ?n = "dir_next_activation ?self"
        let ?cs' = "?cs @ [(i, Some (ActivationId (nz ?n)))]"
        have n: "of_nat (Suc (length ?cs)) = ?n" unfolding ok(4) [symmetric] by simp
        have label: "claims_made (tr @ [l]) = ?cs'"
          using progress(1) op claimed(3) by (simp add: directory_output_def)
        have "unat (?n + 1) = Suc (Suc (length ?cs))"
          using allocate_simps(1) [OF claimed(2) next0] ok(4) by simp
        moreover have "snd (?cs' ! p) = Some (ActivationId (nz (of_nat (Suc p))))" if "p < length ?cs'" for p
          using that ok(5) [of p] n by (cases "p < length ?cs") (auto simp: nth_append less_Suc_eq)
        moreover have home_new: "home ?cs' (length ?cs) = Some i" by (simp add: home_def)
        moreover have "home ?cs' p = Some j" if "shard_entry (dir_shards dir') j = Some p" for j p
          using that claimed(11) home_new ok(6) [of j p] unfolding ok(3)
          by (auto simp: home_append split: if_splits)
        moreover have "operation_ok ?cs' q" if "ds_operations s' j = Some q" for j q
          using that progress(4) ok(7) [of j q] claimed(3) ok(3)
          by (auto simp: operation_ok_append directory_output_def home_def split: if_splits)
        moreover have "slot_healthy slot \<and> demand (slot_state slot) \<le> 1"
          using slot_submit_demand [OF healthy_fresh(1) claimed(4)] by (simp add: healthy_fresh(2))
        moreover have "holdings operation_ticket ((ds_operations s)(k \<mapsto> op')) + 1 = holdings operation_ticket (ds_operations s)"
          using holdings_update [OF ok(9), of operation_ticket k op'] progress(2) op claimed(3) by simp
        ultimately show ?thesis
          using claimed(7-10,12) progress(4) ok(2,3,8,9,10)
          unfolding pointers_ok_def Let_def label by (simp add: slots_demand_def)
      qed
    qed
  qed
qed

subsection \<open>What the invariant gives\<close>

lemma pointers_ok_operation:
  "pointers_ok limit tr s \<Longrightarrow> ds_operations s k = Some op \<Longrightarrow> operation_ok (claims_made tr) op"
  by (simp add: pointers_ok_def Let_def)

lemma pointers_ok_facts:
  assumes "pointers_ok limit tr s"
  shows "shards_ok (dir_shards (ds_directory s))" and "dir_waiter_limit (ds_directory s) = limit"
    and "length (dir_slots (ds_directory s)) = length (claims_made tr)"
    and "unat (dir_next_activation (ds_directory s)) = Suc (length (claims_made tr))"
    and "dir_next_activation (ds_directory s) \<noteq> 0"
    and "shard_entry (dir_shards (ds_directory s)) i = Some p \<Longrightarrow> home (claims_made tr) p = Some i"
  using assms by (auto simp: pointers_ok_def Let_def)

lemma pointers_ok_healthy:
  assumes "pointers_ok limit tr s"
  shows "p < length (claims_made tr) \<Longrightarrow> slot_healthy (dir_slots (ds_directory s) ! p)"
    and "finite (dom (ds_operations s))"
    and "holdings operation_ticket (ds_operations s) + slots_demand (dir_slots (ds_directory s)) <
      unat (dir_next_dispatch (ds_directory s))"
  using assms by (auto simp: pointers_ok_def Let_def)

lemma pointers_entry_healthy:
  assumes "pointers_ok limit tr s" and "shard_entry (dir_shards (ds_directory s)) i = Some p"
  shows "slot_healthy (dir_slots (ds_directory s) ! p)"
  using pointers_ok_facts(6) [OF assms] pointers_ok_healthy(1) [OF assms(1)]
  by (auto simp: home_def split: if_splits)

lemma pointers_step_frame:
  assumes "pointers_ok limit tr s" and "operation_step handled op (ds_directory s) = (call, op', self')"
    and "\<And>d i c. op \<noteq> AtLookup d i c"
  shows "dir_waiter_limit self' = dir_waiter_limit (ds_directory s)"
    and "dir_next_activation self' = dir_next_activation (ds_directory s)"
    and "length (dir_slots self') = length (dir_slots (ds_directory s))"
    and "shards_ok (dir_shards self')"
    and "shard_entry (dir_shards self') =
      (case op of AtInterpret i p _ (Remove _ # _) \<Rightarrow>
         if shard_entry (dir_shards (ds_directory s)) i = Some p then (shard_entry (dir_shards (ds_directory s)))(i := None)
         else shard_entry (dir_shards (ds_directory s))
       | _ \<Rightarrow> shard_entry (dir_shards (ds_directory s)))"
    and "claim_label (Progress k op call op') = []"
proof -
  have "\<forall>i p. shard_entry (dir_shards (ds_directory s)) i = Some p \<longrightarrow> slot_healthy (dir_slots (ds_directory s) ! p)"
    using pointers_entry_healthy [OF assms(1)] by blast
  from operation_step_frame [OF pointers_ok_facts(1) [OF assms(1)] assms(2,3) this]
  show "dir_waiter_limit self' = dir_waiter_limit (ds_directory s)"
    "dir_next_activation self' = dir_next_activation (ds_directory s)"
    "length (dir_slots self') = length (dir_slots (ds_directory s))" "shards_ok (dir_shards self')"
    "shard_entry (dir_shards self') =
      (case op of AtInterpret i p _ (Remove _ # _) \<Rightarrow>
         if shard_entry (dir_shards (ds_directory s)) i = Some p then (shard_entry (dir_shards (ds_directory s)))(i := None)
         else shard_entry (dir_shards (ds_directory s))
       | _ \<Rightarrow> shard_entry (dir_shards (ds_directory s)))"
    "claim_label (Progress k op call op') = []" .
qed

text \<open>No submission to a slot of the directory unwinds.\<close>

lemma pointers_submit:
  assumes "pointers_ok limit tr s" and "q < length (claims_made tr)" and "submit_at q ev (ds_directory s) = (r, self')"
  shows "\<exists>e. r = Inr e"
proof (rule submit_at_demand(1) [OF assms(3)])
  show "q < length (dir_slots (ds_directory s))" using assms(2) pointers_ok_facts(3) [OF assms(1)] by simp
  show "\<forall>slot\<in>set (dir_slots (ds_directory s)). slot_healthy slot" using assms(1) by (simp add: pointers_ok_def Let_def)
  show "slots_demand (dir_slots (ds_directory s)) < 2 ^ 64 - 1"
    using pointers_ok_healthy(3) [OF assms(1)] unat_u64_less [of "dir_next_dispatch (ds_directory s)"]
    by (simp del: unat_u64_less)
qed

end
