(* ===== verification/Directory_Refinement.thy ===== *)
theory Directory_Refinement
  imports Directory_Pointers "HOL-Library.Sublist"
begin

section \<open>Every slot is a linearized lifecycle machine\<close>

text \<open>
  The directory refines, slot by slot, the linearized executor of the lifecycle machine: the steps
  of a directory schedule that touch slot \<open>p\<close> are a schedule of \<open>lin_step\<close> on \<open>slot_system s p\<close>.
  What holds of every executor schedule and of every stream of events of the reducer therefore
  holds of every slot, whatever else the directory does.
\<close>

definition slot_system ::
  "('i, 'c, 'e, 'l) DirectorySystem \<Rightarrow> nat \<Rightarrow>
     (('c, 'e, 'l) LifecycleMachine, ('c, 'e, 'l) LifecycleOutput, SlotEvidence) LinearizedSystem" where
  "slot_system s p =
     \<lparr>sys_executor = dir_slots (ds_directory s) ! p,
      sys_invocations = (\<lambda>k. case ds_operations s k of
        Some (AtInterpret i q pc effects) \<Rightarrow> if q = p then Some pc else None
      | _ \<Rightarrow> None)\<rparr>"

fun on_slot :: "nat \<Rightarrow> ('i, 'c, 'e, 'l) Operation option \<Rightarrow> bool" where
  "on_slot p (Some (AtInterpret i q pc effects)) = (q = p)"
| "on_slot p _ = False"

lemma on_slot_iff: "on_slot p x \<longleftrightarrow> (\<exists>i pc effects. x = Some (AtInterpret i p pc effects))"
  by (cases "(p, x)" rule: on_slot.cases) auto

text \<open>The effects of the output under interpretation that are still to be applied.\<close>

definition rest_is :: "('i, 'c, 'e, 'l) DirectorySystem \<Rightarrow> nat \<Rightarrow> ('c, 'e, 'l) SlotEffect list \<Rightarrow> bool" where
  "rest_is s p rest \<longleftrightarrow>
     (\<forall>k i pc effects. ds_operations s k = Some (AtInterpret i p pc effects) \<longrightarrow> effects \<noteq> [] \<longrightarrow> effects = rest) \<and>
     (rest \<noteq> [] \<longrightarrow> (\<exists>k i pc. ds_operations s k = Some (AtInterpret i p pc rest)))"

definition output_effects :: "('c, 'e, 'l) LifecycleOutput list \<Rightarrow> ('c, 'e, 'l) SlotEffect list" where
  "output_effects outs = concat (map (as_slice \<circ> out_effects) outs)"

lemma output_effects_simps [simp]:
  "output_effects [] = []" "output_effects (out # outs) = as_slice (out_effects out) @ output_effects outs"
  "output_effects (outs @ outs') = output_effects outs @ output_effects outs'"
  by (simp_all add: output_effects_def)

definition slot_inv ::
  "NonZeroUsize \<Rightarrow> ('i, 'c, 'e, 'l) DirectoryLabel list \<Rightarrow> ('i, 'c, 'e, 'l) DirectorySystem \<Rightarrow> nat \<Rightarrow> bool" where
  "slot_inv limit tr s p \<longleftrightarrow>
     (\<exists>ltr. schedule (lin_step lifecycle_step output_evidence) (linearized_start fresh_machine) ltr (slot_system s p) \<and>
        map fst (accepted ltr) = slot_events limit p tr \<and>
        (\<exists>rest. rest_is s p rest \<and> subseq (applied_effects p tr @ rest) (output_effects (taken_outputs ltr)) \<and>
          (\<not> list_ex callback_panic tr \<longrightarrow> applied_effects p tr @ rest = output_effects (taken_outputs ltr))))"

lemma slot_system_update:
  assumes "ds_operations s' = (ds_operations s)(k \<mapsto> op')"
    and "\<not> on_slot p (ds_operations s k)" and "\<not> on_slot p (Some op')"
  shows "sys_invocations (slot_system s' p) = sys_invocations (slot_system s p)"
    and "rest_is s' p rest = rest_is s p rest"
proof -
  show "sys_invocations (slot_system s' p) = sys_invocations (slot_system s p)"
    using assms by (auto simp: slot_system_def fun_eq_iff split: option.splits Operation.splits)
  have ops: "ds_operations s' j = Some (AtInterpret i p pc effects) \<longleftrightarrow>
      ds_operations s j = Some (AtInterpret i p pc effects)" for j i pc effects
    using assms by auto
  show "rest_is s' p rest = rest_is s p rest"
    unfolding rest_is_def ops ..
qed

lemma slot_system_eqI:
  "sys_executor (slot_system s' p) = ex \<Longrightarrow> sys_invocations (slot_system s' p) = invs \<Longrightarrow>
     slot_system s' p = \<lparr>sys_executor = ex, sys_invocations = invs\<rparr>"
  by (simp add: slot_system_def)

lemma slot_inv_frame:
  assumes "slot_inv limit tr s p" and "ds_operations s' = (ds_operations s)(k \<mapsto> op')"
    and "\<not> on_slot p (ds_operations s k)" and "\<not> on_slot p (Some op')"
    and "dir_slots (ds_directory s') ! p = dir_slots (ds_directory s) ! p"
    and "event_label limit p l = []" and "applied_label p l = []"
  shows "slot_inv limit (tr @ [l]) s' p"
proof -
  have "slot_system s' p = slot_system s p"
    using slot_system_update(1) [OF assms(2-4)] assms(5)
    by (intro LinearizedSystem.equality) (simp_all add: slot_system_def)
  then show ?thesis
    using assms(1,6,7) slot_system_update(2) [OF assms(2-4)] by (auto simp: slot_inv_def)
qed

lemma slot_inv_submit:
  assumes "slot_inv limit tr s p" and "ds_operations s' = (ds_operations s)(k \<mapsto> op')"
    and "\<not> on_slot p (ds_operations s k)" and "\<not> on_slot p (Some op')"
    and "slot_submit (dir_slots (ds_directory s) ! p) ev = (r, dir_slots (ds_directory s') ! p)"
    and "event_label limit p l = (case r of Inl _ \<Rightarrow> [] | Inr _ \<Rightarrow> [ev])" and "applied_label p l = []"
  shows "slot_inv limit (tr @ [l]) s' p"
proof -
  have "slot_system s' p = slot_system s p\<lparr>sys_executor := dir_slots (ds_directory s') ! p\<rparr>"
    using slot_system_update(1) [OF assms(2-4)]
    by (intro LinearizedSystem.equality) (simp_all add: slot_system_def)
  then have step: "lin_step lifecycle_step output_evidence (slot_system s p) (Submit ev r) (slot_system s' p)"
    using assms(5) by (simp add: slot_submit_def) (simp add: slot_system_def)
  from assms(1) obtain ltr where ltr:
      "schedule (lin_step lifecycle_step output_evidence) (linearized_start fresh_machine) ltr (slot_system s p)"
      "map fst (accepted ltr) = slot_events limit p tr"
      "\<exists>rest. rest_is s p rest \<and> subseq (applied_effects p tr @ rest) (output_effects (taken_outputs ltr)) \<and>
        (\<not> list_ex callback_panic tr \<longrightarrow> applied_effects p tr @ rest = output_effects (taken_outputs ltr))"
    by (auto simp: slot_inv_def)
  have "map fst (accepted (ltr @ [Submit ev r])) = slot_events limit p (tr @ [l])"
    using ltr(2) assms(6) by (cases r) auto
  moreover have "schedule (lin_step lifecycle_step output_evidence) (linearized_start fresh_machine)
      (ltr @ [Submit ev r]) (slot_system s' p)"
    using ltr(1) step by (rule schedule_step)
  ultimately show ?thesis
    using ltr(3) assms(7) slot_system_update(2) [OF assms(2-4)]
    unfolding slot_inv_def by (intro exI [of _ "ltr @ [Submit ev r]"]) auto
qed

lemma slot_inv_call:
  assumes "slot_inv limit tr s p" and "ds_operations s' = (ds_operations s)(k \<mapsto> AtInterpret i p AtAcquire [])"
    and "\<not> on_slot p (ds_operations s k)"
    and "dir_slots (ds_directory s') ! p = dir_slots (ds_directory s) ! p"
    and "event_label limit p l = []" and "applied_label p l = []"
  shows "slot_inv limit (tr @ [l]) s' p"
proof -
  have none: "sys_invocations (slot_system s p) k = None"
    using assms(3) by (auto simp: slot_system_def split: option.splits Operation.splits)
  have "slot_system s' p = slot_system s p\<lparr>sys_invocations := (sys_invocations (slot_system s p))(k \<mapsto> AtAcquire)\<rparr>"
    using assms(2,4) by (intro LinearizedSystem.equality) (auto simp: slot_system_def fun_eq_iff)
  then have step: "lin_step lifecycle_step output_evidence (slot_system s p) (CallDispatch k) (slot_system s' p)"
    using none by simp
  from assms(1) obtain ltr where ltr:
      "schedule (lin_step lifecycle_step output_evidence) (linearized_start fresh_machine) ltr (slot_system s p)"
      "map fst (accepted ltr) = slot_events limit p tr"
      "\<exists>rest. rest_is s p rest \<and> subseq (applied_effects p tr @ rest) (output_effects (taken_outputs ltr)) \<and>
        (\<not> list_ex callback_panic tr \<longrightarrow> applied_effects p tr @ rest = output_effects (taken_outputs ltr))"
    by (auto simp: slot_inv_def)
  have "rest_is s' p rest" if "rest_is s p rest" for rest
  proof -
    have "ds_operations s' j = Some (AtInterpret m p pc effects) \<and> effects \<noteq> [] \<longleftrightarrow>
        ds_operations s j = Some (AtInterpret m p pc effects) \<and> effects \<noteq> []" for j m pc effects
      using assms(2,3) by auto
    then show ?thesis using that unfolding rest_is_def by metis
  qed
  moreover have "schedule (lin_step lifecycle_step output_evidence) (linearized_start fresh_machine)
      (ltr @ [CallDispatch k]) (slot_system s' p)"
    using ltr(1) step by (rule schedule_step)
  ultimately show ?thesis
    using ltr(2,3) assms(5,6)
    unfolding slot_inv_def by (intro exI [of _ "ltr @ [CallDispatch k]"]) auto
qed

lemma owner_slot_system:
  "ds_operations s k = Some (AtInterpret i p pc effects) \<Longrightarrow> owns pc \<Longrightarrow> owner (slot_system s p) k"
  by (auto simp: owner_def slot_system_def)

text \<open>At most one operation interprets the effects of a slot.\<close>

lemma interpreter_unique:
  assumes "slot_inv limit tr s p"
    and "ds_operations s k = Some (AtInterpret i p pc effects)" and "owns pc"
    and "ds_operations s k' = Some (AtInterpret i' p pc' effects')" and "owns pc'"
  shows "k = k'"
proof -
  from assms(1) obtain ltr where
    "schedule (lin_step lifecycle_step output_evidence) (linearized_start fresh_machine) ltr (slot_system s p)"
    by (auto simp: slot_inv_def)
  from linearized_schedule.inv_schedule [OF this] have "dispatch_exclusive (slot_system s p)" by simp
  then show ?thesis
    using owner_slot_system [OF assms(2,3)] owner_slot_system [OF assms(4,5)]
    by (auto simp: dispatch_exclusive_def)
qed

lemma in_flight_owns: "in_flight pc \<noteq> [] \<Longrightarrow> owns pc"
  by (cases pc) auto

text \<open>The interpreter applies one effect of its output, and the callback returns.\<close>

lemma slot_inv_apply:
  assumes "slot_inv limit tr s p"
    and ok: "\<And>j op. ds_operations s j = Some op \<Longrightarrow> operation_ok cs op"
    and op: "ds_operations s k = Some (AtInterpret i p pc (effect # effects))"
    and s': "ds_operations s' = (ds_operations s)(k \<mapsto> AtInterpret i p pc effects)"
      "dir_slots (ds_directory s') ! p = dir_slots (ds_directory s) ! p"
    and l: "event_label limit p l = []" "applied_label p l = [effect]"
  shows "slot_inv limit (tr @ [l]) s' p"
proof -
  have "slot_system s' p = slot_system s p"
    using s' op by (intro LinearizedSystem.equality) (auto simp: slot_system_def fun_eq_iff)
  moreover have "rest_is s' p effects" and rest: "rest = effect # effects" if "rest_is s p rest" for rest
  proof -
    show "rest = effect # effects" using that op by (auto simp: rest_is_def)
    have "owns pc" using ok [OF op] in_flight_owns by auto
    have only: "j = k" if "ds_operations s j = Some (AtInterpret m p pc' effects')" "effects' \<noteq> []" for j m pc' effects'
    proof -
      have "owns pc'" using ok [OF that(1)] that(2) in_flight_owns by auto
      then show ?thesis using interpreter_unique [OF assms(1) op \<open>owns pc\<close> that(1)] by simp
    qed
    show "rest_is s' p effects"
      unfolding rest_is_def
    proof (intro conjI allI impI)
      fix j m pc' effects'
      assume "ds_operations s' j = Some (AtInterpret m p pc' effects')" "effects' \<noteq> []"
      then show "effects' = effects" using s'(1) only [of j m pc' effects'] by (cases "j = k") auto
    next
      show "\<exists>j m pc'. ds_operations s' j = Some (AtInterpret m p pc' effects)" using s'(1) by auto
    qed
  qed
  ultimately show ?thesis
    using assms(1) l by (fastforce simp: slot_inv_def)
qed

text \<open>The interpreter takes a section of its executor, or its callback panics.\<close>

lemma slot_inv_advance:
  assumes "slot_inv limit tr s p"
    and ok: "\<And>j op. ds_operations s j = Some op \<Longrightarrow> operation_ok cs op"
    and op: "ds_operations s k = Some (AtInterpret i p pc effects)"
    and st: "dispatch_pending_step handled pc (dir_slots (ds_directory s) ! p) =
        (pc', dir_slots (ds_directory s') ! p)"
    and s': "ds_operations s' = (ds_operations s)(k \<mapsto> AtInterpret i p pc' effects')"
    and l: "event_label limit p l = []"
    and how: "effects = [] \<and> applied_label p l = [] \<and>
        effects' = (case pc' of AtHandle _ out \<Rightarrow> as_slice (out_effects out) | _ \<Rightarrow> []) \<or>
      callback_panic l \<and> in_flight pc' = [] \<and> effects' = [] \<and>
        (\<exists>effect more. effects = effect # more \<and> applied_label p l = [effect])"
  shows "slot_inv limit (tr @ [l]) s' p"
proof -
  have "slot_system s' p = slot_system s p\<lparr>sys_executor := dir_slots (ds_directory s') ! p,
      sys_invocations := (sys_invocations (slot_system s p))(k \<mapsto> pc')\<rparr>"
    using s' op by (intro LinearizedSystem.equality) (auto simp: slot_system_def fun_eq_iff)
  moreover have "sys_invocations (slot_system s p) k = Some pc"
    "sys_executor (slot_system s p) = dir_slots (ds_directory s) ! p"
    using op by (simp_all add: slot_system_def)
  ultimately have step: "lin_step lifecycle_step output_evidence (slot_system s p) (Advance k pc pc') (slot_system s' p)"
    using st by auto
  from assms(1) obtain ltr rest where ltr:
      "schedule (lin_step lifecycle_step output_evidence) (linearized_start fresh_machine) ltr (slot_system s p)"
      "map fst (accepted ltr) = slot_events limit p tr"
    and rest: "rest_is s p rest" "subseq (applied_effects p tr @ rest) (output_effects (taken_outputs ltr))"
      "\<not> list_ex callback_panic tr \<longrightarrow> applied_effects p tr @ rest = output_effects (taken_outputs ltr)"
    by (auto simp: slot_inv_def)
  have taken: "effects' = (case pc' of AtHandle _ out \<Rightarrow> as_slice (out_effects out) | _ \<Rightarrow> [])"
    using how by (cases pc') auto
  have only: "j = k" if "ds_operations s j = Some (AtInterpret m p q es)" "es \<noteq> []" "owns pc" for j m q es
  proof -
    have "owns q" using ok [OF that(1)] that(2) in_flight_owns by auto
    then show ?thesis using interpreter_unique [OF assms(1) op that(3,1)] by simp
  qed
  have sched: "schedule (lin_step lifecycle_step output_evidence) (linearized_start fresh_machine)
      (ltr @ [Advance k pc pc']) (slot_system s' p)"
    using ltr(1) step by (rule schedule_step)
  have result: "slot_inv limit (tr @ [l]) s' p"
    if "rest_is s' p rest'" "subseq (applied_effects p tr @ applied_label p l @ rest')
          (output_effects (taken_outputs ltr) @ effects')"
      "\<not> list_ex callback_panic (tr @ [l]) \<longrightarrow> applied_effects p tr @ applied_label p l @ rest' =
          output_effects (taken_outputs ltr) @ effects'" for rest'
    unfolding slot_inv_def
    by (intro exI [of _ "ltr @ [Advance k pc pc']"] conjI sched exI [of _ rest'])
      (use that ltr(2) l taken in \<open>cases pc'; simp\<close>)+
  show ?thesis
  proof (cases "effects")
    case Nil
    then have eff: "applied_label p l = []"
        "effects' = (case pc' of AtHandle _ out \<Rightarrow> as_slice (out_effects out) | _ \<Rightarrow> [])"
      using how by auto
    have "rest_is s' p (rest @ effects')"
    proof (cases "owns pc")
      case False
      then have no: "effects' = []" using eff(2) st
        by (cases pc) (auto simp: acquire_def lock_def split: DispatchState.splits if_splits)
      have "ds_operations s' j = Some (AtInterpret m p q es) \<and> es \<noteq> [] \<longleftrightarrow>
          ds_operations s j = Some (AtInterpret m p q es) \<and> es \<noteq> []" for j m q es
        using s' op no Nil by auto
      then have "rest_is s' p rest = rest_is s p rest" unfolding rest_is_def by metis
      then show ?thesis using rest(1) no by simp
    next
      case True
      have none: "es = []" if "ds_operations s j = Some (AtInterpret m p q es)" for j m q es
        using only [OF that _ True] that op Nil by (cases es) auto
      then have "rest = []" using rest(1) by (auto simp: rest_is_def)
      moreover have "rest_is s' p effects'" using s' none by (auto simp: rest_is_def split: if_splits)
      ultimately show ?thesis by simp
    qed
    then show ?thesis
      using rest(2,3) eff(1) by (intro result) (auto simp flip: append_assoc)
  next
    case (Cons effect more)
    then have panic: "callback_panic l" "effects' = []" "applied_label p l = [effect]"
      using how by auto
    have "owns pc" using ok [OF op] Cons in_flight_owns by auto
    then have "rest_is s' p []"
      using panic Cons only s' by (auto simp: rest_is_def split: if_splits)
    moreover have rest': "rest = effect # more" using rest(1) op Cons by (auto simp: rest_is_def)
    have "subseq (applied_effects p tr @ [effect]) (applied_effects p tr @ effect # more)"
      by (intro list_emb_append_mono) auto
    then have "subseq (applied_effects p tr @ [effect]) (output_effects (taken_outputs ltr))"
      using rest(2) unfolding rest' by (rule subseq_order.trans)
    ultimately show ?thesis
      using panic by (intro result [of "[]"]) simp_all
  qed
qed

subsection \<open>Every step of the directory is a step of each slot, or none\<close>

lemma slot_inv_new:
  assumes "pointers_ok limit tr s"
    and "ds_operations s k = Some (AtLookup d i c)"
    and "ds_operations s' = (ds_operations s)(k \<mapsto> op')" and "\<not> on_slot p (Some op')"
    and "p = length (dir_slots (ds_directory s))"
    and "slot_submit (linearized_new fresh_machine) ev = (Inr r, dir_slots (ds_directory s') ! p)"
    and "event_label limit p l = [ev]" and "applied_label p l = []"
    and "slot_events limit p tr = []" and "applied_effects p tr = []"
  shows "slot_inv limit (tr @ [l]) s' p"
proof -
  have fresh: "\<not> on_slot p (ds_operations s j)" for j
  proof
    assume "on_slot p (ds_operations s j)"
    then obtain i pc es where "ds_operations s j = Some (AtInterpret i p pc es)"
      by (auto simp: on_slot_iff)
    then have "home (claims_made tr) p = Some i" using pointers_ok_operation [OF assms(1)] by fastforce
    then show False using pointers_ok_facts(3) [OF assms(1)] assms(5)
      by (simp add: home_def split: if_splits)
  qed
  then have none: "\<not> on_slot p (ds_operations s' j)" for j using assms(3,4) by (cases "j = k") auto
  have invs: "sys_invocations (slot_system s' p) = (\<lambda>_. None)"
  proof
    fix j
    show "sys_invocations (slot_system s' p) j = None"
      using none [of j] by (auto simp: slot_system_def split: option.splits Operation.splits)
  qed
  let ?s0 = "linearized_start fresh_machine ::
    (('b, 'c, 'd) LifecycleMachine, ('b, 'c, 'd) LifecycleOutput, SlotEvidence) LinearizedSystem"
  have "slot_system s' p = ?s0\<lparr>sys_executor := dir_slots (ds_directory s') ! p\<rparr>"
    using invs by (intro LinearizedSystem.equality) (simp_all add: slot_system_def linearized_start_def)
  then have "lin_step lifecycle_step output_evidence ?s0 (Submit ev (Inr r)) (slot_system s' p)"
    using assms(6) by (simp add: slot_submit_def) (simp add: linearized_start_def)
  then have "schedule (lin_step lifecycle_step output_evidence) ?s0 [Submit ev (Inr r)] (slot_system s' p)"
    by simp
  moreover have "rest_is s' p []"
    using none by (auto simp: rest_is_def) (metis on_slot.simps(1))
  ultimately show ?thesis
    using assms(7-10) unfolding slot_inv_def
    by (intro exI [of _ "[Submit ev (Inr r)]"]) (auto simp: accepted_def taken_outputs_def)
qed

definition slots_ok ::
  "NonZeroUsize \<Rightarrow> ('i, 'c, 'e, 'l) DirectoryLabel list \<Rightarrow> ('i, 'c, 'e, 'l) DirectorySystem \<Rightarrow> bool" where
  "slots_ok limit tr s \<longleftrightarrow>
     (\<forall>p. if p < length (claims_made tr) then slot_inv limit tr s p
          else slot_events limit p tr = [] \<and> applied_effects p tr = [])"

text \<open>The steps that concern no slot, or another one.\<close>

fun plain :: "('i, 'c, 'e, 'l) Operation \<Rightarrow> bool" where
  "plain (AtLookup _ _ _) = False"
| "plain (AtDispatch _ _ _ _) = False"
| "plain (AtSubmitTo _ _ _) = False"
| "plain (AtInterpret _ _ _ _) = False"
| "plain _ = True"

lemma operation_step_plain:
  assumes "operation_step handled op self = (call, op', self')" and "plain op"
  shows "dir_slots self' = dir_slots self \<and> \<not> on_slot p (Some op') \<and> \<not> on_slot p (Some op) \<and>
     event_label limit p (Progress k op call op') = [] \<and> applied_label p (Progress k op call op') = []"
proof (cases op)
  case (AtTransient i effects)
  then show ?thesis using assms
    by (cases effects) (auto simp: Let_def split: prod.splits option.splits)
qed (use assms in \<open>auto split: prod.splits option.splits sum.splits\<close>)

lemma event_label_home:
  assumes "operation_ok cs op" and "length cs \<le> p" and "\<And>d i c. op \<noteq> AtLookup d i c"
  shows "event_label limit p (Progress k op call op') = []"
    and "applied_label p (Progress k op call op') = []"
proof -
  have less: "home cs q = Some i \<Longrightarrow> q \<noteq> p" for q i using assms(2) by (auto simp: home_def split: if_splits)
  show "event_label limit p (Progress k op call op') = []"
    using assms(1,3) less
    by (cases "(limit, p, Progress k op call op')" rule: event_label.cases) auto
  show "applied_label p (Progress k op call op') = []"
    using assms(1) less
    by (cases "(p, Progress k op call op')" rule: applied_label.cases) auto
qed

lemma slot_inv_untouched:
  assumes "slots_ok limit tr s" and "p < length (claims_made tr)"
    and "ds_operations s' = (ds_operations s)(k \<mapsto> op')"
    and "\<not> on_slot p (ds_operations s k)" and "\<not> on_slot p (Some op')"
    and "ds_directory s' = ds_directory s"
    and "event_label limit p l = []" and "applied_label p l = []"
  shows "slot_inv limit (tr @ [l]) s' p"
  using assms by (intro slot_inv_frame [of limit tr s p s' k op']) (auto simp: slots_ok_def)

text \<open>A step on behalf of slot \<open>q\<close>, seen from slot \<open>p\<close>.\<close>

lemma slot_inv_submit_at:
  assumes "slot_inv limit tr s p" and "p < length (dir_slots (ds_directory s))"
    and "ds_operations s' = (ds_operations s)(k \<mapsto> op')" and "ds_directory s' = self'"
    and "\<not> on_slot p (ds_operations s k)" and "\<not> on_slot p (Some op')"
    and "submit_at q ev (ds_directory s) = (r, self')"
    and "event_label limit p l = (if q = p then case r of Inl _ \<Rightarrow> [] | Inr _ \<Rightarrow> [ev] else [])"
    and "applied_label p l = []"
  shows "slot_inv limit (tr @ [l]) s' p"
proof (cases "q = p")
  case True
  obtain slot where "slot_submit (dir_slots (ds_directory s) ! p) ev = (r, slot)"
      "self' = (ds_directory s)\<lparr>dir_slots := (dir_slots (ds_directory s))[p := slot]\<rparr>"
    using assms(7) True by (auto simp: submit_at_def split: prod.splits)
  then have "slot_submit (dir_slots (ds_directory s) ! p) ev = (r, dir_slots (ds_directory s') ! p)"
    using assms(2,4) by simp
  then show ?thesis
    using assms(8,9) True by (intro slot_inv_submit [OF assms(1,3,5,6)]) simp_all
next
  case False
  then have "dir_slots self' ! p = dir_slots (ds_directory s) ! p"
    using assms(7) by (auto simp: submit_at_def split: prod.splits)
  then have "dir_slots (ds_directory s') ! p = dir_slots (ds_directory s) ! p" using assms(4) by simp
  then show ?thesis using assms(8,9) False by (intro slot_inv_frame [OF assms(1,3,5,6)]) simp_all
qed

lemma slot_inv_interpreter:
  assumes ptrs: "pointers_ok limit tr s" and inv: "slot_inv limit tr s p"
    and p: "p < length (dir_slots (ds_directory s))"
    and op: "ds_operations s k = Some (AtInterpret i q pc effects)"
    and st: "operation_step handled (AtInterpret i q pc effects) (ds_directory s) = (call, op', self')"
    and s': "ds_operations s' = (ds_operations s)(k \<mapsto> op')" "ds_directory s' = self'"
  shows "slot_inv limit (tr @ [Progress k (AtInterpret i q pc effects) call op']) s' p"
proof -
  let ?l = "Progress k (AtInterpret i q pc effects) call op'"
  have shards: "shards_ok (dir_shards (ds_directory s))" by (rule pointers_ok_facts(1) [OF ptrs])
  note ok = pointers_ok_operation [OF ptrs]
  obtain effects' pc' where op': "op' = AtInterpret i q pc' effects'"
    using st by (cases effects) (auto simp: Let_def split: prod.splits option.splits)
  show ?thesis
  proof (cases "q = p")
    case False
    then have "dir_slots self' ! p = dir_slots (ds_directory s) ! p"
      using st by (cases effects) (auto simp: Let_def split: prod.splits option.splits)
    moreover have "applied_label p ?l = []" using False by (cases effects) auto
    ultimately show ?thesis
      using False op op' s' by (intro slot_inv_frame [OF inv s'(1)]) auto
  next
    case True
    show ?thesis
    proof (cases effects)
      case Nil
      obtain executor where ex: "dispatch_pending_step None pc (dir_slots (ds_directory s) ! p) = (pc', executor)"
          "self' = (ds_directory s)\<lparr>dir_slots := (dir_slots (ds_directory s))[p := executor]\<rparr>"
          "effects' = (case pc' of AtHandle _ out \<Rightarrow> as_slice (out_effects out) | _ \<Rightarrow> [])"
        using st Nil True op' by (auto simp: Let_def split: prod.splits)
      then show ?thesis
        using Nil True op op' s' p
        by (intro slot_inv_advance [OF inv, where k = k and handled = None and cs = "claims_made tr" and
              pc = pc and pc' = pc' and effects = effects and effects' = effects' and i = i])
            (auto intro: ok)
    next
      case (Cons effect rest)
      obtain shs where effected: "apply_effect i (Some q) effect (dir_shards (ds_directory s)) = (call, Inr shs)"
        using st Cons sharded.remove_entry [OF shards, of i q]
        by (cases effect) (auto simp: Let_def split: option.splits prod.splits)
      show ?thesis
      proof (cases "Option.bind call (\<lambda>_. handled)")
        case None
        then have "op' = AtInterpret i q pc rest" "dir_slots self' = dir_slots (ds_directory s)"
          using st Cons effected by (auto simp: Let_def)
        then show ?thesis
          using Cons True op s'
          by (intro slot_inv_apply [OF inv, where k = k and cs = "claims_made tr" and pc = pc and
                effect = effect and effects = rest and i = i])
              (auto intro: ok)
      next
        case (Some panic)
        then obtain executor where ex:
            "dispatch_pending_step (Some panic) pc (dir_slots (ds_directory s) ! p) = (pc', executor)"
            "dir_slots self' = (dir_slots (ds_directory s))[p := executor]" "effects' = []"
          using st Cons effected True op' by (auto simp: Let_def split: prod.splits)
        have "in_flight pc \<noteq> []" using ok [OF op] Cons by simp
        then have "callback_panic ?l" "in_flight pc' = []" using ex(1) Cons op' by (cases pc; auto)+
        then show ?thesis
          using Cons True op op' s' p ex
          by (intro slot_inv_advance [OF inv, where k = k and handled = "Some panic" and cs = "claims_made tr" and
                pc = pc and pc' = pc' and effects = effects and effects' = effects' and i = i])
              (auto intro: ok)
      qed
    qed
  qed
qed

lemma slots_ok_step:
  assumes ptrs: "pointers_ok limit tr s" and inv: "slots_ok limit tr s" and step: "dir_step s l s'"
  shows "slots_ok limit (tr @ [l]) s'"
proof -
  let ?cs = "claims_made tr"
  note len = pointers_ok_facts(3) [OF ptrs]
  note ok = pointers_ok_operation [OF ptrs]
  have old: "slot_inv limit tr s p" if "p < length ?cs" for p
    using inv that by (simp add: slots_ok_def)
  have new: "slot_events limit p tr = []" "applied_effects p tr = []" if "\<not> p < length ?cs" for p
    using inv that by (simp_all add: slots_ok_def)
  from step show ?thesis
  proof (cases rule: dir_step_cases)
    case (begun k op)
    have "slot_inv limit (tr @ [l]) s' p" if "p < length ?cs" for p
      using begun that by (intro slot_inv_untouched [OF inv, of p s' k op]) (cases op; auto)+
    then show ?thesis using begun new by (auto simp: slots_ok_def)
  next
    case (interpreted k op out)
    have off: "\<not> on_slot p (ds_operations s k)" for p
      using interpreted(2,3) by (cases op) auto
    have "slot_inv limit (tr @ [l]) s' p" if p: "p < length ?cs" for p
    proof (cases "do_target out = Mapped p")
      case True
      then show ?thesis using interpreted off
        by (intro slot_inv_call [OF old [OF p], of s' k "do_entity_id out"]) (auto simp: interpret_output_def)
    next
      case False
      then show ?thesis using interpreted off p
        by (intro slot_inv_untouched [OF inv, of p s' k "interpret_output out"])
          (auto simp: interpret_output_def split: OutputTarget.splits)
    qed
    then show ?thesis using interpreted new by (auto simp: slots_ok_def)
  next
    case (progress k op handled call op' dir')
    have ops: "ds_operations s' = (ds_operations s)(k \<mapsto> op')" and dir: "ds_directory s' = dir'"
      using progress(4) by simp_all
    show ?thesis
    proof (cases "\<exists>d i c. op = AtLookup d i c")
      case True
      then obtain d i c where op: "op = AtLookup d i c" by blast
      have "dispatch_lookup d i c (ds_directory s) = (op', dir')" using progress(3) op by simp
      with pointers_ok_facts(1,5) [OF ptrs] show ?thesis
      proof (cases rule: dispatch_lookup_cases)
        case (found q)
        have "slot_inv limit (tr @ [l]) s' p" if "p < length ?cs" for p
          using op found progress that by (intro slot_inv_untouched [OF inv, of p s' k op']) auto
        then show ?thesis using new op found progress(1) by (auto simp: slots_ok_def)
      next
        case exhausted
        have "slot_inv limit (tr @ [l]) s' p" if "p < length ?cs" for p
          using op exhausted progress that by (intro slot_inv_untouched [OF inv, of p s' k op']) auto
        then show ?thesis using new op exhausted progress(1) by (auto simp: slots_ok_def)
      next
        case (claimed ev slot out)
        let ?a = "ActivationId (nz (dir_next_activation (ds_directory s)))"
        have label: "claim_label l = [(i, Some ?a)]" "applied_label p l = []"
            "event_label limit p l =
              (if p = length ?cs then [ClaimActivation ?a d c limit] else [])" for p
          using op claimed(3) progress(1) len by (auto simp: directory_output_def)
        have "slot_inv limit (tr @ [l]) s' p" if "p < length ?cs" for p
          using that label op claimed(3,7) ops dir len progress(2)
          by (intro slot_inv_frame [OF old ops]) (auto simp: nth_append)
        moreover have "dir_slots dir' ! length ?cs = slot"
          using claimed(7) len by (metis nth_append_length)
        then have "slot_inv limit (tr @ [l]) s' (length ?cs)"
          using label op claimed(3,4) dir len progress(2) new pointers_ok_facts(2) [OF ptrs]
          by (intro slot_inv_new [OF ptrs, of k d i c s' op' "length ?cs"
                "ClaimActivation ?a d c limit" "(ev, Some ?a)"]) (auto simp: ops)
        ultimately show ?thesis using new label by (auto simp: slots_ok_def less_Suc_eq)
      qed
    next
      case False
      then have op: "\<And>d i c. op \<noteq> AtLookup d i c" by blast
      have claim: "claim_label l = []"
        using pointers_step_frame(6) [OF ptrs progress(3) op] progress(1) by simp
      have off: "event_label limit p l = []" "applied_label p l = []" if "\<not> p < length ?cs" for p
        using event_label_home [OF ok [OF progress(2)] _ op, of p] progress(1) that by auto
      have "slot_inv limit (tr @ [l]) s' p" if p: "p < length ?cs" for p
      proof (cases op)
        case (AtDispatch d i q c)
        then obtain r where r: "submit_at q (Dispatch d c) (ds_directory s) = (r, dir')"
          using progress(3) by (auto split: prod.splits sum.splits)
        then show ?thesis
          using AtDispatch progress ops p len
          by (intro slot_inv_submit_at [OF old [OF p] _ ops dir _ _ r])
            (auto split: sum.splits prod.splits)
      next
        case (AtSubmitTo q i ev)
        then obtain r where r: "submit_at q ev (ds_directory s) = (r, dir')"
          using progress(3) by (auto split: prod.splits sum.splits)
        then show ?thesis
          using AtSubmitTo progress ops p len
          by (intro slot_inv_submit_at [OF old [OF p] _ ops dir _ _ r])
            (auto split: sum.splits prod.splits)
      next
        case (AtInterpret i q pc effects)
        then show ?thesis
          using slot_inv_interpreter [OF ptrs old [OF p]] p len progress ops dir by simp
      next
        case (AtLookup d i c)
        then show ?thesis using False by simp
      qed (use operation_step_plain [OF progress(3), where limit = limit and p = p and k = k]
          progress(1,2) dir in \<open>auto intro!: slot_inv_frame [OF old [OF p] ops]\<close>)
      then show ?thesis using new off claim by (auto simp: slots_ok_def)
    qed
  qed
qed

end
