(* ===== verification/Directory_Safety.thy ===== *)
theory Directory_Safety
  imports Directory_Refinement Slot_Life
begin

section \<open>What the directory promises\<close>

text \<open>
  The properties of every schedule of the directory, from the invariants of the earlier theories
  and two more: each slot is claimed once, and a slot is represented exactly as long as its
  \<open>Remove\<close> was not applied.
\<close>

subsection \<open>Claims and entries\<close>

lemma claims_bound:
  assumes "pointers_ok limit tr s" and "p < length (claims_made tr)"
  shows "Suc p < 2 ^ 64"
proof -
  have "unat (dir_next_activation (ds_directory s)) < 2 ^ 64" by simp
  then show ?thesis using pointers_ok_facts(4) [OF assms(1)] assms(2) by simp
qed

definition claims_once ::
  "NonZeroUsize \<Rightarrow> ('i, 'c, 'e, 'l) DirectoryLabel list \<Rightarrow> bool" where
  "claims_once limit tr \<longleftrightarrow>
     (\<forall>p<length (claims_made tr). \<exists>d c evs.
        slot_events limit p tr = ClaimActivation (ActivationId (nz (of_nat (Suc p)))) d c limit # evs \<and>
        unclaimed evs)"

definition entries_exact ::
  "('i, 'c, 'e, 'l) DirectoryLabel list \<Rightarrow> ('i, 'c, 'e, 'l) DirectorySystem \<Rightarrow> bool" where
  "entries_exact tr s \<longleftrightarrow>
     (\<forall>p<length (claims_made tr).
        shard_entry (dir_shards (ds_directory s)) (fst (claims_made tr ! p)) = Some p \<longleftrightarrow>
        \<not> list_ex is_remove (applied_effects p tr))"

text \<open>A step that is not a shard-locked dispatch claims nothing.\<close>

lemma step_claims:
  assumes ptrs: "pointers_ok limit tr s" and step: "dir_step s l s'"
  obtains (quiet) "claim_label l = []"
      "\<And>p. p < length (claims_made tr) \<Longrightarrow> unclaimed (event_label limit p l)"
  | (claim) i d c where
      "claim_label l = [(i, Some (ActivationId (nz (of_nat (Suc (length (claims_made tr)))))))]"
      "\<And>p. event_label limit p l = (if p = length (claims_made tr)
         then [ClaimActivation (ActivationId (nz (of_nat (Suc (length (claims_made tr)))))) d c limit] else [])"
      "\<And>p. applied_label p l = []" "shard_entry (dir_shards (ds_directory s)) i = None"
      "shard_entry (dir_shards (ds_directory s')) =
        (shard_entry (dir_shards (ds_directory s)))(i \<mapsto> length (claims_made tr))"
proof -
  let ?cs = "claims_made tr"
  note len = pointers_ok_facts(3) [OF ptrs]
  have n: "of_nat (Suc (length ?cs)) = dir_next_activation (ds_directory s)"
    unfolding pointers_ok_facts(4) [OF ptrs, symmetric] by simp
  from step show ?thesis
  proof (cases rule: dir_step_cases)
    case (progress k op handled call op' dir')
    show ?thesis
    proof (cases "\<exists>d i c. op = AtLookup d i c")
      case True
      then obtain d i c where op: "op = AtLookup d i c" by blast
      have "dispatch_lookup d i c (ds_directory s) = (op', dir')" using progress(3) op by simp
      with pointers_ok_facts(1,5) [OF ptrs] show ?thesis
      proof (cases rule: dispatch_lookup_cases)
        case (claimed ev slot out)
        show ?thesis
          by (rule claim [of i d c])
            (use op claimed progress(1,4) len n in \<open>auto simp: directory_output_def\<close>)
      qed (use op progress(1) in \<open>auto intro!: quiet\<close>)
    next
      case False
      then have no: "\<And>d i c. op \<noteq> AtLookup d i c" by blast
      have "claim_label l = []"
        using pointers_step_frame(6) [OF ptrs progress(3) no] progress(1) by simp
      moreover have "unclaimed (event_label limit p l)" for p
        using pointers_ok_operation [OF ptrs progress(2)] progress(1) no
        by (cases "(limit, p, l)" rule: event_label.cases) (auto dest: generation_unclaimed)
      ultimately show ?thesis by (rule quiet)
    qed
  qed (auto intro!: quiet)
qed

lemma claims_once_step:
  assumes "pointers_ok limit tr s" and "claims_once limit tr" and "slots_ok limit tr s" and "dir_step s l s'"
  shows "claims_once limit (tr @ [l])"
  using assms(1,4)
proof (cases rule: step_claims)
  case quiet
  then show ?thesis using assms(2) by (fastforce simp: claims_once_def)
next
  case (claim i d c)
  have "slot_events limit (length (claims_made tr)) tr = []"
    using assms(3) by (simp add: slots_ok_def)
  then show ?thesis using claim assms(2) by (auto simp: claims_once_def less_Suc_eq)
qed

lemma entries_exact_step:
  assumes "pointers_ok limit tr s" and "entries_exact tr s" and "slots_ok limit tr s" and "dir_step s l s'"
  shows "entries_exact (tr @ [l]) s'"
  using assms(1,4)
proof (cases rule: step_claims)
  case (claim i d c)
  have "applied_effects (length (claims_made tr)) tr = []"
    using assms(3) by (simp add: slots_ok_def)
  then show ?thesis using claim assms(2)
    by (auto simp: entries_exact_def less_Suc_eq nth_append)
next
  case quiet
  let ?cs = "claims_made tr" and ?entry = "shard_entry (dir_shards (ds_directory s))"
  have keep: ?thesis if "shard_entry (dir_shards (ds_directory s')) = ?entry" "\<And>p. \<not> list_ex is_remove (applied_label p l)"
    using that quiet(1) assms(2) by (auto simp: entries_exact_def)
  from assms(4) show ?thesis
  proof (cases rule: dir_step_cases)
    case (progress k op handled call op' dir')
    show ?thesis
    proof (cases "\<exists>d i c. op = AtLookup d i c")
      case True
      then obtain d i c where op: "op = AtLookup d i c" by blast
      have "dispatch_lookup d i c (ds_directory s) = (op', dir')" using progress(3) op by simp
      with pointers_ok_facts(1,5) [OF assms(1)] have "dir' = ds_directory s"
        by (cases rule: dispatch_lookup_cases) (use op progress(1) quiet(1) in auto)
      then show ?thesis using progress(1,4) op by (intro keep) auto
    next
      case False
      then have "\<And>d i c. op \<noteq> AtLookup d i c" by blast
      note entry = pointers_step_frame(5) [OF assms(1) progress(3) this]
      show ?thesis
      proof (cases "\<exists>i p pc a effects. op = AtInterpret i p pc (Remove a # effects)")
        case True
        then obtain i p pc a effects where op: "op = AtInterpret i p pc (Remove a # effects)" by blast
        have "home ?cs p = Some i" using pointers_ok_operation [OF assms(1) progress(2)] op by simp
        then show ?thesis
          using progress(1,4) entry op quiet(1) assms(2)
          by (auto simp: entries_exact_def home_def split: if_splits)
      next
        case False
        then show ?thesis using entry progress(1,4)
          by (intro keep) (auto split: Operation.splits list.splits SlotEffect.splits elim!: applied_label.elims)
      qed
    qed
  qed (use keep in auto)
qed

subsection \<open>Every schedule\<close>

definition directory_inv ::
  "NonZeroUsize \<Rightarrow> ('i, 'c, 'e, 'l) DirectoryLabel list \<Rightarrow> ('i, 'c, 'e, 'l) DirectorySystem \<Rightarrow> bool" where
  "directory_inv limit tr s \<longleftrightarrow>
     pointers_ok limit tr s \<and> slots_ok limit tr s \<and> claims_once limit tr \<and> entries_exact tr s"

lemma with_hasher_Inr:
  assumes "with_hasher config h = Inr self"
  shows "directory_inv (cfg_activation_waiters config) [] (directory_start self)"
proof -
  obtain shs where shs: "shards_with_hasher config h = Some shs"
    and self: "self = \<lparr>dir_shards = shs, dir_waiter_limit = cfg_activation_waiters config,
      dir_next_activation = 1, dir_next_dispatch = 1, dir_slots = []\<rparr>"
    using assms by (auto simp: with_hasher_def split: option.splits)
  show ?thesis
    using shards_with_hasher_ok [OF shs]
    by (simp add: self directory_start_def directory_inv_def pointers_ok_def slots_ok_def
        claims_once_def entries_exact_def slots_demand_def)
qed

interpretation directory_schedule:
  trace_invariant dir_step "directory_start self"
    "\<lambda>tr s. \<forall>config h. with_hasher config h = Inr self \<longrightarrow> directory_inv (cfg_activation_waiters config) tr s"
  for self :: "('i, 'c, 'e, 'l) LocalDirectory"
proof unfold_locales
  show "\<forall>config h. with_hasher config h = Inr self \<longrightarrow>
      directory_inv (cfg_activation_waiters config) [] (directory_start self)"
    using with_hasher_Inr by blast
next
  fix tr l and s s' :: "('i, 'c, 'e, 'l) DirectorySystem"
  assume "\<forall>config h. with_hasher config h = Inr self \<longrightarrow> directory_inv (cfg_activation_waiters config) tr s"
    and "dir_step s l s'"
  then show "\<forall>config h. with_hasher config h = Inr self \<longrightarrow>
      directory_inv (cfg_activation_waiters config) (tr @ [l]) s'"
    unfolding directory_inv_def
    by (metis pointers_ok_step slots_ok_step claims_once_step entries_exact_step)
qed

lemma directory_reaches:
  assumes "with_hasher config h = Inr self" and "schedule dir_step (directory_start self) tr s"
  shows "pointers_ok (cfg_activation_waiters config) tr s" and "slots_ok (cfg_activation_waiters config) tr s"
    and "claims_once (cfg_activation_waiters config) tr" and "entries_exact tr s"
  using directory_schedule.inv_schedule [OF assms(2)] assms(1) by (auto simp: directory_inv_def)

subsection \<open>The decision behind a slot\<close>

lemma run_transition:
  "run_machine lifecycle_step m evs = Inr (outs, m') \<Longrightarrow> base_transition m = transition \<Longrightarrow>
     base_transition m' = transition"
proof (induction evs arbitrary: m outs)
  case (Cons ev evs)
  then show ?case by (auto simp: lifecycle_step_Inr split: prod.splits)
qed simp

text \<open>The executor of a slot holds a state of its lifecycle, its lock unpoisoned.\<close>

definition represents :: "('c, 'e, 'l) Slot \<Rightarrow> ('c, 'e, 'l) EntitySlot \<Rightarrow> bool" where
  "represents slot st \<longleftrightarrow> \<not> lock_poisoned slot \<and>
     (\<exists>m. le_machine (guarded slot) = LmReady m \<and> base_transition m = transition \<and> base_state m = st)"

lemma represents_state: "represents slot st \<longleftrightarrow> slot_healthy slot \<and> slot_state slot = st"
  by (auto simp: represents_def slot_healthy_def slot_state_def)

lemma slot_decides:
  assumes "slot_inv limit tr s p" and healthy: "slot_healthy (dir_slots (ds_directory s) ! p)"
  obtains d rest where "decide_all Inactive (slot_events limit p tr) = Inr d"
    "represents (dir_slots (ds_directory s) ! p) (dec_state d)" "rest_is s p rest"
    "subseq (applied_effects p tr) (as_slice (dec_effects d))"
    "\<not> list_ex callback_panic tr \<Longrightarrow> as_slice (dec_effects d) = applied_effects p tr @ rest @
       output_effects (le_outputs (guarded (dir_slots (ds_directory s) ! p)))"
proof -
  let ?slot = "dir_slots (ds_directory s) ! p"
  from assms(1) obtain ltr rest where ltr:
      "schedule (lin_step lifecycle_step output_evidence) (linearized_start fresh_machine) ltr (slot_system s p)"
      "map fst (accepted ltr) = slot_events limit p tr"
    and rest: "rest_is s p rest" "subseq (applied_effects p tr @ rest) (output_effects (taken_outputs ltr))"
      "\<not> list_ex callback_panic tr \<longrightarrow> applied_effects p tr @ rest = output_effects (taken_outputs ltr)"
    by (auto simp: slot_inv_def)
  have slot: "sys_executor (slot_system s p) = ?slot" by (simp add: slot_system_def)
  from linearized_schedule.inv_schedule [OF ltr(1)] obtain m' where
    run: "run_machine lifecycle_step fresh_machine (slot_events limit p tr) =
        Inr (taken_outputs ltr @ le_outputs (guarded ?slot), m')"
    and machine: "le_machine (guarded ?slot) = (if lock_poisoned ?slot then LmPoisoned else LmReady m')"
    unfolding linearized_def slot ltr(2) by (auto simp: output_evidence_def)
  have trans: "base_transition m' = transition" using run_transition [OF run] by simp
  have "\<exists>d. decide_all (base_state fresh_machine) (slot_events limit p tr) = Inr d \<and>
      dec_state d = base_state m' \<and> as_slice (dec_effects d) =
        output_effects (taken_outputs ltr @ le_outputs (guarded ?slot))"
    using run by (subst run_decides) (auto simp: output_effects_def)
  then obtain d where d: "decide_all Inactive (slot_events limit p tr) = Inr d"
    "dec_state d = base_state m'"
    "as_slice (dec_effects d) = output_effects (taken_outputs ltr) @ output_effects (le_outputs (guarded ?slot))"
    by auto
  have "represents ?slot (dec_state d)"
    using machine trans d(2) healthy by (auto simp: represents_def slot_healthy_def)
  moreover have "subseq (applied_effects p tr) (as_slice (dec_effects d))"
    unfolding d(3)
    by (intro subseq_rev_drop_many subseq_order.trans [OF _ rest(2)] subseq_rev_drop_many) simp
  ultimately show ?thesis using that d rest by auto
qed

lemma slot_life:
  assumes "with_hasher config h = Inr self" and "schedule dir_step (directory_start self) tr s"
    and "p < length (claims_made tr)"
  obtains d rest where "decide_all Inactive (slot_events (cfg_activation_waiters config) p tr) = Inr d"
    "represents (dir_slots (ds_directory s) ! p) (dec_state d)" "rest_is s p rest"
    "subseq (applied_effects p tr) (as_slice (dec_effects d))"
    "\<not> list_ex callback_panic tr \<Longrightarrow> as_slice (dec_effects d) = applied_effects p tr @ rest @
       output_effects (le_outputs (guarded (dir_slots (ds_directory s) ! p)))"
    "filter is_start (as_slice (dec_effects d)) = [StartActivation (ActivationId (nz (of_nat (Suc p))))]"
    "filter is_remove (as_slice (dec_effects d)) =
       (if dec_state d = Inactive then [Remove (ActivationId (nz (of_nat (Suc p))))] else [])"
proof -
  note inv = directory_reaches [OF assms(1,2)]
  have "slot_inv (cfg_activation_waiters config) tr s p" using inv(2) assms(3) by (simp add: slots_ok_def)
  from slot_decides [OF this pointers_ok_healthy(1) [OF inv(1) assms(3)]] obtain d rest where d:
    "decide_all Inactive (slot_events (cfg_activation_waiters config) p tr) = Inr d"
    "represents (dir_slots (ds_directory s) ! p) (dec_state d)" "rest_is s p rest"
    "subseq (applied_effects p tr) (as_slice (dec_effects d))"
    "\<not> list_ex callback_panic tr \<Longrightarrow> as_slice (dec_effects d) = applied_effects p tr @ rest @
       output_effects (le_outputs (guarded (dir_slots (ds_directory s) ! p)))" by blast
  from inv(3) assms(3) obtain i c evs where
    "slot_events (cfg_activation_waiters config) p tr =
       ClaimActivation (ActivationId (nz (of_nat (Suc p)))) i c (cfg_activation_waiters config) # evs"
    "unclaimed evs" by (auto simp: claims_once_def)
  with claimed_stream d that show ?thesis by metis
qed

lemma subseq_list_ex: "subseq xs ys \<Longrightarrow> list_ex P xs \<Longrightarrow> list_ex P ys"
  by (induction rule: list_emb.induct) auto

lemma removed_ended:
  assumes "with_hasher config h = Inr self" and "schedule dir_step (directory_start self) tr s"
    and "p < length (claims_made tr)" and "list_ex is_remove (applied_effects p tr)"
  shows "ended (dir_slots (ds_directory s) ! p)"
  using assms(1-3)
proof (rule slot_life)
  fix d rest
  assume d: "represents (dir_slots (ds_directory s) ! p) (dec_state d)"
    "subseq (applied_effects p tr) (as_slice (dec_effects d))"
    "filter is_remove (as_slice (dec_effects d)) =
       (if dec_state d = Inactive then [Remove (ActivationId (nz (of_nat (Suc p))))] else [])"
  have "list_ex is_remove (as_slice (dec_effects d))" by (rule subseq_list_ex [OF d(2) assms(4)])
  then have "dec_state d = Inactive" using d(3) by (auto simp: list_ex_iff filter_empty_conv split: if_splits)
  with d(1) show ?thesis by (auto simp: represents_def ended_def)
qed

subsection \<open>Properties\<close>

text \<open>
  C13: Each slot of the directory is a linearized lifecycle: in every interleaving of dispatches,
  typed facts, interpreters and their callbacks, the events submitted to a slot, in the order of
  their submissions, give a decision of the reducer from \<open>Inactive\<close>; the slot's machine is in that
  decision's state, and its executor is never poisoned; and the effects applied for the slot are a subsequence of the decision's effects in their order. While
  no callback panics nothing is skipped: what is not applied yet is the rest of the output under
  interpretation followed by the queued outputs.
\<close>

theorem directory_slot_is_a_lifecycle:
  assumes "with_hasher config h = Inr self" and "schedule dir_step (directory_start self) tr s"
    and "p < length (claims_made tr)"
  shows "\<exists>d rest. decide_all Inactive (slot_events (cfg_activation_waiters config) p tr) = Inr d \<and>
     represents (dir_slots (ds_directory s) ! p) (dec_state d) \<and>
     subseq (applied_effects p tr) (as_slice (dec_effects d)) \<and> rest_is s p rest \<and>
     (\<not> list_ex callback_panic tr \<longrightarrow> as_slice (dec_effects d) = applied_effects p tr @ rest @
        output_effects (le_outputs (guarded (dir_slots (ds_directory s) ! p))))"
  by (rule slot_life [OF assms]) blast

text \<open>
  C11: One live incarnation per entity, always routable: the directory represents a slot for its
  entity exactly until the slot's \<open>Remove\<close> is applied, and a slot it no longer represents has ended
  (its machine is inactive for good, its lock healthy). So two slots of one entity are never live
  together, and a live slot is the one a dispatch finds.
\<close>

theorem directory_one_live_incarnation:
  assumes "with_hasher config h = Inr self" and "schedule dir_step (directory_start self) tr s"
    and "p < length (claims_made tr)"
  shows "(shard_entry (dir_shards (ds_directory s)) (fst (claims_made tr ! p)) = Some p \<longleftrightarrow>
       \<not> list_ex is_remove (applied_effects p tr)) \<and>
     (shard_entry (dir_shards (ds_directory s)) (fst (claims_made tr ! p)) \<noteq> Some p \<longrightarrow>
       ended (dir_slots (ds_directory s) ! p)) \<and>
     (\<forall>q<length (claims_made tr). fst (claims_made tr ! q) = fst (claims_made tr ! p) \<longrightarrow>
       \<not> ended (dir_slots (ds_directory s) ! p) \<longrightarrow> \<not> ended (dir_slots (ds_directory s) ! q) \<longrightarrow> p = q)"
proof -
  have entry: "shard_entry (dir_shards (ds_directory s)) (fst (claims_made tr ! q)) = Some q \<longleftrightarrow>
      \<not> list_ex is_remove (applied_effects q tr)" if "q < length (claims_made tr)" for q
    using directory_reaches(4) [OF assms(1,2)] that by (simp add: entries_exact_def)
  show ?thesis
    using entry entry [OF assms(3)] removed_ended [OF assms(1,2)] assms(3) by (metis option.inject)
qed

text \<open>
  C23: Activation identities are never reused and each is started at most once: the claim that
  allocated slot \<open>p\<close> carries the identity \<open>p + 1\<close>, below the end of the 64-bit namespace, so no two
  slots share one; and among the effects ever applied for the slot at most one starts an activation,
  that identity's.
\<close>

theorem directory_single_flight:
  assumes "with_hasher config h = Inr self" and "schedule dir_step (directory_start self) tr s"
    and "p < length (claims_made tr)"
  shows "snd (claims_made tr ! p) = Some (ActivationId (nz (of_nat (Suc p)))) \<and> Suc p < 2 ^ 64 \<and>
     (\<forall>q<length (claims_made tr). snd (claims_made tr ! q) = snd (claims_made tr ! p) \<longrightarrow> q = p) \<and>
     (filter is_start (applied_effects p tr) = [] \<or>
      filter is_start (applied_effects p tr) = [StartActivation (ActivationId (nz (of_nat (Suc p))))])"
proof -
  note ptrs = directory_reaches(1) [OF assms(1,2)]
  have claim: "snd (claims_made tr ! q) = Some (ActivationId (nz (of_nat (Suc q))))"
    if "q < length (claims_made tr)" for q
    using ptrs that by (auto simp: pointers_ok_def Let_def)
  note bound = claims_bound [OF ptrs]
  have identity: "unat (of_nat (Suc q) :: u64) = Suc q" if "q < length (claims_made tr)" for q
    by (rule unat_of_nat_u64 [OF bound [OF that]])
  have unique: "q = p" if "q < length (claims_made tr)" "snd (claims_made tr ! q) = snd (claims_made tr ! p)" for q
  proof -
    have "nz (of_nat (Suc q)) = nz (of_nat (Suc p))" using claim that assms(3) by simp
    moreover have "(of_nat (Suc q) :: u64) \<noteq> 0" "(of_nat (Suc p) :: u64) \<noteq> 0"
      using identity [OF that(1)] identity [OF assms(3)] by (metis nat.distinct(1) unat_0)+
    ultimately have "(of_nat (Suc q) :: u64) = of_nat (Suc p)" by (simp del: of_nat_Suc)
    then show ?thesis using identity [OF that(1)] identity [OF assms(3)] by (metis nat.inject)
  qed
  have "filter is_start (applied_effects p tr) = [] \<or>
      filter is_start (applied_effects p tr) = [StartActivation (ActivationId (nz (of_nat (Suc p))))]"
  proof (rule slot_life [OF assms])
    fix d rest
    assume "subseq (applied_effects p tr) (as_slice (dec_effects d))"
      and "filter is_start (as_slice (dec_effects d)) = [StartActivation (ActivationId (nz (of_nat (Suc p))))]"
    then have "subseq (filter is_start (applied_effects p tr)) [StartActivation (ActivationId (nz (of_nat (Suc p))))]"
      by (metis subseq_filter)
    then show ?thesis by (cases "filter is_start (applied_effects p tr)") (auto split: if_splits)
  qed
  then show ?thesis using claim [OF assms(3)] bound [OF assms(3)] unique by blast
qed

subsection \<open>Where a panic can come from\<close>

lemma submit_absent_Inr: "\<exists>out. submit_absent i ev = Inr out"
proof -
  obtain d where "reduce Inactive ev = Inr d" by simp
  then obtain out where "transition Inactive ev = Inr (out, dec_state d)" using reduce_transition by blast
  then show ?thesis
    by (auto simp: submit_absent_def lifecycle_machine_fresh lifecycle_step_def base_step_def call_fn_def)
qed

lemma operation_step_unwinds:
  assumes ptrs: "pointers_ok limit tr s" and op: "ds_operations s k = Some op"
    and st: "operation_step handled op (ds_directory s) = (call, op', self')"
    and panic: "panicked op = None" "panicked op' = Some p"
  shows "call \<noteq> None"
proof -
  note shards = pointers_ok_facts(1) [OF ptrs] and ok = pointers_ok_operation [OF ptrs op]
  have healthy: "slot_healthy (dir_slots (ds_directory s) ! q)" if "home (claims_made tr) q = Some i" for q i
    using that pointers_ok_healthy(1) [OF ptrs] by (auto simp: home_def split: if_splits)
  have submit: "\<exists>e. r = Inr e" if "submit_at q ev (ds_directory s) = (r, self'')" "home (claims_made tr) q = Some i"
    for q ev r self'' i
    using that pointers_submit [OF ptrs _ that(1)] by (auto simp: home_def split: if_splits)
  show ?thesis
  proof (cases op)
    case (AtLookup d i c)
    then have "dispatch_lookup d i c (ds_directory s) = (op', self')" using st by simp
    with pointers_ok_facts(1,5) [OF ptrs] show ?thesis
      by (cases rule: dispatch_lookup_cases) (use panic in auto)
  next
    case (AtFind i ev)
    then show ?thesis using st panic submit_absent_Inr [of i ev]
      by (auto simp: lock_shard_ok [OF shards] split: option.splits)
  next
    case (AtInterpret i q pc effects)
    have q: "slot_healthy (dir_slots (ds_directory s) ! q)" and pc: "\<forall>r. pc \<noteq> Unwound r"
      using healthy ok AtInterpret panic(1) by auto
    show ?thesis
    proof (cases effects)
      case Nil
      then show ?thesis using st AtInterpret panic(2) q dispatch_step_calm [OF _ pc]
        by (auto simp: Let_def split: prod.splits elim!: panicked.elims)
    next
      case (Cons effect more)
      then show ?thesis
        using st AtInterpret panic pc sharded.remove_entry [OF shards, of i q]
        by (cases effect) (auto simp: Let_def split: prod.splits option.splits elim!: panicked.elims)
    qed
  next
    case (AtTransient i effects)
    then show ?thesis using st panic
      by (cases effects; cases call) (auto simp: Let_def split: prod.splits option.splits)
  next
    case (AtCurrent i)
    show ?thesis
    proof (cases "shard_entry (dir_shards (ds_directory s)) i")
      case (Some q)
      with healthy_activation [OF pointers_entry_healthy [OF ptrs Some]] show ?thesis
        using st panic AtCurrent by (auto simp: lock_shard_ok [OF shards] shard_entry_def)
    qed (use st panic AtCurrent in \<open>auto simp: lock_shard_ok [OF shards] shard_entry_def\<close>)
  next
    case (AtDispatch d i q c)
    then show ?thesis using st panic ok submit [of q "Dispatch d c"]
      by (auto split: prod.splits sum.splits)
  next
    case (AtSubmitTo q i ev)
    then show ?thesis using st panic ok submit [of q ev] by (auto split: prod.splits sum.splits)
  qed (use st panic in \<open>auto split: prod.splits option.splits sum.splits\<close>)
qed

text \<open>
  C25: The directory itself never panics: its index, its shard locks, its executors and its machines
  cannot fail in any schedule. When an operation unwinds, a runtime callback it made in that very
  step panicked, and the panic leaves every shard lock and every executor lock unpoisoned.
\<close>

theorem directory_panics_are_foreign:
  assumes "with_hasher config h = Inr self"
    and "schedule dir_step (directory_start self) (tr @ [Progress k op call op']) s"
    and "panicked op = None" and "panicked op' = Some p"
  shows "call \<noteq> None \<and> shards_ok (dir_shards (ds_directory s)) \<and>
     (\<forall>slot\<in>set (dir_slots (ds_directory s)). \<not> lock_poisoned slot)"
proof -
  from assms(2) obtain s0 where s0: "schedule dir_step (directory_start self) tr s0"
    "dir_step s0 (Progress k op call op') s" by auto
  from s0(2) obtain handled where "ds_operations s0 k = Some op"
    "operation_step handled op (ds_directory s0) = (call, op', ds_directory s)" by auto
  from operation_step_unwinds [OF directory_reaches(1) [OF assms(1) s0(1)] this assms(3,4)]
  have "call \<noteq> None" .
  moreover have "\<forall>slot\<in>set (dir_slots (ds_directory s)). \<not> lock_poisoned slot"
    using directory_reaches(1) [OF assms(1,2)] by (auto simp: pointers_ok_def Let_def slot_healthy_def)
  ultimately show ?thesis using pointers_ok_facts(1) [OF directory_reaches(1) [OF assms(1,2)]] by blast
qed

text \<open>
  C24: The reservations of an entity never overflow: in every schedule the commands its slots account
  for (waiting for an activation or reserved for a delivery) together with the dispatches that drew an
  identity and did not reach a slot yet are fewer than the next dispatch identity. So no machine is
  ever asked to reserve at \<open>usize::MAX\<close>, the one panic a lifecycle step has, and a submission
  to a slot always returns its evidence.
\<close>

theorem reservations_bounded_by_dispatches:
  assumes "with_hasher config h = Inr self" and "schedule dir_step (directory_start self) tr s"
  shows "finite (dom (ds_operations s)) \<and>
     holdings operation_ticket (ds_operations s) + slots_demand (dir_slots (ds_directory s)) <
       unat (dir_next_dispatch (ds_directory s)) \<and>
     (\<forall>q<length (dir_slots (ds_directory s)). \<forall>ev.
        \<exists>evidence slot. slot_submit (dir_slots (ds_directory s) ! q) ev = (Inr evidence, slot) \<and> \<not> lock_poisoned slot)"
proof -
  note ptrs = directory_reaches(1) [OF assms]
  note healthy = pointers_ok_healthy [OF ptrs] and len = pointers_ok_facts(3) [OF ptrs]
  have "\<exists>evidence slot. slot_submit (dir_slots (ds_directory s) ! q) ev = (Inr evidence, slot) \<and> \<not> lock_poisoned slot"
    if q: "q < length (dir_slots (ds_directory s))" for q ev
  proof -
    let ?slot = "dir_slots (ds_directory s) ! q"
    have "demand (slot_state ?slot) < unat (dir_next_dispatch (ds_directory s))"
      using healthy(3) slots_demand_member [of ?slot "dir_slots (ds_directory s)"] q by simp
    then have demand: "demand (slot_state ?slot) < 2 ^ 64 - 1"
      using unat_u64_less [of "dir_next_dispatch (ds_directory s)"] by (simp del: unat_u64_less)
    obtain r slot where submit: "slot_submit ?slot ev = (r, slot)" by fastforce
    show ?thesis
      using slot_submit_demand(1,2) [OF healthy(1) submit demand] q len submit by (auto simp: slot_healthy_def)
  qed
  with healthy(2,3) show ?thesis by blast
qed

subsection \<open>Instances\<close>

text \<open>Two shards, three waiters; one entity is dispatched to.\<close>

abbreviation sample_hash :: "u64 EntityId \<Rightarrow> u64" where
  "sample_hash \<equiv> entity_get"

lemma sample_directory:
  "\<exists>self :: (u64, nat, nat, nat) LocalDirectory. with_hasher sample_config sample_hash = Inr self \<and>
     shards_ok (dir_shards self) \<and> shard_entry (dir_shards self) = Map.empty \<and>
     dir_next_activation self = 1 \<and> dir_next_dispatch self = 1"
proof -
  have "is_power_of_two (nz_get (cfg_shards sample_config))"
    by (auto simp: is_power_of_two_iff sample_config_def intro!: exI [of _ 1])
  then obtain shs where "shards_with_hasher sample_config sample_hash = Some shs"
    by (simp add: shards_with_hasher_Some)
  with shards_with_hasher_ok [OF this] show ?thesis by (simp add: with_hasher_def)
qed

lemma sample_claim:
  "\<exists>(self :: (u64, nat, nat, nat) LocalDirectory) tr s. with_hasher sample_config sample_hash = Inr self \<and>
     schedule dir_step (directory_start self) tr s \<and>
     claims_made tr = [(EntityId 5, Some (ActivationId (nz 1)))] \<and> tr \<noteq> []"
proof -
  obtain self :: "(u64, nat, nat, nat) LocalDirectory" where self:
    "with_hasher sample_config sample_hash = Inr self" "shards_ok (dir_shards self)"
    "shard_entry (dir_shards self) = Map.empty" "dir_next_activation self = 1" "dir_next_dispatch self = 1"
    using sample_directory by blast
  let ?i = "EntityId 5 :: u64 EntityId" and ?d = "DispatchId (nz 1)"
  let ?s1 = "(directory_start self)\<lparr>ds_operations := [0 \<mapsto> AtAllocate ?i 10]\<rparr>"
  let ?self2 = "self\<lparr>dir_next_dispatch := 2\<rparr>"
  let ?s2 = "?s1\<lparr>ds_directory := ?self2, ds_operations := [0 \<mapsto> AtLookup ?d ?i 10]\<rparr>"
  have s1: "dir_step (directory_start self) (Begin 0 (AtAllocate ?i 10)) ?s1"
    by (simp add: directory_start_def)
  have "allocate (1 :: u64) = (Some (nz 1), 2)" using allocate_simps(1) [of 1] by simp
  then have s2: "dir_step ?s1 (Progress 0 (AtAllocate ?i 10) None (AtLookup ?d ?i 10)) ?s2"
    using self(5) by (simp add: directory_start_def)
  obtain op' self3 where lookup: "dispatch_lookup ?d ?i 10 ?self2 = (op', self3)" by fastforce
  let ?s3 = "?s2\<lparr>ds_directory := self3, ds_operations := [0 \<mapsto> op']\<rparr>"
  have s3: "dir_step ?s2 (Progress 0 (AtLookup ?d ?i 10) None op') ?s3"
    using lookup by simp
  have "shards_ok (dir_shards ?self2)" "dir_next_activation ?self2 \<noteq> 0" using self by simp_all
  then have "claim_label (Progress 0 (AtLookup ?d ?i 10) None op') = [(?i, Some (ActivationId (nz 1)))]"
    using lookup by (cases rule: dispatch_lookup_cases) (use self in \<open>auto simp: directory_output_def\<close>)
  moreover have "schedule dir_step (directory_start self) [Begin 0 (AtAllocate ?i 10),
      Progress 0 (AtAllocate ?i 10) None (AtLookup ?d ?i 10), Progress 0 (AtLookup ?d ?i 10) None op'] ?s3"
    using s1 s2 s3 by (simp del: dir_begin_iff dir_progress_iff) blast
  ultimately show ?thesis using self(1) by (fastforce simp: claims_made_def)
qed

theorem directory_slot_is_a_lifecycle_witness:
  "\<exists>(self :: (u64, nat, nat, nat) LocalDirectory) tr s d. with_hasher sample_config sample_hash = Inr self \<and>
     schedule dir_step (directory_start self) tr s \<and>
     decide_all Inactive (slot_events (nz 3) 0 tr) = Inr d \<and>
     represents (dir_slots (ds_directory s) ! 0) (dec_state d)"
proof -
  obtain tr s and self :: "(u64, nat, nat, nat) LocalDirectory" where
    run: "with_hasher sample_config sample_hash = Inr self" "schedule dir_step (directory_start self) tr s"
    "claims_made tr = [(EntityId 5, Some (ActivationId (nz 1)))]"
    using sample_claim by blast
  then show ?thesis
    using directory_slot_is_a_lifecycle [OF run(1,2), of 0] by (auto simp: sample_config_def)
qed

theorem directory_one_live_incarnation_witness:
  "\<exists>(self :: (u64, nat, nat, nat) LocalDirectory) tr s. with_hasher sample_config sample_hash = Inr self \<and>
     schedule dir_step (directory_start self) tr s \<and>
     (shard_entry (dir_shards (ds_directory s)) (EntityId 5) = Some 0 \<longleftrightarrow>
       \<not> list_ex is_remove (applied_effects 0 tr))"
proof -
  obtain tr s and self :: "(u64, nat, nat, nat) LocalDirectory" where
    run: "with_hasher sample_config sample_hash = Inr self" "schedule dir_step (directory_start self) tr s"
    "claims_made tr = [(EntityId 5, Some (ActivationId (nz 1)))]"
    using sample_claim by blast
  then show ?thesis using directory_one_live_incarnation [OF run(1,2), of 0] by auto
qed

theorem directory_single_flight_witness:
  "\<exists>(self :: (u64, nat, nat, nat) LocalDirectory) tr s. with_hasher sample_config sample_hash = Inr self \<and>
     schedule dir_step (directory_start self) tr s \<and> claims_made tr \<noteq> [] \<and>
     snd (claims_made tr ! 0) = Some (ActivationId (nz 1))"
proof -
  obtain tr s and self :: "(u64, nat, nat, nat) LocalDirectory" where
    run: "with_hasher sample_config sample_hash = Inr self" "schedule dir_step (directory_start self) tr s"
    "claims_made tr = [(EntityId 5, Some (ActivationId (nz 1)))]"
    using sample_claim by blast
  then show ?thesis using directory_single_flight [OF run(1,2), of 0] by auto
qed

text \<open>A late activation of an absent entity: its lease is retired by the transient decision, and
  the runtime's callback panics.\<close>

theorem directory_panics_are_foreign_witness:
  "\<exists>(self :: (u64, nat, nat, nat) LocalDirectory) tr op call s. with_hasher sample_config sample_hash = Inr self \<and>
     schedule dir_step (directory_start self)
       (tr @ [Progress 0 op call (OperationUnwound (Panic ''spawn''))]) s \<and> panicked op = None \<and>
     call \<noteq> None \<and> (\<forall>slot\<in>set (dir_slots (ds_directory s)). \<not> lock_poisoned slot)"
proof -
  obtain self :: "(u64, nat, nat, nat) LocalDirectory" where self:
    "with_hasher sample_config sample_hash = Inr self" "shards_ok (dir_shards self)"
    "shard_entry (dir_shards self) = Map.empty"
    using sample_directory by blast
  let ?i = "EntityId 5 :: u64 EntityId" and ?ev = "ActivationSucceeded (act 1) 7 8 :: (nat, nat, nat) SlotEvent"
  let ?retire = "Retire (act 1) 8 (Forced \<lparr>stage = StRetirement, outstanding_reservations = 0\<rparr>)
    :: (nat, nat, nat) SlotEffect"
  let ?call = "CallRetire ?i (act 1) 8 (Forced \<lparr>stage = StRetirement, outstanding_reservations = 0\<rparr>)
    :: (u64, nat, nat, nat) RuntimeCall"
  obtain d where d: "reduce Inactive ?ev = Inr d" "as_slice (dec_effects d) = [?retire]"
    by (simp add: decision_defs)
  then obtain out where "transition Inactive ?ev = Inr (out, dec_state d)" "as_slice (out_effects out) = [?retire]"
    using reduce_transition by fastforce
  then have absent: "submit_absent ?i ?ev = Inr (directory_output ?i (out_evidence out) (out_activation_id out)
      (Transient (out_effects out)))"
    by (simp add: submit_absent_def lifecycle_machine_fresh lifecycle_step_Inr)
  let ?out = "directory_output ?i (out_evidence out) (out_activation_id out) (Transient (out_effects out))
    :: (u64, nat, nat, nat) DirectoryOutput"
  let ?at = "\<lambda>op :: (u64, nat, nat, nat) Operation. \<lparr>ds_directory = self, ds_operations = [0 \<mapsto> op]\<rparr>"
  let ?tr = "[Begin 0 (AtFind ?i ?ev), Progress 0 (AtFind ?i ?ev) None (OutputReturned ?out), Interpret 0 ?out]"
  have "dir_step (directory_start self) (Begin 0 (AtFind ?i ?ev)) (?at (AtFind ?i ?ev))"
    by (simp add: directory_start_def)
  moreover have "dir_step (?at (AtFind ?i ?ev)) (Progress 0 (AtFind ?i ?ev) None (OutputReturned ?out))
      (?at (OutputReturned ?out))"
    using self(2,3) absent by (simp add: lock_shard_ok shard_entry_def fun_eq_iff)
  moreover have "dir_step (?at (OutputReturned ?out)) (Interpret 0 ?out) (?at (AtTransient ?i [?retire]))"
    using \<open>as_slice (out_effects out) = [?retire]\<close> by (simp add: interpret_output_def directory_output_def)
  ultimately have "schedule dir_step (directory_start self) ?tr (?at (AtTransient ?i [?retire]))"
    by (simp del: dir_begin_iff dir_interpret_iff dir_progress_iff) blast
  moreover have "dir_step (?at (AtTransient ?i [?retire]))
      (Progress 0 (AtTransient ?i [?retire]) (Some ?call) (OperationUnwound (Panic ''spawn'')))
      (?at (OperationUnwound (Panic ''spawn'')))"
    by (auto intro!: exI [of _ "Some (Panic ''spawn'')"])
  ultimately have run: "schedule dir_step (directory_start self)
      (?tr @ [Progress 0 (AtTransient ?i [?retire]) (Some ?call) (OperationUnwound (Panic ''spawn''))])
      (?at (OperationUnwound (Panic ''spawn'')))"
    by (rule schedule_step)
  from directory_panics_are_foreign [OF self(1) run]
  have "\<forall>slot\<in>set (dir_slots (ds_directory (?at (OperationUnwound (Panic ''spawn''))))). \<not> lock_poisoned slot"
    by simp
  then show ?thesis using self(1) run by (intro exI conjI) (assumption, assumption, simp, simp, assumption)
qed

theorem reservations_bounded_by_dispatches_witness:
  "\<exists>(self :: (u64, nat, nat, nat) LocalDirectory) tr s. with_hasher sample_config sample_hash = Inr self \<and>
     schedule dir_step (directory_start self) tr s \<and> dir_slots (ds_directory s) \<noteq> [] \<and>
     slots_demand (dir_slots (ds_directory s)) < unat (dir_next_dispatch (ds_directory s))"
proof -
  obtain tr s and self :: "(u64, nat, nat, nat) LocalDirectory" where
    run: "with_hasher sample_config sample_hash = Inr self" "schedule dir_step (directory_start self) tr s"
    "claims_made tr = [(EntityId 5, Some (ActivationId (nz 1)))]"
    using sample_claim by blast
  have "length (dir_slots (ds_directory s)) = 1"
    using pointers_ok_facts(3) [OF directory_reaches(1) [OF run(1,2)]] run(3) by simp
  then show ?thesis using reservations_bounded_by_dispatches [OF run(1,2)] run(1,2) by fastforce
qed

end
