(* ===== verification/Runtime_Safety.thy ===== *)
theory Runtime_Safety
  imports Runtime_Duties Directory_Safety
begin

section \<open>Graceful retirement waits for every delivery\<close>

text \<open>
  The runtime closes the loop of the reservation accounts: a delivery is resolved only by the task
  that its effect spawned.  Counting tasks and facts along every schedule of the runtime discharges
  the premise of \<open>Slot_Life\<close>, so the fence and the graceful retirement of an incarnation come after
  the actor runtime has answered every delivery ever admitted for it.
\<close>

subsection \<open>Deliveries of a directory schedule\<close>

text \<open>Transient decisions deliver nothing.\<close>

definition quiet :: "('c, 'e, 'l) SlotEffect list \<Rightarrow> bool" where
  "quiet effects \<longleftrightarrow> (\<forall>e\<in>set effects. \<forall>a. \<not> delivers_to a e)"

fun quiet_output :: "('i, 'c, 'e, 'l) DirectoryOutput \<Rightarrow> bool" where
  "quiet_output out = (case do_target out of Mapped _ \<Rightarrow> True | Transient b \<Rightarrow> quiet (as_slice b))"

fun quiet_operation :: "('i, 'c, 'e, 'l) Operation \<Rightarrow> bool" where
  "quiet_operation (DispatchReturned (Inr out)) = quiet_output (dp_output out)"
| "quiet_operation (OutputReturned out) = quiet_output out"
| "quiet_operation (AtTransient i effects) = quiet effects"
| "quiet_operation _ = True"

lemma quiet_simps [simp]: "quiet []" "quiet (e # es) \<longleftrightarrow> (\<forall>a. \<not> delivers_to a e) \<and> quiet es"
  by (auto simp: quiet_def)

lemma submit_absent_quiet: "submit_absent i ev = Inr out \<Longrightarrow> quiet_output out"
proof -
  assume "submit_absent i ev = Inr out"
  then obtain lout m where step: "lifecycle_step fresh_machine ev = Inr (lout, m)"
    and out: "out = directory_output i (out_evidence lout) (out_activation_id lout) (Transient (out_effects lout))"
    by (auto simp: submit_absent_def lifecycle_machine_fresh split: prod.splits)
  from step obtain d where "reduce Inactive ev = Inr d" "out_effects lout = dec_effects d"
    by (auto simp: lifecycle_step_Inr transition_Inr)
  then have "quiet (as_slice (out_effects lout))"
    using reduce_delivers [of Inactive ev d] by (auto simp: quiet_def)
  then show ?thesis by (simp add: out directory_output_def)
qed

lemma quiet_step:
  assumes "\<And>k op. ds_operations s k = Some op \<Longrightarrow> quiet_operation op" and "dir_step s l s'"
    and "ds_operations s' k = Some op"
  shows "quiet_operation op"
  using assms(2)
proof (cases rule: dir_step_cases)
  case (begun j op1)
  then show ?thesis using assms(1,3) by (cases op1) (auto split: if_splits)
next
  case (interpreted j op1 out)
  then have "quiet_output out" using assms(1) [of j op1] by (cases op1 rule: returned_output.cases) auto
  then show ?thesis using interpreted assms(1,3)
    by (auto simp: interpret_output_def split: if_splits OutputTarget.splits)
next
  case (progress j op1 handled call op2 dir')
  have "quiet_operation op2"
  proof (cases op1)
    case (AtFind i ev)
    then show ?thesis using progress(3) submit_absent_quiet [of i ev]
      by (auto split: sum.splits option.splits)
  next
    case (AtLookup d i c)
    then show ?thesis using progress(3)
      by (auto simp: dispatch_lookup_def Let_def directory_output_def alloc_slot_def
          split: sum.splits option.splits prod.splits)
  next
    case (AtTransient i effects)
    then show ?thesis using progress(3) assms(1) [OF progress(2)]
      by (cases effects) (auto simp: Let_def split: prod.splits option.splits)
  next
    case (AtInterpret i p pc effects)
    then show ?thesis using progress(3)
      by (cases effects) (auto simp: Let_def split: prod.splits option.splits)
  qed (use progress(3) assms(1) [OF progress(2)] in
      \<open>auto simp: directory_output_def split: sum.splits option.splits prod.splits\<close>)
  then show ?thesis using progress(4) assms(1,3) by (auto split: if_splits)
qed

definition slot_id :: "nat \<Rightarrow> ActivationId" where
  "slot_id p = ActivationId (nz (of_nat (Suc p)))"

lemma slot_id_inject: "Suc p < 2 ^ 64 \<Longrightarrow> Suc q < 2 ^ 64 \<Longrightarrow> slot_id p = slot_id q \<longleftrightarrow> p = q"
proof -
  assume less: "Suc p < 2 ^ 64" "Suc q < 2 ^ 64"
  then have "(of_nat (Suc p) :: u64) \<noteq> 0" "(of_nat (Suc q) :: u64) \<noteq> 0"
    using of_nat_u64_eq_0 by blast+
  then have "slot_id p = slot_id q \<longleftrightarrow> (of_nat (Suc p) :: u64) = of_nat (Suc q)"
    unfolding slot_id_def ActivationId.inject nz_eq_iff by (simp only: if_False)
  also have "\<dots> \<longleftrightarrow> p = q"
    using unat_of_nat_u64 [OF less(1)] unat_of_nat_u64 [OF less(2)] by (metis Suc_inject)
  finally show ?thesis .
qed

lemma quiet_schedule:
  "schedule dir_step (directory_start self) tr s \<Longrightarrow> ds_operations s k = Some op \<Longrightarrow> quiet_operation op"
proof (induction tr arbitrary: s k op rule: rev_induct)
  case Nil
  then show ?case by (simp add: directory_start_def)
next
  case (snoc l tr)
  then show ?case using quiet_step by fastforce
qed

lemma delivery_source:
  assumes "operation_step handled op self = (call, op', self')" and "Option.bind call call_duty = Some (a, DutyDelivery)" and "quiet_operation op"
  shows "\<exists>i q pc e effects. op = AtInterpret i q pc (e # effects) \<and> delivers_to a e"
proof (cases op)
  case (AtInterpret i q pc effects)
  show ?thesis
  proof (cases effects)
    case (Cons e more)
    then show ?thesis using assms(1,2) AtInterpret
      by (cases e) (auto simp: Let_def split: prod.splits option.splits sum.splits)
  qed (use assms(1,2) AtInterpret in \<open>auto simp: Let_def split: prod.splits\<close>)
next
  case (AtTransient i effects)
  show ?thesis
  proof (cases effects)
    case (Cons e more)
    then show ?thesis using assms AtTransient
      by (cases e) (auto simp: Let_def split: prod.splits option.splits)
  qed (use assms(1,2) AtTransient in auto)
qed (use assms(1,2) in \<open>auto split: prod.splits option.splits sum.splits\<close>)

text \<open>Every delivery the directory calls for is an effect of the slot it names.\<close>

lemma delivery_calls_applied:
  assumes "with_hasher config h = Inr self" and "schedule dir_step (directory_start self) tr s"
    and "Suc p < 2 ^ 64"
  shows "calls (slot_id p, DutyDelivery) tr \<le> delivered (slot_id p) (applied_effects p tr)"
  using assms(2)
proof (induction tr arbitrary: s rule: rev_induct)
  case (snoc l tr)
  from snoc.prems obtain s0 where s0: "schedule dir_step (directory_start self) tr s0" "dir_step s0 l s" by auto
  have "\<exists>e. applied_label p l = [e] \<and> delivers_to (slot_id p) e" if l: "call_label (slot_id p, DutyDelivery) l"
  proof -
    obtain k op call op' where l_eq: "l = Progress k op call op'" "Option.bind call call_duty = Some (slot_id p, DutyDelivery)"
      using l by (cases l) auto
    obtain handled where op: "ds_operations s0 k = Some op"
      "operation_step handled op (ds_directory s0) = (call, op', ds_directory s)"
      using s0(2) l_eq(1) by auto
    obtain i q pc e effects where e: "op = AtInterpret i q pc (e # effects)" "delivers_to (slot_id p) e"
      using delivery_source [OF op(2) l_eq(2) quiet_schedule [OF s0(1) op(1)]] by blast
    have applied: "applied_label q l = [e]" using l_eq(1) e(1) by simp
    have q: "q < length (claims_made (tr @ [l]))"
      using pointers_ok_operation [OF directory_reaches(1) [OF assms(1) s0(1)] op(1)] e(1)
      by (auto simp: home_def split: if_splits)
    have e_in: "e \<in> set (applied_effects q (tr @ [l]))" using applied by simp
    have "slot_id p = slot_id q"
    proof (rule slot_life [OF assms(1) snoc.prems q])
      fix d rest
      assume d: "decide_all Inactive (slot_events (cfg_activation_waiters config) q (tr @ [l])) = Inr d"
        "subseq (applied_effects q (tr @ [l])) (as_slice (dec_effects d))"
      obtain j c evs where evs: "slot_events (cfg_activation_waiters config) q (tr @ [l]) =
          ClaimActivation (slot_id q) j c (cfg_activation_waiters config) # evs" "unclaimed evs"
        using directory_reaches(3) [OF assms(1) snoc.prems] q by (auto simp: claims_once_def slot_id_def)
      have "e \<in> set (as_slice (dec_effects d))"
        using subseq_list_ex [OF d(2), of "\<lambda>x. x = e"] e_in by (auto simp: list_ex_iff)
      then show ?thesis using claimed_delivers_own [OF _ evs(2) _ e(2)] d(1) evs(1) by simp
    qed
    moreover have "Suc q < 2 ^ 64" by (rule claims_bound [OF directory_reaches(1) [OF assms(1) snoc.prems] q])
    ultimately show ?thesis using slot_id_inject assms(3) applied e(2) by metis
  qed
  with snoc.IH [OF s0(1)] show ?case by auto
qed simp

lemma delivered_subseq: "subseq xs ys \<Longrightarrow> delivered a xs \<le> delivered a ys"
  unfolding delivered_def by (rule list_emb_length [OF subseq_filter])

text \<open>The runtime keeps its side: no resolution reaches a slot before its delivery was emitted.\<close>

lemma runtime_accountable:
  assumes "with_hasher config h = Inr self" and "schedule rt_step (runtime_start self) tr s"
    and "Suc p < 2 ^ 64"
  shows "accountable (slot_id p) (slot_events (cfg_activation_waiters config) p (directory_trace tr))"
  using assms(2)
proof (induction tr arbitrary: s rule: rev_induct)
  case (snoc l tr)
  let ?limit = "cfg_activation_waiters config" and ?a = "slot_id p" and ?x = "(slot_id p, DutyDelivery)" and ?dtr = "directory_trace tr"
  from snoc.prems obtain s0 where s0: "schedule rt_step (runtime_start self) tr s0" "rt_step s0 l s" by auto
  note IH = snoc.IH [OF s0(1)] and dir = runtime_directory [OF s0(1)]
  show ?case
  proof (cases "snd l")
    case None
    then show ?thesis using IH by simp
  next
    case (Some d)
    have one: "event_label ?limit p d = [] \<or> (\<exists>ev. event_label ?limit p d = [ev])"
      by (cases "(?limit, p, d)" rule: event_label.cases) (auto split: OutputTarget.splits option.splits)
    then show ?thesis
    proof
      assume "\<exists>ev. event_label ?limit p d = [ev]"
      then obtain ev where ev: "event_label ?limit p d = [ev]" by blast
      have "resolved ?a (slot_events ?limit p ?dtr) < delivered ?a (as_slice (dec_effects dec))"
        if res: "resolves ?a ev" and dec: "decide_all Inactive (slot_events ?limit p ?dtr) = Inr dec" for dec
      proof -
        have "submitted ?limit p ?x l = 1" using Some ev res by (simp add: submitted_def duty_delivery)
        moreover have "\<not> answer_label ?x l"
          using s0(2) Some ev by (cases; cases l; auto split: option.splits)
        moreover have acc: "finite (facts_of ?x s0)"
            "card (facts_of ?x s0) + resolved ?a (slot_events ?limit p ?dtr) \<le> answered_tasks ?x tr"
            "answered_tasks ?x tr \<le> calls ?x ?dtr"
          using duty_accountsD [OF duty_schedule.inv_schedule [OF s0(1), of ?limit], of ?x]
          by (auto simp: answers_resolved dest: le_trans)
        ultimately have "resolved ?a (slot_events ?limit p ?dtr) < calls ?x ?dtr"
          using facts_step(2) [OF acc(1) s0(2), of ?limit p] by simp
        then have less: "resolved ?a (slot_events ?limit p ?dtr) < delivered ?a (applied_effects p ?dtr)"
          using delivery_calls_applied [OF assms(1) dir assms(3)] by simp
        then have "p < length (claims_made ?dtr)"
          using directory_reaches(2) [OF assms(1) dir] by (auto simp: slots_ok_def split: if_splits)
        then have "delivered ?a (applied_effects p ?dtr) \<le> delivered ?a (as_slice (dec_effects dec))"
          by (rule slot_life [OF assms(1) dir]) (use dec in \<open>auto intro: delivered_subseq\<close>)
        with less show ?thesis by simp
      qed
      then show ?thesis using IH Some ev by (simp add: accountable_snoc)
    qed (use IH Some in simp)
  qed
qed simp

subsection \<open>Properties\<close>

text \<open>
  C8: Graceful passivation cuts off no admitted command: in every interleaving of application calls,
  cancellations, tasks and callbacks, once the drain fence or the graceful retirement of an
  incarnation has been handed to the runtime, the actor runtime has answered every delivery ever
  decided for that incarnation, no delivery task of it runs and no delivery fact of it is under way.
\<close>

theorem graceful_retirement_waits_for_deliveries:
  assumes "with_hasher config h = Inr self" and "schedule rt_step (runtime_start self) tr s"
    and "p < length (claims_made (directory_trace tr))"
    and "list_ex is_fence (applied_effects p (directory_trace tr)) \<or>
      list_ex is_graceful (applied_effects p (directory_trace tr))"
  shows "tasks_of (slot_id p, DutyDelivery) s = {} \<and> facts_of (slot_id p, DutyDelivery) s = {} \<and>
     (\<exists>d. decide_all Inactive (slot_events (cfg_activation_waiters config) p (directory_trace tr)) = Inr d \<and>
        delivered (slot_id p) (as_slice (dec_effects d)) = answered_tasks (slot_id p, DutyDelivery) tr)"
proof -
  let ?limit = "cfg_activation_waiters config" and ?a = "slot_id p" and ?x = "(slot_id p, DutyDelivery)" and ?dtr = "directory_trace tr"
  note dir = runtime_directory [OF assms(2)]
  have less: "Suc p < 2 ^ 64" by (rule claims_bound [OF directory_reaches(1) [OF assms(1) dir] assms(3)])
  obtain i c evs where evs: "slot_events ?limit p ?dtr = ClaimActivation ?a i c ?limit # evs" "unclaimed evs"
    using directory_reaches(3) [OF assms(1) dir] assms(3) by (auto simp: claims_once_def slot_id_def)
  obtain d where d: "decide_all Inactive (slot_events ?limit p ?dtr) = Inr d"
    "subseq (applied_effects p ?dtr) (as_slice (dec_effects d))"
    using slot_life [OF assms(1) dir assms(3)] by blast
  have "list_ex is_fence (as_slice (dec_effects d)) \<or> list_ex is_graceful (as_slice (dec_effects d))"
    using assms(4) subseq_list_ex [OF d(2)] by blast
  then have "delivered ?a (as_slice (dec_effects d)) = resolved ?a (slot_events ?limit p ?dtr)"
    using decide_all_accounted [of ?a i c ?limit evs d] evs d(1) runtime_accountable [OF assms(1,2) less]
    by (auto simp: accounted_def)
  moreover have "resolved ?a (slot_events ?limit p ?dtr) + card (facts_of ?x s) + card (tasks_of ?x s) \<le>
      calls ?x ?dtr" "resolved ?a (slot_events ?limit p ?dtr) + card (facts_of ?x s) \<le> answered_tasks ?x tr"
      "answered_tasks ?x tr \<le> calls ?x ?dtr"
      "finite (facts_of ?x s)" "finite (tasks_of ?x s)"
    using duty_accountsD(1-4) [OF duty_schedule.inv_schedule [OF assms(2), of ?limit], of ?x]
      duty_accountsD(5) [OF duty_schedule.inv_schedule [OF assms(2), of ?limit], of ?x p]
    by (simp_all add: answers_resolved)
  moreover have "calls ?x ?dtr \<le> delivered ?a (as_slice (dec_effects d))"
    using delivery_calls_applied [OF assms(1) dir less] delivered_subseq [OF d(2), of ?a] by simp
  ultimately have "card (facts_of ?x s) = 0" "card (tasks_of ?x s) = 0"
      "delivered ?a (as_slice (dec_effects d)) = answered_tasks ?x tr" by linarith+
  then show ?thesis using \<open>finite (facts_of ?x s)\<close> \<open>finite (tasks_of ?x s)\<close> d(1) by auto
qed

text \<open>
  A command is dispatched to an absent entity, activated, delivered and answered; then the entity
  is passivated and its fence is handed to the runtime.
\<close>

definition sample_path :: "(u64, nat, nat, nat) Choice list" where
  "sample_path =
     [ChooseDispatch 0 0 (EntityId 5) 10, ChooseOperation 0 50, ChooseOperation 0 50, ChooseAdvance 0 99,
      ChooseOperation 0 50, ChooseOperation 0 50, ChooseOperation 0 1,
      ChooseAnswer 1 1 (AnsActivate (Inr \<lparr>activated_endpoint = 7, activated_lease = 8\<rparr>)),
      ChooseOperation 1 50, ChooseOperation 1 50,
      ChooseOperation 0 50, ChooseOperation 0 50, ChooseOperation 0 2, ChooseAnswer 2 2 (AnsDeliver (Inr ())),
      ChooseOperation 2 50, ChooseOperation 2 50,
      ChoosePassivate 3 3 (EntityId 5), ChooseOperation 3 50, ChooseAdvance 3 4,
      ChooseOperation 4 50, ChooseOperation 4 50,
      ChooseOperation 0 50, ChooseOperation 0 50, ChooseOperation 0 50, ChooseOperation 0 50, ChooseOperation 0 60]"

lemma sample_passivation:
  "case with_hasher sample_config sample_hash of Inl (_ :: nat PendingCommand DirectoryError) \<Rightarrow> False
   | Inr self \<Rightarrow>
       (case pick_all sample_path (runtime_start self) of None \<Rightarrow> False
        | Some (tr, s) \<Rightarrow> length (claims_made (directory_trace tr)) = 1 \<and>
            list_ex is_fence (applied_effects 0 (directory_trace tr)) \<and> answered_tasks (slot_id 0, DutyDelivery) tr = 1)"
  by code_simp

theorem graceful_retirement_waits_for_deliveries_witness:
  "\<exists>(self :: (u64, nat PendingCommand, nat, nat) LocalDirectory) tr s.
     with_hasher sample_config sample_hash = Inr self \<and> schedule rt_step (runtime_start self) tr s \<and>
     answered_tasks (slot_id 0, DutyDelivery) tr = 1 \<and> tasks_of (slot_id 0, DutyDelivery) s = {} \<and> facts_of (slot_id 0, DutyDelivery) s = {}"
proof -
  obtain self :: "(u64, nat PendingCommand, nat, nat) LocalDirectory" and tr s where
    run: "with_hasher sample_config sample_hash = Inr self" "pick_all sample_path (runtime_start self) = Some (tr, s)"
    "length (claims_made (directory_trace tr)) = 1" "list_ex is_fence (applied_effects 0 (directory_trace tr))"
    "answered_tasks (slot_id 0, DutyDelivery) tr = 1"
    using sample_passivation by (auto split: sum.splits option.splits)
  note schedule = pick_all_schedule [OF run(2)]
  show ?thesis
    using graceful_retirement_waits_for_deliveries [OF run(1) schedule, of 0] run schedule by auto
qed

end
