(* ===== verification/Directory_Served.thy ===== *)
theory Directory_Served
  imports Directory_Safety
begin

section \<open>No output of a slot is stranded\<close>

text \<open>
  An output queued in a slot's executor is always somebody's business: the operation that submitted
  its event has returned it to a caller who is about to interpret it, or an interpreter of the slot is
  running.  So once every operation is at rest, every effect ever decided has been applied.
\<close>

fun serves :: "nat \<Rightarrow> ('i, 'c, 'e, 'l) Operation \<Rightarrow> bool" where
  "serves p (AtInterpret i q pc effects) = (q = p \<and> running pc)"
| "serves p (DispatchReturned (Inr out)) = (do_target (dp_output out) = Mapped p)"
| "serves p (OutputReturned out) = (do_target out = Mapped p)"
| "serves p _ = False"

definition served :: "('i, 'c, 'e, 'l) DirectoryLabel list \<Rightarrow> ('i, 'c, 'e, 'l) DirectorySystem \<Rightarrow> nat \<Rightarrow> bool" where
  "served tr s p \<longleftrightarrow>
     (\<not> list_ex callback_panic tr \<longrightarrow>
      le_outputs (guarded (dir_slots (ds_directory s) ! p)) \<noteq> [] \<longrightarrow>
      (\<exists>k op. ds_operations s k = Some op \<and> serves p op))"

text \<open>What a step does to a slot that exists already.\<close>

lemma operation_step_slot:
  assumes ptrs: "pointers_ok limit tr s" and p: "p < length (claims_made tr)"
    and op: "ds_operations s k = Some op"
    and st: "operation_step handled op (ds_directory s) = (call, op', self')"
  obtains (same) "dir_slots self' ! p = dir_slots (ds_directory s) ! p" "serves p op \<Longrightarrow> serves p op'"
  | (submitted) ev r where "slot_submit (dir_slots (ds_directory s) ! p) ev = (r, dir_slots self' ! p)"
      "serves p op'"
  | (advanced) i pc pc' effects' where "op = AtInterpret i p pc []" "op' = AtInterpret i p pc' effects'"
      "dispatch_pending_step None pc (dir_slots (ds_directory s) ! p) = (pc', dir_slots self' ! p)"
  | (panicked) i q pc effect effects where "op = AtInterpret i q pc (effect # effects)"
      "callback_panic (Progress k op call op')"
proof -
  note len = pointers_ok_facts(3) [OF ptrs] and shards = pointers_ok_facts(1) [OF ptrs]
  have submit: thesis if sub: "submit_at q ev (ds_directory s) = (r, self')" "\<not> serves p op"
    "home (claims_made tr) q \<noteq> None" "\<And>e. r = Inr e \<Longrightarrow> serves q op'" for q ev r
  proof (cases "q = p")
    case True
    then obtain slot where slot: "slot_submit (dir_slots (ds_directory s) ! p) ev = (r, slot)" "dir_slots self' ! p = slot"
      using sub(1) p len by (auto simp: submit_at_def split: prod.splits)
    show thesis
      by (rule submitted [of ev r]) (use slot sub(4) True pointers_submit [OF ptrs p, of ev r self'] sub(1) in auto)
  next
    case False
    then have "dir_slots self' ! p = dir_slots (ds_directory s) ! p"
      using sub(1) by (auto simp: submit_at_def split: prod.splits)
    then show thesis using same sub(2) by blast
  qed
  show thesis
  proof (cases op)
    case (AtInterpret i q pc effects)
    show thesis
    proof (cases effects)
      case Nil
      show thesis
      proof (cases "q = p")
        case True
        then show thesis using st AtInterpret Nil p len advanced [of i pc]
          by (auto simp: Let_def split: prod.splits)
      next
        case False
        then show thesis using st AtInterpret Nil same by (auto simp: Let_def split: prod.splits)
      qed
    next
      case (Cons effect more)
      obtain shs where effected: "apply_effect i (Some q) effect (dir_shards (ds_directory s)) = (call, Inr shs)"
        using st AtInterpret Cons sharded.remove_entry [OF shards, of i q]
        by (cases effect) (auto simp: Let_def split: option.splits prod.splits)
      have "in_flight pc \<noteq> []" using pointers_ok_operation [OF ptrs op] AtInterpret Cons by simp
      then obtain ow out where pc: "pc = AtHandle ow out" by (cases pc) auto
      show thesis
      proof (cases "Option.bind call (\<lambda>_. handled)")
        case None
        then have "op' = AtInterpret i q pc more" "dir_slots self' = dir_slots (ds_directory s)"
          using st AtInterpret Cons effected by (auto simp: Let_def)
        then show thesis using same AtInterpret by simp
      next
        case (Some panic)
        obtain pc' ex where ex: "dispatch_pending_step (Some panic) pc (dir_slots (ds_directory s) ! q) = (pc', ex)"
          by fastforce
        then have op': "op' = AtInterpret i q pc' []" "dir_slots self' = (dir_slots (ds_directory s))[q := ex]"
          using st AtInterpret Cons effected Some by (auto simp: Let_def)
        have "callback_panic (Progress k op call op')" using ex pc AtInterpret Cons op'(1) by auto
        then show thesis using panicked AtInterpret Cons by blast
      qed
    qed
  next
    case (AtLookup d i c)
    have "dispatch_lookup d i c (ds_directory s) = (op', self')" using st AtLookup by simp
    with shards pointers_ok_facts(5) [OF ptrs] show thesis
      by (cases rule: dispatch_lookup_cases) (use same AtLookup p len in \<open>auto simp: nth_append\<close>)
  next
    case (AtDispatch d i q c)
    then show thesis using st submit [of q "Dispatch d c"] pointers_ok_operation [OF ptrs op]
      by (auto simp: directory_output_def split: prod.splits sum.splits)
  next
    case (AtSubmitTo q i ev)
    then show thesis using st submit [of q ev] pointers_ok_operation [OF ptrs op]
      by (auto simp: directory_output_def split: prod.splits sum.splits)
  next
    case (AtTransient i effects)
    then show thesis using st same by (cases effects) (auto simp: Let_def split: prod.splits option.splits)
  qed (use st same in \<open>auto split: prod.splits option.splits sum.splits\<close>)
qed

lemma running_kept:
  assumes "dispatch_pending_step None pc ex = (pc', ex')" and "running pc" and "\<not> lock_poisoned ex"
    and "le_outputs (guarded ex') \<noteq> []" and "\<And>ow. ownership pc = Some ow \<Longrightarrow> armed ow"
  shows "running pc' \<or> pc = AtAcquire \<and> le_dispatch (guarded ex) = Dispatching"
  using assms
  by (cases pc) (auto simp: running_def executor_defs lock_def split: DispatchState.splits list.splits option.splits if_splits)

lemma served_step:
  assumes ptrs: "pointers_ok limit tr s" and slots: "slots_ok limit tr s" and p: "p < length (claims_made tr)"
    and before: "served tr s p" and step: "dir_step s l s'"
  shows "served (tr @ [l]) s' p"
  unfolding served_def
proof (intro impI)
  let ?slot = "dir_slots (ds_directory s) ! p" and ?slot' = "dir_slots (ds_directory s') ! p"
  assume quiet: "\<not> list_ex callback_panic (tr @ [l])" and queued: "le_outputs (guarded ?slot') \<noteq> []"
  have healthy: "\<not> lock_poisoned ?slot" using pointers_ok_healthy(1) [OF ptrs p] by (simp add: slot_healthy_def)
  have server: "\<exists>k op. ds_operations s k = Some op \<and> serves p op" if "le_outputs (guarded ?slot) \<noteq> []"
    using before quiet that by (auto simp: served_def)
  from step show "\<exists>k op. ds_operations s' k = Some op \<and> serves p op"
  proof (cases rule: dir_step_cases)
    case (begun k op)
    then obtain j op1 where "ds_operations s j = Some op1" "serves p op1" using server queued by auto
    then show ?thesis using begun by (intro exI [of _ j] exI [of _ op1]) auto
  next
    case (interpreted k op out)
    then obtain j op1 where j: "ds_operations s j = Some op1" "serves p op1" using server queued by auto
    show ?thesis
    proof (cases "j = k")
      case True
      then have "serves p (interpret_output out)" using j interpreted
        by (cases op rule: returned_output.cases) (auto simp: interpret_output_def running_def)
      then show ?thesis using interpreted by auto
    next
      case False
      then show ?thesis using j interpreted by (intro exI [of _ j] exI [of _ op1]) auto
    qed
  next
    case (progress k op handled call op' dir')
    have others: ?thesis if "ds_operations s j = Some op1" "serves p op1" "j \<noteq> k" for j op1
      using that progress(4) by (intro exI [of _ j] exI [of _ op1]) auto
    have this_one: ?thesis if "serves p op'" using that progress(4) by auto
    from ptrs p progress(2,3) show ?thesis
    proof (cases rule: operation_step_slot)
      case same
      then have "le_outputs (guarded ?slot) \<noteq> []" using queued progress(4) by simp
      then show ?thesis using server others this_one same(2) progress(2) by (metis option.inject)
    next
      case (submitted ev r)
      then show ?thesis using this_one by simp
    next
      case (panicked i q pc effect effects)
      then show ?thesis using quiet progress(1) by simp
    next
      case (advanced i pc pc' effects')
      have "le_outputs (guarded ?slot) \<noteq> []"
        using dispatch_step_frame(4) [OF advanced(3)] queued progress(4) by auto
      then obtain j op1 where j: "ds_operations s j = Some op1" "serves p op1" using server by blast
      show ?thesis
      proof (cases "j = k")
        case True
        then have run: "running pc" using j advanced(1) progress(2) by auto
        have "slot_inv limit tr s p" using slots p by (simp add: slots_ok_def)
        then obtain ltr where "schedule (lin_step lifecycle_step output_evidence) (linearized_start fresh_machine) ltr (slot_system s p)"
          by (auto simp: slot_inv_def)
        from linearized_schedule.inv_schedule [OF this] have excl: "dispatch_exclusive (slot_system s p)" by simp
        have inv: "sys_invocations (slot_system s p) k = Some pc" "sys_executor (slot_system s p) = ?slot"
          using progress(2) advanced(1) by (simp_all add: slot_system_def)
        have armed: "armed ow" if "ownership pc = Some ow" for ow
          using excl inv that by (auto simp: dispatch_exclusive_def)
        have "le_outputs (guarded (dir_slots dir' ! p)) \<noteq> []" using queued progress(4) by simp
        from running_kept [OF advanced(3) run healthy this armed] show ?thesis
        proof
          assume "running pc'"
          then show ?thesis using this_one advanced(2) by simp
        next
          assume other: "pc = AtAcquire \<and> le_dispatch (guarded ?slot) = Dispatching"
          then obtain m where m: "owner (slot_system s p) m" using excl inv(2) by (auto simp: dispatch_exclusive_def)
          then obtain i' pc1 es where "ds_operations s m = Some (AtInterpret i' p pc1 es)" "owns pc1"
            by (auto simp: owner_def slot_system_def split: option.splits Operation.splits if_splits)
          moreover from this have "m \<noteq> k" using progress(2) advanced(1) other by auto
          ultimately show ?thesis using others [of m] by (simp add: running_def)
        qed
      qed (use others j in blast)
    qed
  qed
qed

lemma served_new:
  assumes ptrs: "pointers_ok limit tr s" and step: "dir_step s l s'"
    and p: "p < length (claims_made (tr @ [l]))" "\<not> p < length (claims_made tr)"
  shows "served (tr @ [l]) s' p"
  using step
proof (cases rule: dir_step_cases)
  case (progress k op handled call op' dir')
  have "\<exists>d i c. op = AtLookup d i c"
    using pointers_step_frame(6) [OF ptrs progress(3)] progress(1) p by fastforce
  then obtain d i c where op: "op = AtLookup d i c" by blast
  have "dispatch_lookup d i c (ds_directory s) = (op', dir')" using progress(3) op by simp
  with pointers_ok_facts(1,5) [OF ptrs] have "serves p op'"
  proof (cases rule: dispatch_lookup_cases)
    case (claimed ev slot out)
    then show ?thesis using p progress(1) op pointers_ok_facts(3) [OF ptrs] by (simp add: directory_output_def)
  qed (use p progress(1) op in auto)
  then show ?thesis using progress(4) by (auto simp: served_def)
qed (use p in auto)

lemma all_served:
  assumes "with_hasher config h = Inr self" and "schedule dir_step (directory_start self) tr s"
    and "p < length (claims_made tr)"
  shows "served tr s p"
  using assms(2,3)
proof (induction tr arbitrary: s rule: rev_induct)
  case (snoc l tr)
  then obtain s0 where s0: "schedule dir_step (directory_start self) tr s0" "dir_step s0 l s" by auto
  note reach = directory_reaches [OF assms(1) s0(1)]
  show ?case
    using served_step [OF reach(1,2) _ snoc.IH [OF s0(1)] s0(2)] served_new [OF reach(1) s0(2) snoc.prems(2)]
    by blast
qed simp

text \<open>An operation that needs nothing more, nor its caller.\<close>

fun at_rest :: "('i, 'c, 'e, 'l) Operation \<Rightarrow> bool" where
  "at_rest (AtInterpret i q (Returned _) effects) = (effects = [])"
| "at_rest (AtTransient i effects) = (effects = [])"
| "at_rest (DispatchReturned (Inl _)) = True"
| "at_rest (CurrentReturned _) = True"
| "at_rest _ = False"

lemma at_rest_serves: "at_rest op \<Longrightarrow> \<not> serves p op"
  by (cases op rule: at_rest.cases) (auto simp: running_def)

text \<open>When every operation is at rest, every effect of every slot has been applied.\<close>

lemma rested_applied:
  assumes "with_hasher config h = Inr self" and "schedule dir_step (directory_start self) tr s"
    and "p < length (claims_made tr)" and "\<not> list_ex callback_panic tr"
    and "\<And>k op. ds_operations s k = Some op \<Longrightarrow> at_rest op"
    and "rest_is s p rest"
  shows "rest = []" and "le_outputs (guarded (dir_slots (ds_directory s) ! p)) = []"
proof -
  show "rest = []"
  proof (rule ccontr)
    assume "rest \<noteq> []"
    then obtain k i pc where "ds_operations s k = Some (AtInterpret i p pc rest)" using assms(6) by (auto simp: rest_is_def)
    then have "at_rest (AtInterpret i p pc rest)" by (rule assms(5))
    with \<open>rest \<noteq> []\<close> show False by (cases pc) auto
  qed
  show "le_outputs (guarded (dir_slots (ds_directory s) ! p)) = []"
    using all_served [OF assms(1-3)] assms(4,5) at_rest_serves by (auto simp: served_def)
qed

end
