(* ===== verification/Runtime_Ownership.thy ===== *)
theory Runtime_Ownership
  imports Runtime_Safety Directory_Served
begin

section \<open>Who acts for an incarnation\<close>

text \<open>
  While an incarnation has not been removed, everything that carries one of its duties (a running
  task, a fact on its way, an effect about to be handed over) works for the entity of its slot, and
  no other slot has heard of it.  So none of its facts can miss its slot.
\<close>

subsection \<open>Duties of one incarnation\<close>

fun task_entity :: "('i, 'c, 'e, 'l) Task \<Rightarrow> 'i EntityId" where
  "task_entity (ActivateTask i _) = i"
| "task_entity (DeliverTask i _ _ _ _) = i"
| "task_entity (FenceTask i _ _) = i"
| "task_entity (RetireTask i _ _ _) = i"

definition effect_for :: "ActivationId \<Rightarrow> ('c, 'e, 'l) SlotEffect \<Rightarrow> bool" where
  "effect_for a e \<longleftrightarrow> map_option fst (effect_duty e) = Some a"

definition event_for :: "ActivationId \<Rightarrow> ('c, 'e, 'l) SlotEvent \<Rightarrow> bool" where
  "event_for a ev \<longleftrightarrow> map_option fst (event_duty ev) = Some a"

definition quiet_for :: "ActivationId \<Rightarrow> ('c, 'e, 'l) SlotEffect list \<Rightarrow> bool" where
  "quiet_for a effects \<longleftrightarrow> \<not> list_ex (effect_for a) effects"

lemma effect_for_iff: "effect_for a e \<longleftrightarrow> (\<exists>k. effect_duty e = Some (a, k))"
  by (auto simp: effect_for_def)

lemma event_for_iff: "event_for a ev \<longleftrightarrow> (\<exists>k. event_duty ev = Some (a, k))"
  by (auto simp: event_for_def)

lemma quiet_for_simps [simp]:
  "quiet_for a []" "quiet_for a (e # es) \<longleftrightarrow> \<not> effect_for a e \<and> quiet_for a es"
  by (auto simp: quiet_for_def)

text \<open>The holder of a duty works for the slot \<open>p\<close>, whose entity is \<open>h\<close> once it is claimed.\<close>

fun output_owned :: "ActivationId \<Rightarrow> ('i, 'c, 'e, 'l) DirectoryOutput \<Rightarrow> bool" where
  "output_owned a out = (case do_target out of Mapped _ \<Rightarrow> True | Transient b \<Rightarrow> quiet_for a (as_slice b))"

fun operation_owned ::
  "nat \<Rightarrow> 'i EntityId option \<Rightarrow> ActivationId \<Rightarrow> ('i, 'c, 'e, 'l) Operation \<Rightarrow> bool" where
  "operation_owned p h a (AtFind i ev) = (event_for a ev \<longrightarrow> h = Some i)"
| "operation_owned p h a (AtSubmitTo q i ev) = (event_for a ev \<longrightarrow> q = p)"
| "operation_owned p h a (AtTransient i effects) = quiet_for a effects"
| "operation_owned p h a (DispatchReturned (Inr out)) = output_owned a (dp_output out)"
| "operation_owned p h a (OutputReturned out) = output_owned a out"
| "operation_owned p h a _ = True"

fun thread_owned :: "'i EntityId option \<Rightarrow> ActivationId \<Rightarrow> ('i, 'c, 'e, 'l) Thread \<Rightarrow> bool" where
  "thread_owned h a (TaskRunning task) = (fst (task_duty task) = a \<longrightarrow> h = Some (task_entity task))"
| "thread_owned h a _ = True"

definition unheard ::
  "NonZeroUsize \<Rightarrow> nat \<Rightarrow> ('i, 'c, 'e, 'l) DirectoryLabel list \<Rightarrow> bool" where
  "unheard limit p tr \<longleftrightarrow>
     (\<forall>q ev. q \<noteq> p \<longrightarrow> ev \<in> set (slot_events limit q tr) \<longrightarrow> \<not> event_for (slot_id p) ev)"

definition owned ::
  "NonZeroUsize \<Rightarrow> nat \<Rightarrow> ('i, 'c, 'e, 'l) RuntimeLabel list \<Rightarrow> ('i, 'c, 'e, 'l) RuntimeSystem \<Rightarrow> bool" where
  "owned limit p tr s \<longleftrightarrow>
     (let h = home (claims_made (directory_trace tr)) p in
      (\<forall>k op. ds_operations (rs_directory s) k = Some op \<longrightarrow> operation_owned p h (slot_id p) op) \<and>
      (\<forall>t thread. rs_threads s t = Some thread \<longrightarrow> thread_owned h (slot_id p) thread) \<and>
      unheard limit p (directory_trace tr))"

lemma operation_owned_mono:
  "operation_owned p h a op \<Longrightarrow> h = None \<or> h' = h \<Longrightarrow> operation_owned p h' a op"
  by (cases "(p, h, a, op)" rule: operation_owned.cases) auto

lemma thread_owned_mono: "thread_owned h a th \<Longrightarrow> h = None \<or> h' = h \<Longrightarrow> thread_owned h' a th"
  by (cases th) auto

lemma home_grows: "home cs p = None \<or> home (cs @ cs') p = home cs p"
  by (auto simp: home_def nth_append)

text \<open>What a decision for an absent entity asks for is in the name of its event.\<close>

lemma submit_absent_owned:
  assumes "submit_absent i ev = Inr out" and "\<not> event_for a ev" and "\<And>b. \<not> claims b ev"
  shows "output_owned a out"
proof -
  from assms(1) obtain lout m where step: "lifecycle_step fresh_machine ev = Inr (lout, m)"
    and out: "out = directory_output i (out_evidence lout) (out_activation_id lout) (Transient (out_effects lout))"
    by (auto simp: submit_absent_def lifecycle_machine_fresh split: prod.splits)
  from step obtain d where d: "reduce Inactive ev = Inr d" "out_effects lout = dec_effects d"
    by (auto simp: lifecycle_step_Inr transition_Inr)
  then have "quiet_for a (as_slice (out_effects lout))"
    using assms(2,3) by (cases ev) (auto simp: reducer_simps effect_for_def event_for_def split: option.splits)
  then show ?thesis by (simp add: out directory_output_def)
qed

lemma call_effect_duty:
  "apply_effect i target e shs = (call, r) \<Longrightarrow> Option.bind call call_duty = effect_duty e"
  by (cases e) auto

lemma spawned_entity:
  "apply_effect i target e shs = (call, r) \<Longrightarrow> spawned handled call = Some task \<Longrightarrow> task_entity task = i"
  by (cases e) (auto simp: spawned_def split: if_splits)

text \<open>A spawned task comes from an effect, of a slot or of a transient decision.\<close>

lemma spawned_source:
  assumes "operation_step handled op self = (call, op', self')" and "spawned handled call = Some task"
  obtains i q pc e es where "op = AtInterpret i q pc (e # es)" "effect_duty e = Some (task_duty task)" "task_entity task = i"
  | i e es where "op = AtTransient i (e # es)" "effect_duty e = Some (task_duty task)"
proof -
  note duty = spawned_duty [OF assms(2)]
  have no: thesis if "call = None" using that assms(2) by (simp add: spawned_def)
  show thesis
  proof (cases op)
    case (AtInterpret i q pc effects)
    show thesis
    proof (cases effects)
      case (Cons e es)
      obtain c r where app: "apply_effect i (Some q) e (dir_shards self) = (c, r)" by fastforce
      then have "c = call" using assms(1) AtInterpret Cons by (auto simp: Let_def split: prod.splits option.splits)
      then show thesis
        using that(1) AtInterpret Cons call_effect_duty [OF app] spawned_entity [OF app] duty assms(2) by auto
    qed (use no assms(1) AtInterpret in \<open>auto simp: Let_def split: prod.splits\<close>)
  next
    case (AtTransient i effects)
    show thesis
    proof (cases effects)
      case (Cons e es)
      obtain c r where app: "apply_effect i None e (dir_shards self) = (c, r)" by fastforce
      then have "c = call" using assms(1) AtTransient Cons by (auto simp: Let_def split: prod.splits option.splits)
      then show thesis using that(2) AtTransient Cons call_effect_duty [OF app] duty by auto
    qed (use no assms(1) AtTransient in auto)
  qed (use no assms(1) in \<open>auto split: prod.splits option.splits sum.splits\<close>)
qed

subsection \<open>One step of the directory\<close>

lemma operation_step_owned:
  assumes ptrs: "pointers_ok limit tr s" and exact: "entries_exact tr s"
    and op: "ds_operations s k = Some op" and own: "operation_owned p (home (claims_made tr) p) a op"
    and st: "operation_step handled op (ds_directory s) = (call, op', self')"
    and live: "\<not> list_ex is_remove (applied_effects p tr)"
  shows "operation_owned p (home (claims_made tr) p) a op'"
proof (cases op)
  case (AtFind i ev)
  note shards = lock_shard_ok [OF pointers_ok_facts(1) [OF ptrs], of i]
  have unclaimed: "\<not> claims b ev" for b
    using pointers_ok_operation [OF ptrs op] AtFind by (auto dest: generation_unclaimed)
  have here: "shard_entry (dir_shards (ds_directory s)) i = Some p" if "event_for a ev"
  proof -
    have "home (claims_made tr) p = Some i" using own AtFind that by simp
    then show ?thesis using exact live by (auto simp: entries_exact_def home_def split: if_splits)
  qed
  show ?thesis
  proof (cases "shard_entry (dir_shards (ds_directory s)) i")
    case (Some q)
    then show ?thesis using st AtFind shards here by (auto simp: shard_entry_def)
  next
    case None
    then have "\<not> event_for a ev" using here by auto
    then show ?thesis using st AtFind shards None submit_absent_owned [OF _ _ unclaimed]
      by (auto simp: shard_entry_def split: sum.splits)
  qed
next
  case (AtLookup d i c)
  then have "dispatch_lookup d i c (ds_directory s) = (op', self')" using st by simp
  with pointers_ok_facts(1,5) [OF ptrs] show ?thesis
    by (cases rule: dispatch_lookup_cases) (auto simp: directory_output_def)
next
  case (AtTransient i effects)
  then show ?thesis using st own by (cases effects) (auto simp: Let_def split: prod.splits option.splits)
next
  case (AtInterpret i q pc effects)
  then show ?thesis using st by (cases effects) (auto simp: Let_def split: prod.splits option.splits)
qed (use st own in \<open>auto simp: directory_output_def split: prod.splits option.splits sum.splits\<close>)

lemma event_label_owned:
  assumes "operation_owned p h a op" and "ev \<in> set (event_label limit q (Progress k op call op'))"
    and "event_for a ev"
  shows "q = p"
  using assms
  by (cases "(limit, q, Progress k op call op')" rule: event_label.cases)
    (auto simp: event_for_def split: if_splits OutputTarget.splits option.splits)

lemma unheard_step:
  assumes "unheard limit p tr" and "\<And>q ev. ev \<in> set (event_label limit q l) \<Longrightarrow> event_for (slot_id p) ev \<Longrightarrow> q = p"
  shows "unheard limit p (tr @ [l])"
  using assms by (auto simp: unheard_def)

text \<open>An effect applied in the name of an incarnation is its own slot's.\<close>

lemma applied_own:
  assumes "with_hasher config h = Inr self" and "schedule dir_step (directory_start self) tr s"
    and "unheard (cfg_activation_waiters config) p tr" and "Suc p < 2 ^ 64"
    and "e \<in> set (applied_effects q tr)" and "effect_for (slot_id p) e"
  shows "q = p"
proof (rule ccontr)
  assume "q \<noteq> p"
  have q: "q < length (claims_made tr)"
    using directory_reaches(2) [OF assms(1,2)] assms(5) by (auto simp: slots_ok_def split: if_splits)
  obtain k where k: "effect_duty e = Some (slot_id p, k)" using assms(6) by (auto simp: effect_for_iff)
  obtain j c evs where evs: "slot_events (cfg_activation_waiters config) q tr =
      ClaimActivation (slot_id q) j c (cfg_activation_waiters config) # evs" "unclaimed evs"
    using directory_reaches(3) [OF assms(1,2)] q by (auto simp: claims_once_def slot_id_def)
  have "Suc q < 2 ^ 64" by (rule claims_bound [OF directory_reaches(1) [OF assms(1,2)] q])
  then have other: "slot_id p \<noteq> slot_id q" using slot_id_inject assms(4) \<open>q \<noteq> p\<close> by blast
  show False
  proof (rule slot_life [OF assms(1,2) q])
    fix d rest
    assume d: "decide_all Inactive (slot_events (cfg_activation_waiters config) q tr) = Inr d"
      "subseq (applied_effects q tr) (as_slice (dec_effects d))"
    have "e \<in> set (as_slice (dec_effects d))"
      using subseq_list_ex [OF d(2), of "\<lambda>x. x = e"] assms(5) by (auto simp: list_ex_iff)
    then obtain ev where "ev \<in> set evs" "event_duty ev = Some (slot_id p, DutyActivation)"
      using claimed_foreign [OF d(1) [unfolded evs(1)] evs(2) _ k other] by blast
    then have "ev \<in> set (slot_events (cfg_activation_waiters config) q tr)" "event_for (slot_id p) ev"
      using evs(1) by (auto simp: event_for_def)
    then show False using assms(3) \<open>q \<noteq> p\<close> by (auto simp: unheard_def)
  qed
qed

subsection \<open>Every step of the runtime\<close>

lemma ownedD:
  assumes "owned limit p tr s"
  shows "ds_operations (rs_directory s) k = Some op \<Longrightarrow>
      operation_owned p (home (claims_made (directory_trace tr)) p) (slot_id p) op"
    and "rs_threads s t = Some thread \<Longrightarrow>
      thread_owned (home (claims_made (directory_trace tr)) p) (slot_id p) thread"
    and "unheard limit p (directory_trace tr)"
  using assms unfolding owned_def Let_def by blast+

text \<open>A step that begins or hands on an operation, or changes one thread.\<close>

lemma owned_keep:
  assumes "owned limit p tr s"
    and "ds_operations (rs_directory s') = (ds_operations (rs_directory s))(k := x)"
    and "rs_threads s' = (rs_threads s)(t := y)"
    and "\<And>q. case snd l of None \<Rightarrow> True | Some d \<Rightarrow> event_label limit q d = [] \<and> claim_label d = []"
    and "\<And>op. x = Some op \<Longrightarrow> operation_owned p (home (claims_made (directory_trace tr)) p) (slot_id p) op"
    and "\<And>th. y = Some th \<Longrightarrow> thread_owned (home (claims_made (directory_trace tr)) p) (slot_id p) th"
  shows "owned limit p (tr @ [l]) s'"
proof -
  have "claims_made (directory_trace (tr @ [l])) = claims_made (directory_trace tr)"
    using assms(4) by (auto split: option.splits)
  moreover have "unheard limit p (directory_trace (tr @ [l]))"
    using ownedD(3) [OF assms(1)] assms(4) by (auto simp: unheard_def split: option.splits)
  ultimately show ?thesis
    using ownedD(1,2) [OF assms(1)] assms(2,3,5,6) unfolding owned_def Let_def by (auto split: if_splits)
qed

lemma event_duty_answer:
  "task_answer task answer = Some (completed, op) \<Longrightarrow>
     \<exists>ev. op = AtFind (task_entity task) ev \<and> event_duty ev = Some (task_duty task)"
  by (cases "(task, answer)" rule: task_answer.cases) (auto simp: fact_defs split: sum.splits)

lemma begun_owned:
  "thread_advance fresh thread op = Some (thread', UseBegin op') \<Longrightarrow> operation_owned p h a op'"
proof (cases thread)
  case (DispatchCall i n k)
  moreover assume "thread_advance fresh thread op = Some (thread', UseBegin op')"
  ultimately show ?thesis
    by (cases "dispatch_result op"; cases "the (dispatch_result op)")
      (auto simp: thread_advance_def split: option.splits sum.splits)
qed (auto simp: thread_advance_def fact_defs event_for_def split: option.splits if_splits)

lemma interpreted_owned:
  "operation_owned p h a op \<Longrightarrow> returned_output op = Some out \<Longrightarrow> operation_owned p h a (interpret_output out)"
  by (cases op rule: returned_output.cases) (auto simp: interpret_output_def split: OutputTarget.splits)

lemma owned_operation:
  assumes self: "with_hasher config h = Inr self" and run: "schedule rt_step (runtime_start self) tr s"
    and p: "Suc p < 2 ^ 64" and live: "\<not> list_ex is_remove (applied_effects p (directory_trace tr))"
    and before: "owned (cfg_activation_waiters config) p tr s"
    and op: "ds_operations (rs_directory s) k = Some op"
    and st: "operation_step handled op (ds_directory (rs_directory s)) = (call, op', dir')"
    and s': "ds_operations (rs_directory s') = (ds_operations (rs_directory s))(k \<mapsto> op')"
      "rs_threads s' = rs_threads (run_callback handled call t s)"
    and step: "rt_step s (RtOperation t (spawned handled call), Some (Progress k op call op')) s'"
  shows "owned (cfg_activation_waiters config) p (tr @ [(RtOperation t (spawned handled call), Some (Progress k op call op'))]) s'"
proof -
  let ?l = "(RtOperation t (spawned handled call), Some (Progress k op call op'))"
  let ?limit = "cfg_activation_waiters config" and ?dtr = "directory_trace tr" and ?d = "Progress k op call op'"
  let ?h = "home (claims_made ?dtr) p" and ?h' = "home (claims_made (?dtr @ [?d])) p"
  have dtr: "directory_trace (tr @ [?l]) = ?dtr @ [?d]" by simp
  note dir = runtime_directory [OF run] and dir' = runtime_directory [OF schedule_step [OF run step], unfolded dtr]
  note reach = directory_reaches [OF self dir]
  note own = ownedD [OF before]
  have op_ok: "operation_owned p ?h (slot_id p) op'"
    using operation_step_owned [OF reach(1,4) op own(1) [OF op] st live] .
  have new: "unheard ?limit p (?dtr @ [?d])"
    by (rule unheard_step [OF own(3)]) (use event_label_owned [OF own(1) [OF op]] in blast)
  have grows: "?h = None \<or> ?h' = ?h" using home_grows [of "claims_made ?dtr" p] by simp
  have task_ok: "thread_owned ?h (slot_id p) (TaskRunning task)" if sp: "spawned handled call = Some task" for task
  proof (cases "fst (task_duty task) = slot_id p")
    case True
    from st sp show ?thesis
    proof (cases rule: spawned_source)
      case (1 i q pc e es)
      have "e \<in> set (applied_effects q (?dtr @ [?d]))" using 1(1) by simp
      moreover have "effect_for (slot_id p) e" using 1(2) True by (simp add: effect_for_def)
      ultimately have "q = p" using applied_own [OF self dir' new p] by blast
      then show ?thesis using pointers_ok_operation [OF reach(1) op] 1 by simp
    next
      case (2 i e es)
      then show ?thesis using own(1) [OF op] True by (simp add: effect_for_def)
    qed
  qed simp
  show ?thesis
    unfolding owned_def Let_def dtr
  proof (intro conjI allI impI new)
    fix j o1 assume "ds_operations (rs_directory s') j = Some o1"
    then show "operation_owned p ?h' (slot_id p) o1"
      using s'(1) op_ok own(1) grows operation_owned_mono by (metis fun_upd_apply option.inject)
  next
    fix j th assume "rs_threads s' j = Some th"
    then have "thread_owned ?h (slot_id p) th"
      using s'(2) own(2) task_ok by (auto simp: run_callback_threads split: option.splits if_splits)
    then show "thread_owned ?h' (slot_id p) th" using grows thread_owned_mono by blast
  qed
qed

lemma owned_step:
  assumes self: "with_hasher config h = Inr self" and run: "schedule rt_step (runtime_start self) tr s"
    and step: "rt_step s l s'" and p: "Suc p < 2 ^ 64"
    and live: "\<not> list_ex is_remove (applied_effects p (directory_trace tr))"
    and before: "owned (cfg_activation_waiters config) p tr s"
  shows "owned (cfg_activation_waiters config) p (tr @ [l]) s'"
  using step
proof cases
  case (rt_operation k op handled call op' dir' t)
  from owned_operation [OF self run p live before rt_operation(3,4) _ _ step [unfolded rt_operation(1)]] show ?thesis
    unfolding rt_operation(1) by (simp add: rt_operation(2))
next
  case (rt_advance t thread k op fresh thread' u d ds')
  note own = ownedD(1) [OF before rt_advance(5)]
  have th: "thread_owned h a thread'" for h a
    using advance_not_running [OF rt_advance(7)] by (cases thread') auto
  show ?thesis
  proof (cases u)
    case Leave
    then show ?thesis using rt_advance own th
      by (intro owned_keep [OF before, of s' k "Some op" t "Some thread'"])
        (auto simp: use_operation_def fun_upd_idem)
  next
    case (UseOutput out)
    then show ?thesis
      using rt_advance own th interpreted_owned [OF own thread_uses_output, of fresh thread thread' out]
      by (intro owned_keep [OF before, of s' k "Some (interpret_output out)" t "Some thread'"])
        (auto simp: use_operation_def)
  next
    case (UseBegin op')
    then show ?thesis
      using rt_advance th begun_owned [of fresh thread op thread' op']
      by (intro owned_keep [OF before, of s' fresh "Some op'" t "Some thread'"])
        (auto simp: use_operation_def)
  qed
next
  case (rt_dispatch t k n op i c)
  then show ?thesis
    by (intro owned_keep [OF before, of s' k "Some op" t "Some (DispatchCall i n k)"]) (auto simp: fact_defs)
next
  case (rt_passivate t k op i)
  then show ?thesis
    by (intro owned_keep [OF before, of s' k "Some op" t "Some (PassivateLook i k)"]) (auto simp: fact_defs)
next
  case (rt_poll t wait waker r completion)
  then show ?thesis using ownedD(1) [OF before]
    by (intro owned_keep [OF before, of s' 0 "ds_operations (rs_directory s) 0" t
        "Some (case r of None \<Rightarrow> DispatchWaiting wait | Some result \<Rightarrow> DispatchDone result)"])
      (auto split: option.splits)
next
  case (rt_drop t wait k upgraded cancel)
  show ?thesis
  proof (cases cancel)
    case None
    then show ?thesis using rt_drop ownedD(1) [OF before]
      by (intro owned_keep [OF before, of s' k "ds_operations (rs_directory s) k" t "Some WaitDropped"]) auto
  next
    case (Some op)
    then show ?thesis using rt_drop
      by (intro owned_keep [OF before, of s' k "Some op" t "Some (WaitCancel k)"])
        (auto simp: drop_wait_def fact_defs event_for_def split: if_splits)
  qed
next
  case (rt_answer t task answer completed op k)
  obtain ev where ev: "op = AtFind (task_entity task) ev" "event_duty ev = Some (task_duty task)"
    using event_duty_answer [OF rt_answer(4)] by blast
  show ?thesis using rt_answer ev ownedD(2) [OF before rt_answer(3)]
    by (intro owned_keep [OF before, of s' k "Some op" t "Some (TaskFact k)"]) (auto simp: event_for_def)
qed

lemma removed_later:
  "list_ex is_remove (applied_effects p (directory_trace tr)) \<Longrightarrow>
     list_ex is_remove (applied_effects p (directory_trace (tr @ [l])))"
  by (cases "snd l") auto

lemma all_owned:
  assumes "with_hasher config h = Inr self" and "schedule rt_step (runtime_start self) tr s"
    and "Suc p < 2 ^ 64" and "\<not> list_ex is_remove (applied_effects p (directory_trace tr))"
  shows "owned (cfg_activation_waiters config) p tr s"
  using assms(2,4)
proof (induction tr arbitrary: s rule: rev_induct)
  case Nil
  then show ?case by (auto simp: owned_def Let_def unheard_def runtime_start_def directory_start_def)
next
  case (snoc l tr)
  from snoc.prems obtain s0 where s0: "schedule rt_step (runtime_start self) tr s0" "rt_step s0 l s" by auto
  have live: "\<not> list_ex is_remove (applied_effects p (directory_trace tr))"
    using snoc.prems(2) removed_later by blast
  show ?case by (rule owned_step [OF assms(1) s0 assms(3) live snoc.IH [OF s0(1) live]])
qed

end
