(* ===== verification/Runtime_Progress.thy ===== *)
theory Runtime_Progress
  imports Runtime_Ownership
begin

section \<open>Every duty is carried\<close>

text \<open>
  The conservation law of the whole system: while an incarnation has not been removed, what its slot
  waits for is, duty by duty, what is about to be handed to the runtime, running as a task, or on its
  way back as a fact.  Nothing is lost and nothing is done twice, so no entity is ever stranded.
\<close>

subsection \<open>Callbacks that return\<close>

fun returned_label :: "('i, 'c, 'e, 'l) RuntimeLabel \<Rightarrow> bool" where
  "returned_label (RtOperation t sp, Some (Progress k op call op')) = (sp = spawned None call)"
| "returned_label _ = True"

definition callbacks_return :: "('i, 'c, 'e, 'l) RuntimeLabel list \<Rightarrow> bool" where
  "callbacks_return tr \<longleftrightarrow> list_all returned_label tr \<and> \<not> list_ex callback_panic (directory_trace tr)"

lemma callbacks_return_snoc:
  "callbacks_return (tr @ [l]) \<longleftrightarrow> callbacks_return tr \<and> returned_label l \<and>
     (case snd l of None \<Rightarrow> True | Some d \<Rightarrow> \<not> callback_panic d)"
  by (auto simp: callbacks_return_def split: option.splits)

text \<open>Then every call of a duty spawns its task.\<close>

lemma spawned_None: "map_option task_duty (spawned None call) = Option.bind call call_duty"
  by (cases call; cases "the call") (auto simp: spawned_def)

lemma spawn_is_call:
  assumes "rt_step s l s'" and "returned_label l"
  shows "spawn_label x l \<longleftrightarrow> (case snd l of None \<Rightarrow> False | Some d \<Rightarrow> call_label x d)"
  using assms(1)
proof cases
  case (rt_operation k op handled call op' dir' t)
  then have "map_option task_duty (spawned handled call) = Option.bind call call_duty"
    using assms(2) spawned_None by simp
  then show ?thesis using rt_operation by (cases "spawned handled call") auto
next
  case (rt_advance t thread k op fresh thread' u d ds')
  then show ?thesis by (cases u) (auto simp: use_operation_def)
next
  case (rt_drop t wait k upgraded cancel)
  then show ?thesis by (cases cancel) auto
qed auto

lemma spawned_calls:
  "schedule rt_step (runtime_start self) tr s \<Longrightarrow> callbacks_return tr \<Longrightarrow>
     spawned_tasks x tr = calls x (directory_trace tr)"
proof (induction tr arbitrary: s rule: rev_induct)
  case (snoc l tr)
  then show ?case by (auto simp: callbacks_return_snoc spawn_is_call split: option.splits)
qed simp

subsection \<open>Calls are the applied effects\<close>

fun next_effect :: "('i, 'c, 'e, 'l) Operation \<Rightarrow> ('c, 'e, 'l) SlotEffect option" where
  "next_effect (AtInterpret i q pc (e # es)) = Some e"
| "next_effect (AtTransient i (e # es)) = Some e"
| "next_effect _ = None"

lemma call_next_effect:
  assumes "operation_step handled op self = (call, op', self')"
  shows "Option.bind call call_duty = Option.bind (next_effect op) effect_duty"
proof (cases op)
  case (AtInterpret i q pc effects)
  show ?thesis
  proof (cases effects)
    case (Cons e es)
    obtain c r where app: "apply_effect i (Some q) e (dir_shards self) = (c, r)" by fastforce
    then have "c = call" using assms(1) AtInterpret Cons by (auto simp: Let_def split: prod.splits option.splits)
    then show ?thesis using call_effect_duty [OF app] AtInterpret Cons by simp
  qed (use assms(1) AtInterpret in \<open>auto simp: Let_def split: prod.splits\<close>)
next
  case (AtTransient i effects)
  show ?thesis
  proof (cases effects)
    case (Cons e es)
    obtain c r where app: "apply_effect i None e (dir_shards self) = (c, r)" by fastforce
    then have "c = call" using assms(1) AtTransient Cons by (auto simp: Let_def split: prod.splits option.splits)
    then show ?thesis using call_effect_duty [OF app] AtTransient Cons by simp
  qed (use assms(1) AtTransient in auto)
qed (use assms(1) in \<open>auto split: prod.splits option.splits sum.splits\<close>)

lemma calls_applied:
  assumes "with_hasher config h = Inr self" and "schedule rt_step (runtime_start self) tr s"
    and "Suc p < 2 ^ 64" and "\<not> list_ex is_remove (applied_effects p (directory_trace tr))"
  shows "calls (slot_id p, k) (directory_trace tr) = duties (slot_id p, k) (applied_effects p (directory_trace tr))"
  using assms(2,4)
proof (induction tr arbitrary: s rule: rev_induct)
  case (snoc l tr)
  let ?x = "(slot_id p, k)" and ?dtr = "directory_trace tr"
  from snoc.prems obtain s0 where s0: "schedule rt_step (runtime_start self) tr s0" "rt_step s0 l s" by auto
  have live: "\<not> list_ex is_remove (applied_effects p ?dtr)" using snoc.prems(2) removed_later by blast
  have one: "(if call_label ?x d then 1 else 0) = duties ?x (applied_label p d)" if l: "snd l = Some d" for d
  proof (cases d)
    case (Progress j op call op')
    have "directory_trace (tr @ [l]) = ?dtr @ [d]" using l by simp
    then have dir: "schedule dir_step (directory_start self) (?dtr @ [d]) (rs_directory s)"
      using runtime_directory [OF snoc.prems(1)] by simp
    have unheard: "unheard (cfg_activation_waiters config) p (?dtr @ [d])"
      using ownedD(3) [OF all_owned [OF assms(1) snoc.prems(1) assms(3) snoc.prems(2)]] l by simp
    have op: "ds_operations (rs_directory s0) j = Some op"
      "\<exists>handled. operation_step handled op (ds_directory (rs_directory s0)) = (call, op', ds_directory (rs_directory s))"
      using rt_step_directory [OF s0(2)] l Progress by auto
    then have duty: "Option.bind call call_duty = Option.bind (next_effect op) effect_duty"
      using call_next_effect by blast
    have own: "operation_owned p (home (claims_made ?dtr) p) (slot_id p) op"
      by (rule ownedD(1) [OF all_owned [OF assms(1) s0(1) assms(3) live] op(1)])
    show ?thesis
    proof (cases op rule: next_effect.cases)
      case (1 i q pc e es)
      have "q = p" if "effect_duty e = Some ?x"
        using applied_own [OF assms(1) dir unheard assms(3), of e q] 1 Progress that by (auto simp: effect_for_def)
      then show ?thesis using 1 Progress duty by auto
    next
      case (2 i e es)
      then show ?thesis using own duty Progress by (auto simp: effect_for_def)
    qed (use Progress duty in auto)
  qed auto
  then show ?case
    using snoc.IH [OF s0(1) live] by (auto split: option.splits)
qed simp

subsection \<open>No fact is lost\<close>

lemma nothing_lost:
  assumes self: "with_hasher config h = Inr self" and run: "schedule rt_step (runtime_start self) tr s"
    and step: "rt_step s l s'" and p: "Suc p < 2 ^ 64"
    and live: "\<not> list_ex is_remove (applied_effects p (directory_trace tr))"
  shows "lost (cfg_activation_waiters config) p (slot_id p, k) l = 0"
proof (cases "snd l")
  case (Some d)
  let ?x = "(slot_id p, k)" and ?dtr = "directory_trace tr" and ?self = "ds_directory (rs_directory s)"
  note reach = directory_reaches [OF self runtime_directory [OF run]]
  show ?thesis
  proof (cases d)
    case (Progress j op call op')
    obtain handled where op: "ds_operations (rs_directory s) j = Some op"
      "operation_step handled op ?self = (call, op', ds_directory (rs_directory s'))"
      using rt_step_directory [OF step] Some Progress by auto
    have own: "operation_owned p (home (claims_made ?dtr) p) (slot_id p) op"
      by (rule ownedD(1) [OF all_owned [OF self run p live] op(1)])
    consider (find) i ev where "op = AtFind i ev" "event_duty ev = Some ?x"
      | (submit) q i ev where "op = AtSubmitTo q i ev" "event_duty ev = Some ?x"
      | (none) "\<not> carries ?x (Some op)"
      by (cases "(?x, Some op)" rule: carries.cases) auto
    then show ?thesis
    proof cases
      case find
      have here: "home (claims_made ?dtr) p = Some i" using own find by (simp add: event_for_def)
      then have "shard_entry (dir_shards ?self) i = Some p"
        using reach(4) live by (auto simp: entries_exact_def home_def split: if_splits)
      then have "op' = AtSubmitTo p i ev"
        using op(2) find(1) lock_shard_ok [OF pointers_ok_facts(1) [OF reach(1)], of i] by (simp add: shard_entry_def)
      then show ?thesis using Some Progress find by (simp add: lost_def)
    next
      case submit
      have q: "q = p" using own submit by (simp add: event_for_def)
      have claimed: "p < length (claims_made ?dtr)"
        using pointers_ok_operation [OF reach(1) op(1)] submit(1) q by (simp add: home_def split: if_splits)
      obtain r self' where sub: "submit_at p ev ?self = (r, self')" by fastforce
      obtain e where "r = Inr e" using pointers_submit [OF reach(1) claimed sub] by blast
      then show ?thesis using op(2) submit q sub Some Progress by (cases e) (auto simp: lost_def)
    next
      case none
      then show ?thesis using Some Progress by (simp add: lost_def)
    qed
  qed (use Some in \<open>simp_all add: lost_def\<close>)
qed (simp add: lost_def)

lemma facts_balance:
  assumes "with_hasher config h = Inr self" and "schedule rt_step (runtime_start self) tr s"
    and "Suc p < 2 ^ 64" and "\<not> list_ex is_remove (applied_effects p (directory_trace tr))"
  shows "card (facts_of (slot_id p, k) s) +
      answers (slot_id p, k) (slot_events (cfg_activation_waiters config) p (directory_trace tr)) =
    answered_tasks (slot_id p, k) tr"
  using assms(2,4)
proof (induction tr arbitrary: s rule: rev_induct)
  case Nil
  then show ?case by (simp add: facts_of_def runtime_start_def directory_start_def)
next
  case (snoc l tr)
  let ?x = "(slot_id p, k)" and ?limit = "cfg_activation_waiters config"
  from snoc.prems obtain s0 where s0: "schedule rt_step (runtime_start self) tr s0" "rt_step s0 l s" by auto
  have live: "\<not> list_ex is_remove (applied_effects p (directory_trace tr))" using snoc.prems(2) removed_later by blast
  have fin: "finite (facts_of ?x s0)"
    by (rule duty_accountsD(2) [OF duty_schedule.inv_schedule [OF s0(1), of ?limit]])
  show ?case
    using snoc.IH [OF s0(1) live] facts_step(2) [OF fin s0(2), of ?limit p]
      nothing_lost [OF assms(1) s0 assms(3) live, of k]
    unfolding submitted_events task_count_simps by (simp split: if_splits)
qed

text \<open>What was handed over for an incarnation is running, on its way, or submitted to its slot.\<close>

lemma duty_balance:
  assumes "with_hasher config h = Inr self" and "schedule rt_step (runtime_start self) tr s"
    and "Suc p < 2 ^ 64" and "\<not> list_ex is_remove (applied_effects p (directory_trace tr))"
    and "callbacks_return tr"
  shows "card (tasks_of (slot_id p, k) s) + card (facts_of (slot_id p, k) s) +
      answers (slot_id p, k) (slot_events (cfg_activation_waiters config) p (directory_trace tr)) =
    duties (slot_id p, k) (applied_effects p (directory_trace tr))"
  using facts_balance [OF assms(1-4), of k] calls_applied [OF assms(1-4), of k] spawned_calls [OF assms(2,5), of "(slot_id p, k)"]
    duty_accountsD(3) [OF duty_schedule.inv_schedule [OF assms(2)], of "(slot_id p, k)"] by linarith

subsection \<open>The balance of a slot\<close>

lemma duties_subseq: "subseq xs ys \<Longrightarrow> duties x xs \<le> duties x ys"
  unfolding duties_def by (rule list_emb_length [OF subseq_filter])

lemma event_label_length: "length (event_label limit p d) \<le> 1"
  by (cases "(limit, p, d)" rule: event_label.cases) (auto split: OutputTarget.splits option.splits)

lemma event_label_one: "event_label limit p d = [] \<or> (\<exists>ev. event_label limit p d = [ev])"
  using event_label_length [of limit p d] by (cases "event_label limit p d") auto

lemma submitted_fact:
  assumes "event_label limit p (Progress j op call op') = [ev]" and "event_duty ev = Some x"
  shows "carries x (Some op)"
  using assms
  by (cases "(limit, p, Progress j op call op')" rule: event_label.cases)
    (auto split: OutputTarget.splits option.splits if_splits)

lemma slot_balanced:
  assumes self: "with_hasher config h = Inr self" and "schedule rt_step (runtime_start self) tr s"
    and "p < length (claims_made (directory_trace tr))"
    and "\<not> list_ex is_remove (applied_effects p (directory_trace tr))"
    and "callbacks_return tr"
    and "decide_all Inactive (slot_events (cfg_activation_waiters config) p (directory_trace tr)) = Inr d"
  shows "balanced (slot_id p) (slot_events (cfg_activation_waiters config) p (directory_trace tr)) d"
  using assms(2-)
proof (induction tr arbitrary: s d rule: rev_induct)
  case (snoc l tr)
  let ?a = "slot_id p" and ?limit = "cfg_activation_waiters config" and ?dtr = "directory_trace tr"
  from snoc.prems obtain s0 where s0: "schedule rt_step (runtime_start self) tr s0" "rt_step s0 l s" by auto
  have live: "\<not> list_ex is_remove (applied_effects p ?dtr)" using snoc.prems(3) removed_later by blast
  have ret: "callbacks_return tr" using snoc.prems(4) by (simp add: callbacks_return_snoc)
  note dir = runtime_directory [OF s0(1)] and reach = directory_reaches [OF self runtime_directory [OF s0(1)]]
    and reach' = directory_reaches [OF self runtime_directory [OF snoc.prems(1)]]
  have bound: "Suc p < 2 ^ 64" by (rule claims_bound [OF reach'(1) snoc.prems(2)])
  obtain j c evs where evs: "slot_events ?limit p (directory_trace (tr @ [l])) = ClaimActivation ?a j c ?limit # evs" "unclaimed evs"
    using reach'(3) snoc.prems(2) by (auto simp: claims_once_def slot_id_def)
  show ?case
  proof (cases "p < length (claims_made ?dtr)")
    case False
    then have "slot_events ?limit p ?dtr = []" using reach(2) by (simp add: slots_ok_def)
    then have "length (slot_events ?limit p (directory_trace (tr @ [l]))) \<le> 1"
      using event_label_length [of ?limit p] by (auto split: option.splits)
    then have "evs = []" using evs(1) by simp
    then show ?thesis using balanced_claim snoc.prems(5) evs(1) by simp
  next
    case True
    obtain evs0 where evs0: "slot_events ?limit p ?dtr = ClaimActivation ?a j c ?limit # evs0"
      using reach(3) True evs(1) by (cases "snd l") (auto simp: claims_once_def slot_id_def)
    show ?thesis
    proof (rule slot_life [OF self dir True])
      fix d0 rest
      assume d0: "decide_all Inactive (slot_events ?limit p ?dtr) = Inr d0"
        "subseq (applied_effects p ?dtr) (as_slice (dec_effects d0))"
      note IH = snoc.IH [OF s0(1) True live ret d0(1)]
      show ?thesis
      proof (cases "slot_events ?limit p (directory_trace (tr @ [l])) = slot_events ?limit p ?dtr")
        case same: True
        then show ?thesis using IH d0(1) snoc.prems(5) by simp
      next
        case False
        then obtain e where e: "snd l = Some e" "event_label ?limit p e \<noteq> []" by (cases "snd l") auto
        then obtain ev where l: "snd l = Some e" "event_label ?limit p e = [ev]"
          using event_label_one [of ?limit p e] by blast
        then have snoc_ev: "slot_events ?limit p (directory_trace (tr @ [l])) = slot_events ?limit p ?dtr @ [ev]"
          by simp
        have unc: "unclaimed evs0" "\<And>b. \<not> claims b ev" using evs evs0 snoc_ev by auto
        have state: "dec_state d0 = Inactive \<or> slot_activation_id (dec_state d0) = Some ?a"
          using claimed_stream(3) d0(1) evs0 unc(1) by simp
        have "0 < owed (dec_state d0) (?a, k)" if "event_duty ev = Some (?a, k)" for k
        proof -
          obtain i op call op' where e: "e = Progress i op call op'" using l(2) by (cases e) auto
          have "ds_operations (rs_directory s0) i = Some op" using rt_step_directory [OF s0(2)] l(1) e by auto
          then have "i \<in> facts_of (?a, k) s0" using submitted_fact [OF l(2) [unfolded e] that] by (simp add: facts_of_def)
          then have "0 < card (facts_of (?a, k) s0)"
            using duty_accountsD(2) [OF duty_schedule.inv_schedule [OF s0(1)]] card_gt_0_iff by blast
          then show ?thesis
            using duty_balance [OF self s0(1) bound live ret, of k] duties_subseq [OF d0(2), of "(?a, k)"]
              IH [unfolded balanced_def, rule_format, of k] by linarith
        qed
        then show ?thesis
          using balanced_snoc [OF IH d0(1) _ state unc(2)] snoc.prems(5) snoc_ev by auto
      qed
    qed
  qed
qed simp

subsection \<open>Properties\<close>

lemma represented_live:
  assumes "with_hasher config h = Inr self" and "schedule dir_step (directory_start self) tr s"
    and "p < length (claims_made tr)"
    and "shard_entry (dir_shards (ds_directory s)) (fst (claims_made tr ! p)) = Some p"
  shows "\<not> list_ex is_remove (applied_effects p tr)"
  using directory_reaches(4) [OF assms(1,2)] assms(3,4) by (simp add: entries_exact_def)

lemma duties_carried:
  assumes "with_hasher config h = Inr self" and "schedule rt_step (runtime_start self) tr s"
    and "callbacks_return tr" and "p < length (claims_made (directory_trace tr))"
    and "shard_entry (dir_shards (ds_directory (rs_directory s))) (fst (claims_made (directory_trace tr) ! p)) = Some p"
  obtains d rest where "decide_all Inactive (slot_events (cfg_activation_waiters config) p (directory_trace tr)) = Inr d"
    "represents (dir_slots (ds_directory (rs_directory s)) ! p) (dec_state d)"
    "rest_is (rs_directory s) p rest"
    "as_slice (dec_effects d) = applied_effects p (directory_trace tr) @ rest @
       output_effects (le_outputs (guarded (dir_slots (ds_directory (rs_directory s)) ! p)))"
    "filter is_remove (as_slice (dec_effects d)) = (if dec_state d = Inactive then [Remove (slot_id p)] else [])"
    "\<And>k. card (tasks_of (slot_id p, k) s) + card (facts_of (slot_id p, k) s) +
       duties (slot_id p, k) (rest @ output_effects (le_outputs (guarded (dir_slots (ds_directory (rs_directory s)) ! p)))) =
       owed (dec_state d) (slot_id p, k)"
proof -
  note dir = runtime_directory [OF assms(2)]
  note live = represented_live [OF assms(1) dir assms(4,5)]
  have bound: "Suc p < 2 ^ 64" by (rule claims_bound [OF directory_reaches(1) [OF assms(1) dir] assms(4)])
  have quiet: "\<not> list_ex callback_panic (directory_trace tr)" using assms(3) by (simp add: callbacks_return_def)
  show thesis
  proof (rule slot_life [OF assms(1) dir assms(4)])
    fix d rest
    assume d: "decide_all Inactive (slot_events (cfg_activation_waiters config) p (directory_trace tr)) = Inr d"
      "represents (dir_slots (ds_directory (rs_directory s)) ! p) (dec_state d)"
      "rest_is (rs_directory s) p rest"
      "\<not> list_ex callback_panic (directory_trace tr) \<Longrightarrow>
         as_slice (dec_effects d) = applied_effects p (directory_trace tr) @ rest @
         output_effects (le_outputs (guarded (dir_slots (ds_directory (rs_directory s)) ! p)))"
      "filter is_remove (as_slice (dec_effects d)) =
         (if dec_state d = Inactive then [Remove (ActivationId (nz (of_nat (Suc p))))] else [])"
    note effects = d(4) [OF quiet]
    note balance = slot_balanced [OF assms(1,2,4) live assms(3) d(1), unfolded balanced_def effects duties_simps(3)]
    show thesis
    proof (rule that [OF d(1-3) effects])
      show "filter is_remove (as_slice (dec_effects d)) = (if dec_state d = Inactive then [Remove (slot_id p)] else [])"
        using d(5) by (simp add: slot_id_def)
    next
      fix k
      show "card (tasks_of (slot_id p, k) s) + card (facts_of (slot_id p, k) s) +
         duties (slot_id p, k) (rest @ output_effects (le_outputs (guarded (dir_slots (ds_directory (rs_directory s)) ! p)))) =
         owed (dec_state d) (slot_id p, k)"
        using duty_balance [OF assms(1,2) bound live assms(3), of k] balance [rule_format, of k]
        unfolding duties_simps(3) by linarith
    qed
  qed
qed

text \<open>When every operation is at rest, the duties of a slot are the tasks that run for it.\<close>

lemma rested_tasks:
  assumes "with_hasher config h = Inr self" and "schedule rt_step (runtime_start self) tr s"
    and "callbacks_return tr" and "p < length (claims_made (directory_trace tr))"
    and "shard_entry (dir_shards (ds_directory (rs_directory s))) (fst (claims_made (directory_trace tr) ! p)) = Some p"
    and "\<And>k op. ds_operations (rs_directory s) k = Some op \<Longrightarrow> at_rest op"
  obtains st where "represents (dir_slots (ds_directory (rs_directory s)) ! p) st" "st \<noteq> Inactive"
    "slot_activation_id st = Some (slot_id p)"
    "\<And>k. card (tasks_of (slot_id p, k) s) = owed st (slot_id p, k)"
    "\<And>k. owed st (slot_id p, k) = 1 \<Longrightarrow> \<exists>!t. t \<in> tasks_of (slot_id p, k) s"
  using assms(1-5)
proof (rule duties_carried)
  fix d rest
  let ?slot = "dir_slots (ds_directory (rs_directory s)) ! p"
  assume d: "decide_all Inactive (slot_events (cfg_activation_waiters config) p (directory_trace tr)) = Inr d"
    "represents ?slot (dec_state d)" "rest_is (rs_directory s) p rest"
    "as_slice (dec_effects d) = applied_effects p (directory_trace tr) @ rest @ output_effects (le_outputs (guarded ?slot))"
    "filter is_remove (as_slice (dec_effects d)) = (if dec_state d = Inactive then [Remove (slot_id p)] else [])"
    "\<And>k. card (tasks_of (slot_id p, k) s) + card (facts_of (slot_id p, k) s) +
       duties (slot_id p, k) (rest @ output_effects (le_outputs (guarded ?slot))) = owed (dec_state d) (slot_id p, k)"
  note dir = runtime_directory [OF assms(2)]
  have quiet: "\<not> list_ex callback_panic (directory_trace tr)" using assms(3) by (simp add: callbacks_return_def)
  note rested = rested_applied [OF assms(1) dir assms(4) quiet assms(6) d(3)]
  have facts: "facts_of (slot_id p, k) s = {}" for k
    using assms(6) by (fastforce simp: facts_of_def elim!: carries.elims)
  have tasks: "card (tasks_of (slot_id p, k) s) = owed (dec_state d) (slot_id p, k)" for k
    using d(6) [of k] by (simp add: rested facts)
  have one: "\<exists>!t. t \<in> tasks_of (slot_id p, k) s" if "owed (dec_state d) (slot_id p, k) = 1" for k
    using tasks [of k] that by (metis card_1_singletonE empty_iff insert_iff)
  have "\<not> list_ex is_remove (as_slice (dec_effects d))"
    using represented_live [OF assms(1) dir assms(4,5)] d(4) by (simp add: rested)
  then have live: "dec_state d \<noteq> Inactive" using d(5) by (auto simp: list_ex_iff filter_empty_conv split: if_splits)
  have "dec_state d = Inactive \<or> slot_activation_id (dec_state d) = Some (slot_id p)"
    using directory_reaches(3) [OF assms(1) dir] assms(4) claimed_stream(3) d(1)
    by (fastforce simp: claims_once_def slot_id_def)
  then have "slot_activation_id (dec_state d) = Some (slot_id p)" using live by simp
  from that [OF d(2) live this tasks one] show ?thesis .
qed

text \<open>
  C6: Every duty is carried, exactly once: while callbacks return, at every moment of every
  interleaving of calls, cancellations, tasks and callbacks, and for every entity the directory
  represents, what the slot waits for (one activation, its
  unresolved deliveries, one fence, or one retirement) is the number of tasks running for it, plus its
  facts on their way, plus its effects decided but not handed over yet.
\<close>

theorem every_duty_is_carried:
  assumes "with_hasher config h = Inr self" and "schedule rt_step (runtime_start self) tr s"
    and "callbacks_return tr" and "p < length (claims_made (directory_trace tr))"
    and "shard_entry (dir_shards (ds_directory (rs_directory s))) (fst (claims_made (directory_trace tr) ! p)) = Some p"
  shows "\<exists>d rest. decide_all Inactive (slot_events (cfg_activation_waiters config) p (directory_trace tr)) = Inr d \<and>
     represents (dir_slots (ds_directory (rs_directory s)) ! p) (dec_state d) \<and> rest_is (rs_directory s) p rest \<and>
     (\<forall>k. card (tasks_of (slot_id p, k) s) + card (facts_of (slot_id p, k) s) +
        duties (slot_id p, k) (rest @ output_effects (le_outputs (guarded (dir_slots (ds_directory (rs_directory s)) ! p)))) =
        owed (dec_state d) (slot_id p, k))"
  by (rule duties_carried [OF assms]) blast

text \<open>
  C7: No entity is ever stranded: once every operation begun has returned and its output was
  interpreted, a represented entity is in one of its live phases, and what it waits for is running:
  one activation task while it is activating, one delivery task per reservation while it is active,
  the remaining delivery tasks or one fence task while it drains, one retirement task while it
  retires. So it can always be driven on by an answer of the actor runtime.
\<close>

theorem no_entity_is_stranded:
  assumes "with_hasher config h = Inr self" and "schedule rt_step (runtime_start self) tr s"
    and "callbacks_return tr" and "p < length (claims_made (directory_trace tr))"
    and "shard_entry (dir_shards (ds_directory (rs_directory s))) (fst (claims_made (directory_trace tr) ! p)) = Some p"
    and "\<And>k op. ds_operations (rs_directory s) k = Some op \<Longrightarrow> at_rest op"
  shows "\<exists>st. represents (dir_slots (ds_directory (rs_directory s)) ! p) st \<and>
     (case st of
        Inactive \<Rightarrow> False
      | Activating _ \<Rightarrow> \<exists>!t. t \<in> tasks_of (slot_id p, DutyActivation) s
      | Active active \<Rightarrow>
          card (tasks_of (slot_id p, DutyDelivery) s) = reservation_number (ac_reservations active)
      | Draining draining \<Rightarrow>
          (case dr_progress draining of
             Reservations n \<Rightarrow> card (tasks_of (slot_id p, DutyDelivery) s) = unat (nz_get n)
           | FenceAcknowledgement \<Rightarrow> \<exists>!t. t \<in> tasks_of (slot_id p, DutyFence) s)
      | Retiring _ \<Rightarrow> \<exists>!t. t \<in> tasks_of (slot_id p, DutyRetirement) s)"
proof (rule rested_tasks [OF assms])
  fix st
  assume st: "represents (dir_slots (ds_directory (rs_directory s)) ! p) st" "st \<noteq> Inactive"
    "slot_activation_id st = Some (slot_id p)" "\<And>k. card (tasks_of (slot_id p, k) s) = owed st (slot_id p, k)"
    "\<And>k. owed st (slot_id p, k) = 1 \<Longrightarrow> \<exists>!t. t \<in> tasks_of (slot_id p, k) s"
  show ?thesis
    using st by (cases st) (auto split: DrainProgress.splits)
qed

subsection \<open>Instances\<close>

text \<open>The driver begins operations only under the keys its choices name.\<close>

fun begins :: "('i, 'c, 'e, 'l) Choice \<Rightarrow> nat \<Rightarrow> bool" where
  "begins (ChooseDispatch t k i c) j = (j = k)"
| "begins (ChoosePassivate t k i) j = (j = k)"
| "begins (ChooseOperation k t) j = False"
| "begins (ChooseAdvance t fresh) j = (j = fresh)"
| "begins (ChooseAnswer t k answer) j = (j = k)"

lemma pick_begins:
  assumes "pick ch s = Some (l, s')" and "\<not> begins ch j" and "ds_operations (rs_directory s) j = None"
  shows "ds_operations (rs_directory s') j = None"
proof (cases ch)
  case (ChooseAdvance t fresh)
  then show ?thesis using assms
    by (auto simp: Let_def use_operation_def split: option.splits if_splits prod.splits OperationUse.splits)
next
  case (ChooseAnswer t k answer)
  then show ?thesis using assms by (auto split: option.splits Thread.splits if_splits)
qed (use assms in \<open>auto simp: Let_def split: option.splits if_splits prod.splits\<close>)

lemma pick_all_begins:
  "pick_all chs s = Some (tr, s') \<Longrightarrow> \<forall>ch\<in>set chs. \<not> begins ch j \<Longrightarrow>
     ds_operations (rs_directory s) j = None \<Longrightarrow> ds_operations (rs_directory s') j = None"
  by (induction chs arbitrary: s tr) (fastforce split: option.splits prod.splits dest: pick_begins)+

text \<open>The path to the fence, continued until every operation is at rest.\<close>

definition resting_path :: "(u64, nat, nat, nat) Choice list" where
  "resting_path = sample_path @
     [ChooseOperation 0 61, ChooseOperation 0 61,
      ChooseAdvance 1 99, ChooseAdvance 2 99, ChooseAdvance 3 99,
      ChooseOperation 1 61, ChooseOperation 1 61, ChooseOperation 2 61, ChooseOperation 2 61,
      ChooseOperation 4 61, ChooseOperation 4 61]"

definition rested_on :: "nat list \<Rightarrow> ('i, 'c, 'e, 'l) RuntimeSystem \<Rightarrow> bool" where
  "rested_on ks s \<longleftrightarrow>
     list_all (\<lambda>k. case ds_operations (rs_directory s) k of None \<Rightarrow> True | Some op \<Rightarrow> at_rest op) ks"

text \<open>Entity 5 lives in slot 0, and its slot waits for a fence.\<close>

definition fence_awaited ::
  "(u64, nat, nat, nat) RuntimeLabel list \<Rightarrow> (u64, nat, nat, nat) RuntimeSystem \<Rightarrow> bool" where
  "fence_awaited tr s \<longleftrightarrow>
     list_all returned_label tr \<and> \<not> list_ex callback_panic (directory_trace tr) \<and>
     map fst (claims_made (directory_trace tr)) = [EntityId 5] \<and>
     shard_entry (dir_shards (ds_directory (rs_directory s))) (EntityId 5) = Some 0 \<and>
     (case le_machine (guarded (dir_slots (ds_directory (rs_directory s)) ! 0)) of
        LmPoisoned \<Rightarrow> False | LmReady m \<Rightarrow> owed (base_state m) (slot_id 0, DutyFence) = 1)"

lemma resting_run:
  "case with_hasher sample_config sample_hash of Inl (_ :: nat PendingCommand DirectoryError) \<Rightarrow> False
   | Inr self \<Rightarrow>
       (case pick_all resting_path (runtime_start self) of None \<Rightarrow> False
        | Some (tr, s) \<Rightarrow> fence_awaited tr s \<and> rested_on [0, 1, 2, 3, 4, 99] s)"
  by code_simp

lemma fencing_run:
  "case with_hasher sample_config sample_hash of Inl (_ :: nat PendingCommand DirectoryError) \<Rightarrow> False
   | Inr self \<Rightarrow>
       (case pick_all (take 21 sample_path) (runtime_start self) of None \<Rightarrow> False
        | Some (tr, s) \<Rightarrow> fence_awaited tr s)"
  by code_simp

lemma fence_awaitedD:
  assumes "fence_awaited tr s"
  shows "callbacks_return tr" and "0 < length (claims_made (directory_trace tr))"
    and "shard_entry (dir_shards (ds_directory (rs_directory s))) (fst (claims_made (directory_trace tr) ! 0)) = Some 0"
    and "represents (dir_slots (ds_directory (rs_directory s)) ! 0) st \<Longrightarrow> owed st (slot_id 0, DutyFence) = 1"
proof -
  have "claims_made (directory_trace tr) \<noteq> []" "fst (hd (claims_made (directory_trace tr))) = EntityId 5"
    using assms by (auto simp: fence_awaited_def)
  then have "fst (claims_made (directory_trace tr) ! 0) = EntityId 5" "0 < length (claims_made (directory_trace tr))"
    by (simp_all add: hd_conv_nth)
  with assms show "callbacks_return tr" "0 < length (claims_made (directory_trace tr))"
    "shard_entry (dir_shards (ds_directory (rs_directory s))) (fst (claims_made (directory_trace tr) ! 0)) = Some 0"
    "represents (dir_slots (ds_directory (rs_directory s)) ! 0) st \<Longrightarrow> owed st (slot_id 0, DutyFence) = 1"
    by (auto simp: fence_awaited_def callbacks_return_def represents_def)
qed

theorem every_duty_is_carried_witness:
  "\<exists>(self :: (u64, nat PendingCommand, nat, nat) LocalDirectory) tr s rest.
     with_hasher sample_config sample_hash = Inr self \<and> schedule rt_step (runtime_start self) tr s \<and>
     rest_is (rs_directory s) 0 rest \<and>
     card (tasks_of (slot_id 0, DutyFence) s) + card (facts_of (slot_id 0, DutyFence) s) +
       duties (slot_id 0, DutyFence)
         (rest @ output_effects (le_outputs (guarded (dir_slots (ds_directory (rs_directory s)) ! 0)))) = 1"
proof -
  obtain self :: "(u64, nat PendingCommand, nat, nat) LocalDirectory" and tr s where
    run: "with_hasher sample_config sample_hash = Inr self"
    "pick_all (take 21 sample_path) (runtime_start self) = Some (tr, s)" "fence_awaited tr s"
    using fencing_run by (auto split: sum.splits option.splits)
  note schedule = pick_all_schedule [OF run(2)] and awaited = fence_awaitedD [OF run(3)]
  show ?thesis
    using every_duty_is_carried [OF run(1) schedule awaited(1-3)] run(1) schedule awaited(4) by metis
qed

theorem no_entity_is_stranded_witness:
  "\<exists>(self :: (u64, nat PendingCommand, nat, nat) LocalDirectory) tr s t.
     with_hasher sample_config sample_hash = Inr self \<and> schedule rt_step (runtime_start self) tr s \<and>
     tasks_of (slot_id 0, DutyFence) s = {t}"
proof -
  obtain self :: "(u64, nat PendingCommand, nat, nat) LocalDirectory" and tr s where
    run: "with_hasher sample_config sample_hash = Inr self"
    "pick_all resting_path (runtime_start self) = Some (tr, s)" "fence_awaited tr s" "rested_on [0, 1, 2, 3, 4, 99] s"
    using resting_run by (auto split: sum.splits option.splits)
  note schedule = pick_all_schedule [OF run(2)] and awaited = fence_awaitedD [OF run(3)]
  have rest: "at_rest op" if "ds_operations (rs_directory s) k = Some op" for k op
  proof (cases "k \<in> {0, 1, 2, 3, 4, 99}")
    case True
    then show ?thesis using run(4) that by (auto simp: rested_on_def split: option.splits)
  next
    case False
    then have "ds_operations (rs_directory s) k = None"
      by (intro pick_all_begins [OF run(2)])
        (auto simp: resting_path_def sample_path_def runtime_start_def directory_start_def)
    then show ?thesis using that by simp
  qed
  have "\<exists>!t. t \<in> tasks_of (slot_id 0, DutyFence) s"
  proof (rule no_entity_is_stranded [OF run(1) schedule awaited(1-3), THEN exE], goal_cases)
    case (1 k op)
    then show ?case by (rule rest)
  next
    case (2 st)
    then show ?case using awaited(4) [of st] by (cases st) (auto split: DrainProgress.splits if_splits)
  qed
  then obtain t where "tasks_of (slot_id 0, DutyFence) s = {t}" by blast
  then show ?thesis using run(1) schedule by blast
qed

end
