(* ===== verification/Directory_Commands.thy ===== *)
theory Directory_Commands
  imports Directory_Served
begin

section \<open>The directory conserves commands\<close>

text \<open>
  What a dispatch brings in is at every moment in exactly one place: in the operation that carries it,
  among the waiters of a slot, in an output of a slot, in an output under interpretation, or it was
  handed to the runtime in one call.  The places are counted twice: for every command, whatever
  becomes of it (\<open>every\<close>), and only for commands that were not delivered yet, together with
  the entity they are for.
\<close>

subsection \<open>Sums over keys and slots\<close>

text \<open>What is left of a conserved quantity, and when nothing is missing.\<close>

definition within :: "bool \<Rightarrow> 'a multiset \<Rightarrow> 'a multiset \<Rightarrow> bool" where
  "within exact X Y \<longleftrightarrow> X \<subseteq># Y \<and> (exact \<longrightarrow> X = Y)"

lemma within_refl [simp]: "within b X X"
  by (simp add: within_def)

lemma within_add: "within b X Y \<Longrightarrow> within b (X + Z) (Y + Z)"
  by (simp add: within_def)

lemma within_trans: "within b X Y \<Longrightarrow> within c Y Z \<Longrightarrow> within (b \<and> c) X Z"
  by (auto simp: within_def intro: subset_mset.order_trans)

lemma within_weaken: "within b X Y \<Longrightarrow> (c \<Longrightarrow> b) \<Longrightarrow> within c X Y"
  by (auto simp: within_def)

lemma sum_nth_update:
  fixes g :: "nat \<Rightarrow> 'x \<Rightarrow> 'a :: cancel_comm_monoid_add"
  assumes "q < length xs"
  shows "(\<Sum>p<length xs. g p (xs[q := x] ! p)) + g q (xs ! q) = (\<Sum>p<length xs. g p (xs ! p)) + g q x"
proof -
  have q: "q \<in> {..<length xs}" using assms by simp
  have "(\<Sum>p\<in>{..<length xs} - {q}. g p (xs[q := x] ! p)) = (\<Sum>p\<in>{..<length xs} - {q}. g p (xs ! p))"
    by (rule sum.cong) auto
  then show ?thesis
    using assms sum.remove [OF _ q, of "\<lambda>p. g p (xs[q := x] ! p)"] sum.remove [OF _ q, of "\<lambda>p. g p (xs ! p)"]
    by (simp add: ac_simps)
qed

subsection \<open>Commands of a slot\<close>

definition tag :: "bool \<Rightarrow> 'i EntityId \<Rightarrow> 'c \<Rightarrow> 'i EntityId option \<times> 'c" where
  "tag every i c = (if every then None else Some i, c)"

fun effect_load :: "bool \<Rightarrow> 'i EntityId \<Rightarrow> ('c, 'e, 'l) SlotEffect \<Rightarrow> ('i EntityId option \<times> 'c) multiset" where
  "effect_load every i (Deliver a d endpoint c) = {#tag every i c#}"
| "effect_load every i (Reject d c reason) = (if every then {#tag every i c#} else {#})"
| "effect_load every i _ = {#}"

definition effects_load :: "bool \<Rightarrow> 'i EntityId \<Rightarrow> ('c, 'e, 'l) SlotEffect list \<Rightarrow> ('i EntityId option \<times> 'c) multiset" where
  "effects_load every i effects = (\<Sum>e\<leftarrow>effects. effect_load every i e)"

fun event_load :: "bool \<Rightarrow> 'i EntityId \<Rightarrow> ('c, 'e, 'l) SlotEvent \<Rightarrow> ('i EntityId option \<times> 'c) multiset" where
  "event_load every i (ClaimActivation a d c limit) = {#tag every i c#}"
| "event_load every i (Dispatch d c) = {#tag every i c#}"
| "event_load every i (DeliveryResolved a (Some (d, c))) = (if every then {#tag every i c#} else {#})"
| "event_load every i _ = {#}"

definition state_load :: "bool \<Rightarrow> 'i EntityId \<Rightarrow> ('c, 'e, 'l) EntitySlot \<Rightarrow> ('i EntityId option \<times> 'c) multiset" where
  "state_load every i st = image_mset (\<lambda>(d, c). tag every i c) (slot_commands st)"

definition canceled_load ::
  "bool \<Rightarrow> 'i EntityId \<Rightarrow> ('c, 'e, 'l) EntitySlot \<Rightarrow> ('c, 'e, 'l) SlotEvent \<Rightarrow> ('i EntityId option \<times> 'c) multiset" where
  "canceled_load every i st ev = image_mset (\<lambda>(d, c). tag every i c) (canceled_commands st ev)"

lemma effects_load_simps [simp]:
  "effects_load every i [] = {#}" "effects_load every i (e # es) = effect_load every i e + effects_load every i es"
  "effects_load every i (es @ es') = effects_load every i es + effects_load every i es'"
  by (simp_all add: effects_load_def)

lemma event_load_resolved:
  "event_load every i (DeliveryResolved a failure) =
     (case failure of None \<Rightarrow> {#} | Some (d, c) \<Rightarrow> if every then {#tag every i c#} else {#})"
  by (cases failure) auto

lemma effects_load_every: "effects_load True i es = image_mset (\<lambda>(d, c). tag True i c) (\<Sum>e\<leftarrow>es. effect_commands e)"
proof (induction es)
  case (Cons e es)
  then show ?case by (cases e) auto
qed simp

lemma event_load_every: "event_load True i ev = image_mset (\<lambda>(d, c). tag True i c) (event_commands ev)"
  by (cases "(True, i, ev)" rule: event_load.cases) (auto simp: event_load_resolved split: option.splits)

lemma reduce_load_every:
  assumes "reduce st ev = Inr d"
  shows "state_load True i (dec_state d) + effects_load True i (as_slice (dec_effects d)) + canceled_load True i st ev =
    state_load True i st + event_load True i ev"
  unfolding state_load_def canceled_load_def effects_load_every event_load_every image_mset_union [symmetric]
    reduce_commands [OF assms] batch_commands_def [symmetric] ..

lemma effects_load_deliver: "effects_load every i (map (\<lambda>w. Deliver a (f w) e (g w)) ws) = mset (map (\<lambda>w. tag every i (g w)) ws)"
  by (induction ws) auto

lemma effects_load_reject: "effects_load False i (map (\<lambda>w. Reject (f w) (g w) reason) ws) = {#}"
  by (induction ws) auto

lemma mset_map_split: "mset (map f xs) = mset (map f (filter (\<lambda>x. \<not> P x) xs)) + mset (map f (filter P xs))"
  by (induction xs) auto

lemma image_slot_commands: "image_mset (\<lambda>(d, c). h c) (mset (map (\<lambda>w. (wt_dispatch_id w, wt_command w)) ws)) = mset (map (\<lambda>w. h (wt_command w)) ws)"
  by (simp add: multiset.map_comp comp_def flip: mset_map)

lemma reduce_load_fresh:
  assumes "reduce st ev = Inr d"
  shows "state_load False i (dec_state d) + effects_load False i (as_slice (dec_effects d)) + canceled_load False i st ev
    \<subseteq># state_load False i st + event_load False i ev"
proof -
  have resolved: "event_load False i (DeliveryResolved a failure) = {#}" for a and failure :: "(DispatchId \<times> 'b) option"
    by (auto simp: event_load_resolved split: option.splits)
  show ?thesis
  proof (cases st)
    case (Activating ag)
    then show ?thesis using assms mset_map_split [of "\<lambda>w. tag False i (wt_command w)" "ag_waiters ag"]
      by (cases ev)
        (auto simp: reducer_simps state_load_def canceled_load_def image_slot_commands effects_load_deliver effects_load_reject
          resolved classify_def simp del: mset_map split: option.splits prod.splits Ordering.splits)
  next
    case Inactive
    then show ?thesis using assms
      by (cases ev) (auto simp: reducer_simps state_load_def canceled_load_def resolved split: option.splits prod.splits)
  next
    case (Active ac)
    then show ?thesis using assms
      by (cases ev)
        (auto simp: reducer_simps state_load_def canceled_load_def resolved
          split: option.splits prod.splits ReservationCount.splits ReservationResolution.splits if_splits)
  next
    case (Draining dr)
    then show ?thesis using assms
      by (cases ev)
        (auto simp: reducer_simps state_load_def canceled_load_def resolved
          split: option.splits prod.splits DrainProgress.splits if_splits)
  next
    case (Retiring a)
    then show ?thesis using assms
      by (cases ev) (auto simp: reducer_simps state_load_def canceled_load_def resolved split: option.splits prod.splits)
  qed
qed

lemma reduce_load:
  "reduce st ev = Inr d \<Longrightarrow>
     within every (state_load every i (dec_state d) + effects_load every i (as_slice (dec_effects d)) + canceled_load every i st ev)
       (state_load every i st + event_load every i ev)"
  using reduce_load_every reduce_load_fresh by (cases every) (auto simp: within_def)

definition slot_load :: "bool \<Rightarrow> 'i EntityId \<Rightarrow> ('c, 'e, 'l) Slot \<Rightarrow> ('i EntityId option \<times> 'c) multiset" where
  "slot_load every i slot =
     state_load every i (slot_state slot) + effects_load every i (output_effects (le_outputs (guarded slot)))"

lemma state_load_Inactive [simp]: "state_load every i Inactive = {#}"
  by (simp add: state_load_def)

lemma slot_submit_load:
  assumes "slot_submit slot ev = (r, slot')" and "slot_healthy slot"
  shows "case r of
      Inl _ \<Rightarrow> slot_load every i slot' \<subseteq># slot_load every i slot
    | Inr _ \<Rightarrow> within every (slot_load every i slot' + canceled_load every i (slot_state slot) ev)
        (slot_load every i slot + event_load every i ev)"
proof -
  have "linearized_submit lifecycle_step output_evidence slot ev = (r, slot')"
    using assms(1) by (simp add: slot_submit_def)
  then show ?thesis
  proof (cases rule: submit_cases)
    case refused
    then show ?thesis by simp
  next
    case poisoned
    then show ?thesis using assms(1)
      by (auto simp: slot_submit_def linearized_submit_def lock_def slot_load_def slot_state_def)
  next
    case (unwound m p)
    then show ?thesis by (simp add: slot_load_def slot_state_def)
  next
    case (linearized m m' out e)
    have trans: "base_transition m = transition" using assms(2) linearized(2) by (auto simp: slot_healthy_def)
    obtain st' where st': "transition (base_state m) ev = Inr (out, st')" "m' = m\<lparr>base_state := st'\<rparr>"
      using linearized(3) trans by (auto simp: lifecycle_step_Inr)
    then obtain d where d: "reduce (base_state m) ev = Inr d" "st' = dec_state d" "out_effects out = dec_effects d"
      by (auto simp: transition_Inr)
    have "within every (state_load every i (dec_state d) + effects_load every i (as_slice (dec_effects d))
        + canceled_load every i (base_state m) ev + effects_load every i (output_effects (le_outputs (guarded slot))))
      (state_load every i (base_state m) + event_load every i ev
        + effects_load every i (output_effects (le_outputs (guarded slot))))"
      by (rule within_add [OF reduce_load [OF d(1)]])
    then show ?thesis using linearized d st' by (simp add: slot_load_def slot_state_def ac_simps)
  qed
qed

lemma dispatch_step_load:
  assumes "dispatch_pending_step handled pc slot = (pc', slot')"
  shows "slot_load every i slot' + (case pc' of AtHandle _ out \<Rightarrow> effects_load every i (as_slice (out_effects out)) | _ \<Rightarrow> {#}) =
    slot_load every i slot"
proof -
  note frame = dispatch_step_frame [OF assms(1)]
  have state: "slot_state slot' = slot_state slot" using frame(2) by (simp add: slot_state_def)
  have "output_effects (taken_label (Advance 0 pc pc') @ le_outputs (guarded slot')) = output_effects (le_outputs (guarded slot))"
    by (simp only: dispatch_step_frame(4) [OF assms(1)])
  then show ?thesis unfolding slot_load_def state
    by (cases pc') (auto simp: ac_simps simp flip: effects_load_simps(3))
qed

subsection \<open>Commands of an operation\<close>

fun output_load :: "bool \<Rightarrow> ('i, 'c, 'e, 'l) DirectoryOutput \<Rightarrow> ('i EntityId option \<times> 'c) multiset" where
  "output_load every out =
     (case do_target out of Mapped _ \<Rightarrow> {#} | Transient effects \<Rightarrow> effects_load every (do_entity_id out) (as_slice effects))"

text \<open>An error hands its command back; it does not name the entity.\<close>

fun error_load :: "bool \<Rightarrow> 'c DirectoryError \<Rightarrow> ('i EntityId option \<times> 'c) multiset" where
  "error_load every InvalidShardCount = {#}"
| "error_load every (ActivationIdsExhausted c) = (if every then {#(None, c)#} else {#})"
| "error_load every (DispatchIdsExhausted c) = (if every then {#(None, c)#} else {#})"

fun operation_load :: "bool \<Rightarrow> ('i, 'c, 'e, 'l) Operation \<Rightarrow> ('i EntityId option \<times> 'c) multiset" where
  "operation_load every (AtAllocate i c) = {#tag every i c#}"
| "operation_load every (AtLookup d i c) = {#tag every i c#}"
| "operation_load every (AtDispatch d i q c) = {#tag every i c#}"
| "operation_load every (DispatchReturned (Inl error)) = error_load every error"
| "operation_load every (DispatchReturned (Inr out)) = output_load every (dp_output out)"
| "operation_load every (AtFind i ev) = event_load every i ev"
| "operation_load every (AtSubmitTo q i ev) = event_load every i ev"
| "operation_load every (OutputReturned out) = output_load every out"
| "operation_load every (AtInterpret i q pc effects) = effects_load every i effects"
| "operation_load every (AtTransient i effects) = effects_load every i effects"
| "operation_load every _ = {#}"

fun call_load :: "bool \<Rightarrow> ('i, 'c, 'e, 'l) RuntimeCall option \<Rightarrow> ('i EntityId option \<times> 'c) multiset" where
  "call_load every (Some (CallDeliver i a d endpoint c)) = {#tag every i c#}"
| "call_load every (Some (CallReject d c reason)) = (if every then {#(None, c)#} else {#})"
| "call_load every _ = {#}"

definition slots_load ::
  "bool \<Rightarrow> ('i EntityId \<times> ActivationId option) list \<Rightarrow> ('i, 'c, 'e, 'l) LocalDirectory \<Rightarrow> ('i EntityId option \<times> 'c) multiset" where
  "slots_load every cs self = (\<Sum>p<length (dir_slots self). slot_load every (fst (cs ! p)) (dir_slots self ! p))"

text \<open>What a submitted cancellation takes out of its slot.\<close>

fun withdrawn ::
  "bool \<Rightarrow> ('i, 'c, 'e, 'l) LocalDirectory \<Rightarrow> ('i, 'c, 'e, 'l) Operation \<Rightarrow> ('i, 'c, 'e, 'l) Operation \<Rightarrow>
     ('i EntityId option \<times> 'c) multiset" where
  "withdrawn every self (AtSubmitTo q i ev) (OutputReturned out) = canceled_load every i (slot_state (dir_slots self ! q)) ev"
| "withdrawn every self _ _ = {#}"

lemma tag_every: "tag True i c = (None, c)"
  by (simp add: tag_def)

lemma slots_load_update:
  assumes "q < length (dir_slots self)"
  shows "slots_load every cs (self\<lparr>dir_slots := (dir_slots self)[q := slot]\<rparr>) + slot_load every (fst (cs ! q)) (dir_slots self ! q) =
    slots_load every cs self + slot_load every (fst (cs ! q)) slot"
  using sum_nth_update [OF assms, of "\<lambda>p. slot_load every (fst (cs ! p))" slot] by (simp add: slots_load_def)

lemma submit_at_load:
  assumes "submit_at q ev self = (r, self')" and q: "q < length (dir_slots self)" and "slot_healthy (dir_slots self ! q)"
  shows "case r of
      Inl _ \<Rightarrow> slots_load every cs self' \<subseteq># slots_load every cs self
    | Inr _ \<Rightarrow> within every (slots_load every cs self' + canceled_load every (fst (cs ! q)) (slot_state (dir_slots self ! q)) ev)
        (slots_load every cs self + event_load every (fst (cs ! q)) ev)"
proof -
  let ?i = "fst (cs ! q)"
  obtain slot where slot: "slot_submit (dir_slots self ! q) ev = (r, slot)" "self' = self\<lparr>dir_slots := (dir_slots self)[q := slot]\<rparr>"
    using assms(1) by (auto simp: submit_at_def split: prod.splits)
  define A B C where "A = slots_load every cs self'" and "B = slots_load every cs self" and "C = slot_load every ?i (dir_slots self ! q)"
  have upd: "A + C = B + slot_load every ?i slot"
    using slots_load_update [OF q, of every cs slot] slot(2) by (simp add: A_def B_def C_def)
  have sub: "A \<subseteq># B" if "slot_load every ?i slot \<subseteq># C"
    using that upd by (metis subset_mset.add_le_cancel_right subset_mset.add_left_mono)
  have exact: "within every (A + X) (B + Y)" if w: "within every (slot_load every ?i slot + X) (C + Y)" for X Y
  proof -
    have left: "B + (slot_load every ?i slot + X) = A + X + C" using upd by (metis add.assoc add.commute)
    have right: "B + (C + Y) = B + Y + C" by (simp add: ac_simps)
    have "within every (B + (slot_load every ?i slot + X)) (B + (C + Y))"
      using within_add [OF w, of B] by (simp add: add.commute [of B])
    then have "within every (A + X + C) (B + Y + C)" unfolding left right .
    then show ?thesis by (simp add: within_def)
  qed
  show ?thesis
    using slot_submit_load [OF slot(1) assms(3), of every ?i] sub exact
    unfolding A_def [symmetric] B_def [symmetric] C_def [symmetric] by (cases r) auto
qed

lemma apply_effect_load: "apply_effect i target e shs = (call, r) \<Longrightarrow> call_load every call = effect_load every i e"
  by (cases e) (auto simp: tag_def)

lemma submit_absent_load:
  assumes "submit_absent i ev = Inr out" and "event_generation ev \<noteq> None"
  shows "within every (output_load every out) (event_load every i ev)"
proof -
  obtain lout m where step: "lifecycle_step fresh_machine ev = Inr (lout, m)"
    and out: "out = directory_output i (out_evidence lout) (out_activation_id lout) (Transient (out_effects lout))"
    using assms(1) by (auto simp: submit_absent_def lifecycle_machine_fresh split: prod.splits)
  from step obtain d where "reduce Inactive ev = Inr d" "out_effects lout = dec_effects d"
    by (auto simp: lifecycle_step_Inr transition_Inr)
  then show ?thesis using assms(2)
    by (cases ev) (auto simp: reducer_simps out directory_output_def within_def event_load_resolved split: option.splits)
qed

lemma slot_new_load [simp]:
  "slot_load every i (linearized_new fresh_machine) = {#}" "slot_healthy (linearized_new fresh_machine)"
  by (simp_all add: slot_load_def slot_state_def linearized_new_def slot_healthy_def)

lemma dispatch_lookup_load:
  assumes ptrs: "pointers_ok limit tr s" and st: "dispatch_lookup d i c (ds_directory s) = (op', self')"
  shows "operation_load every op' + slots_load every (claims_made (tr @ [Progress k (AtLookup d i c) call op'])) self' \<subseteq>#
      {#tag every i c#} + slots_load every (claims_made tr) (ds_directory s)"
    and "every \<Longrightarrow> operation_load every op' + slots_load every (claims_made (tr @ [Progress k (AtLookup d i c) call op'])) self' =
      {#tag every i c#} + slots_load every (claims_made tr) (ds_directory s)"
proof -
  note len = pointers_ok_facts(3) [OF ptrs]
  have "within every (operation_load every op' + slots_load every (claims_made (tr @ [Progress k (AtLookup d i c) call op'])) self')
      ({#tag every i c#} + slots_load every (claims_made tr) (ds_directory s))"
    using pointers_ok_facts(1,5) [OF ptrs] st
  proof (cases rule: dispatch_lookup_cases)
    case (claimed ev slot out)
    let ?a = "ActivationId (nz (dir_next_activation (ds_directory s)))" and ?n = "length (claims_made tr)"
    have label: "claims_made (tr @ [Progress k (AtLookup d i c) call op']) = claims_made tr @ [(i, Some ?a)]"
      using claimed(3) by (simp add: directory_output_def)
    have "within every (slot_load every i slot) {#tag every i c#}"
      using slot_submit_load [OF claimed(4) slot_new_load(2), of every i] by (simp add: canceled_load_def)
    moreover have "slots_load every (claims_made tr @ [(i, Some ?a)]) self' =
        slots_load every (claims_made tr) (ds_directory s) + slot_load every i slot"
      by (simp add: slots_load_def claimed(7) len nth_append)
    moreover have "operation_load every op' = {#}" using claimed(3) by (simp add: directory_output_def)
    ultimately show ?thesis unfolding label
      using within_add [of every "slot_load every i slot" "{#tag every i c#}" "slots_load every (claims_made tr) (ds_directory s)"]
      by (simp add: add.commute)
  qed (auto simp: within_def tag_def)
  then show "operation_load every op' + slots_load every (claims_made (tr @ [Progress k (AtLookup d i c) call op'])) self' \<subseteq>#
      {#tag every i c#} + slots_load every (claims_made tr) (ds_directory s)"
    and "every \<Longrightarrow> operation_load every op' + slots_load every (claims_made (tr @ [Progress k (AtLookup d i c) call op'])) self' =
      {#tag every i c#} + slots_load every (claims_made tr) (ds_directory s)"
    by (auto simp: within_def)
qed

lemma slots_load_same:
  assumes "q < length (dir_slots self)" and "slot_load every (fst (cs ! q)) slot + X = slot_load every (fst (cs ! q)) (dir_slots self ! q)"
  shows "slots_load every cs (self\<lparr>dir_slots := (dir_slots self)[q := slot]\<rparr>) + X = slots_load every cs self"
  using slots_load_update [OF assms(1), of every cs slot] unfolding assms(2) [symmetric] by (simp add: ac_simps)

lemma slots_load_cong: "dir_slots self' = dir_slots self \<Longrightarrow> slots_load every cs self' = slots_load every cs self"
  by (simp add: slots_load_def)

lemma operation_step_load:
  assumes ptrs: "pointers_ok limit tr s"
    and op: "ds_operations s k = Some op"
    and st: "operation_step handled op (ds_directory s) = (call, op', self')"
  shows "within (every \<and> panicked op' = None)
      (operation_load every op' + slots_load every (claims_made (tr @ [Progress k op call op'])) self' + call_load every call
        + withdrawn every (ds_directory s) op op')
      (operation_load every op + slots_load every (claims_made tr) (ds_directory s))"
proof -
  let ?cs = "claims_made tr" and ?self = "ds_directory s"
  note shards = pointers_ok_facts(1) [OF ptrs] and len = pointers_ok_facts(3) [OF ptrs] and ok = pointers_ok_operation [OF ptrs op]
  have homed: "q < length (dir_slots ?self)" "fst (?cs ! q) = i" "slot_healthy (dir_slots ?self ! q)" if "home ?cs q = Some i" for q i
    using that len pointers_ok_healthy(1) [OF ptrs] by (auto simp: home_def split: if_splits)
  have submit: "within (every \<and> panicked op' = None)
      (operation_load every op' + slots_load every ?cs self' + call_load every call + withdrawn every ?self op op')
      (event_load every i ev + slots_load every ?cs ?self)"
    if sub: "submit_at q ev ?self = (r, self')" and home: "home ?cs q = Some i" and call: "call = None"
      and res: "case r of Inl p \<Rightarrow> op' = OperationUnwound p | Inr _ \<Rightarrow> operation_load every op' = {#} \<and>
        withdrawn every ?self op op' = canceled_load every i (slot_state (dir_slots ?self ! q)) ev" for q ev r i
    using submit_at_load [OF sub homed(1,3) [OF home], of every ?cs] res call homed(2) [OF home]
    by (cases r) (auto simp: within_def ac_simps intro: subset_mset.order_trans elim!: withdrawn.elims)
  show ?thesis
  proof (cases op)
    case (AtLookup d i c)
    then have "dispatch_lookup d i c ?self = (op', self')" "call = None" using st by auto
    from dispatch_lookup_load [OF ptrs this(1), of every k call] this(2) show ?thesis
      unfolding AtLookup by (simp add: within_def)
  next
    case (AtAllocate i c)
    then show ?thesis using st
      by (auto simp: within_def tag_def slots_load_def split: option.splits prod.splits)
  next
    case (AtDispatch d i q c)
    then show ?thesis using st submit [of q "Dispatch d c" _ i] ok
      by (auto simp: directory_output_def canceled_load_def split: prod.splits sum.splits)
  next
    case (AtSubmitTo q i ev)
    then show ?thesis using st submit [of q ev _ i] ok
      by (auto simp: directory_output_def split: prod.splits sum.splits)
  next
    case (AtFind i ev)
    then show ?thesis using st ok submit_absent_load [of i ev _ every]
      by (auto simp: within_def simp del: output_load.simps split: sum.splits option.splits)
  next
    case (AtTransient i effects)
    then show ?thesis using st apply_effect_load [of i None _ _ call _ every]
      by (cases effects) (auto simp: within_def Let_def ac_simps split: prod.splits option.splits)
  next
    case (AtInterpret i q pc effects)
    note h = homed [of q i]
    have home: "home ?cs q = Some i" using ok AtInterpret by simp
    show ?thesis
    proof (cases effects)
      case Nil
      obtain pc' ex where ex: "dispatch_pending_step None pc (dir_slots ?self ! q) = (pc', ex)" by fastforce
      then have *: "call = None" "self' = ?self\<lparr>dir_slots := (dir_slots ?self)[q := ex]\<rparr>"
        "op' = AtInterpret i q pc' (case pc' of AtHandle _ out \<Rightarrow> as_slice (out_effects out) | _ \<Rightarrow> [])"
        using st AtInterpret Nil by (auto simp: Let_def)
      have "slots_load every ?cs self' + operation_load every op' = slots_load every ?cs ?self"
        unfolding *(2)
        by (rule slots_load_same [OF h(1)])
          (use home h dispatch_step_load [OF ex, of every i] *(3) in \<open>auto split: Invocation.splits\<close>)
      then show ?thesis using AtInterpret Nil * by (auto simp: ac_simps)
    next
      case (Cons effect more)
      obtain shs where effected: "apply_effect i (Some q) effect (dir_shards ?self) = (call, Inr shs)"
        using st AtInterpret Cons sharded.remove_entry [OF shards, of i q]
        by (cases effect) (auto simp: Let_def split: option.splits prod.splits)
      note load = apply_effect_load [OF effected, of every]
      show ?thesis
      proof (cases "Option.bind call (\<lambda>_. handled)")
        case None
        then have "op' = AtInterpret i q pc more" "dir_slots self' = dir_slots ?self"
          using st AtInterpret Cons effected by (auto simp: Let_def)
        then show ?thesis using load AtInterpret Cons slots_load_cong [of self' ?self every ?cs]
          by (auto simp: ac_simps)
      next
        case (Some panic)
        obtain pc' ex where ex: "dispatch_pending_step (Some panic) pc (dir_slots ?self ! q) = (pc', ex)" by fastforce
        then have op': "op' = AtInterpret i q pc' []" "dir_slots self' = (dir_slots ?self)[q := ex]"
          using st AtInterpret Cons effected Some by (auto simp: Let_def)
        have "in_flight pc \<noteq> []" using ok AtInterpret Cons by simp
        then have pc': "\<exists>p. pc' = Unwound p" using ex by (cases pc) auto
        then have "slots_load every ?cs (?self\<lparr>dir_slots := (dir_slots ?self)[q := ex]\<rparr>) + {#} = slots_load every ?cs ?self"
          using home h dispatch_step_load [OF ex, of every i] by (intro slots_load_same [OF h(1)]) auto
        then have "slots_load every ?cs self' = slots_load every ?cs ?self"
          using slots_load_cong [of self' "?self\<lparr>dir_slots := (dir_slots ?self)[q := ex]\<rparr>" every ?cs] op'(2) by simp
        then show ?thesis using load AtInterpret Cons op' pc' by (auto simp: within_def)
      qed
    qed
  next
    case (AtCurrent i)
    then show ?thesis using st by (auto simp: within_def slots_load_def split: sum.splits option.splits)
  qed (use st in \<open>auto split: sum.splits option.splits prod.splits\<close>)
qed

subsection \<open>Accounts of a schedule\<close>

fun begun_load :: "bool \<Rightarrow> ('i, 'c, 'e, 'l) DirectoryLabel \<Rightarrow> ('i EntityId option \<times> 'c) multiset" where
  "begun_load every (Begin k op) = operation_load every op"
| "begun_load every _ = {#}"

fun called_load :: "bool \<Rightarrow> ('i, 'c, 'e, 'l) DirectoryLabel \<Rightarrow> ('i EntityId option \<times> 'c) multiset" where
  "called_load every (Progress k op call op') = call_load every call"
| "called_load every _ = {#}"

fun unwinds :: "('i, 'c, 'e, 'l) DirectoryLabel \<Rightarrow> bool" where
  "unwinds (Progress k op call op') = (panicked op' \<noteq> None)"
| "unwinds _ = False"

definition begun_commands :: "bool \<Rightarrow> ('i, 'c, 'e, 'l) DirectoryLabel list \<Rightarrow> ('i EntityId option \<times> 'c) multiset" where
  "begun_commands every tr = (\<Sum>l\<leftarrow>tr. begun_load every l)"

definition called_commands :: "bool \<Rightarrow> ('i, 'c, 'e, 'l) DirectoryLabel list \<Rightarrow> ('i EntityId option \<times> 'c) multiset" where
  "called_commands every tr = (\<Sum>l\<leftarrow>tr. called_load every l)"

text \<open>The commands that callers withdrew by cancelling while they waited for an activation.\<close>

definition withdrawn_commands ::
  "NonZeroUsize \<Rightarrow> bool \<Rightarrow> ('i, 'c, 'e, 'l) DirectoryLabel list \<Rightarrow> ('i EntityId option \<times> 'c) multiset" where
  "withdrawn_commands limit every tr =
     (\<Sum>p<length (claims_made tr). image_mset (\<lambda>(d, c). tag every (fst (claims_made tr ! p)) c)
        (canceled_all Inactive (slot_events limit p tr)))"

definition held_commands ::
  "bool \<Rightarrow> ('i, 'c, 'e, 'l) DirectoryLabel list \<Rightarrow> ('i, 'c, 'e, 'l) DirectorySystem \<Rightarrow> ('i EntityId option \<times> 'c) multiset" where
  "held_commands every tr s =
     holdings (operation_load every) (ds_operations s) + slots_load every (claims_made tr) (ds_directory s)"

lemma command_account_simps [simp]:
  "begun_commands every [] = {#}" "begun_commands every (tr @ [l]) = begun_commands every tr + begun_load every l"
  "called_commands every [] = {#}" "called_commands every (tr @ [l]) = called_commands every tr + called_load every l"
  "withdrawn_commands limit every [] = {#}"
  by (simp_all add: begun_commands_def called_commands_def withdrawn_commands_def)

lemma canceled_all_snoc:
  "decide_all st evs = Inr d \<Longrightarrow> canceled_all st (evs @ [ev]) = canceled_all st evs + canceled_commands (dec_state d) ev"
proof (induction evs arbitrary: st d)
  case Nil
  then show ?case by (auto split: sum.splits)
next
  case (Cons e evs)
  then obtain d1 d2 where "reduce st e = Inr d1" "decide_all (dec_state d1) evs = Inr d2" "dec_state d = dec_state d2"
    by (auto simp: decide_all_Cons)
  then show ?case using Cons.IH [of "dec_state d1" d2] by (simp add: ac_simps)
qed

lemma canceled_none [simp]:
  "canceled_commands st (Dispatch d c) = {#}" "canceled_commands st (ClaimActivation a d c limit) = {#}"
  by (cases st; simp)+

lemma withdrawn_step:
  assumes ptrs: "pointers_ok limit tr s" and slots: "slots_ok limit tr s" and step: "dir_step s l s'"
  shows "withdrawn_commands limit every (tr @ [l]) = withdrawn_commands limit every tr +
    (case l of Progress k op call op' \<Rightarrow> withdrawn every (ds_directory s) op op' | _ \<Rightarrow> {#})"
  using step
proof (cases rule: dir_step_cases)
  case (progress k op handled call op' dir')
  let ?cs = "claims_made tr" and ?f = "\<lambda>p. image_mset (\<lambda>(d, c). tag every (fst (claims_made tr ! p)) c)"
  have inv: "slot_inv limit tr s p" if "p < length ?cs" for p using slots that by (simp add: slots_ok_def)
  have quiet: ?thesis if "claims_made (tr @ [l]) = ?cs" "withdrawn every (ds_directory s) op op' = {#}"
    "\<And>p. p < length ?cs \<Longrightarrow> canceled_all Inactive (slot_events limit p (tr @ [l])) = canceled_all Inactive (slot_events limit p tr)"
    using that progress(1) by (simp add: withdrawn_commands_def)
  show ?thesis
  proof (cases "\<exists>d i c. op = AtLookup d i c")
    case True
    then obtain d i c where op: "op = AtLookup d i c" by blast
    have "dispatch_lookup d i c (ds_directory s) = (op', dir')" using progress(3) op by simp
    with pointers_ok_facts(1,5) [OF ptrs] show ?thesis
    proof (cases rule: dispatch_lookup_cases)
      case (claimed ev slot out)
      let ?a = "ActivationId (nz (dir_next_activation (ds_directory s)))"
      have label: "claim_label l = [(i, Some ?a)]"
          "event_label limit p l = (if p = length ?cs then [ClaimActivation ?a d c limit] else [])" for p
        using op claimed(3) progress(1) pointers_ok_facts(3) [OF ptrs] by (auto simp: directory_output_def)
      have "slot_events limit (length ?cs) tr = []" using slots by (simp add: slots_ok_def)
      then have "withdrawn_commands limit every (tr @ [l]) = withdrawn_commands limit every tr"
        by (auto simp: withdrawn_commands_def label nth_append split: sum.splits)
      then show ?thesis using op progress(1) by simp
    qed (use quiet op progress(1) in auto)
  next
    case False
    then have op: "\<And>d i c. op \<noteq> AtLookup d i c" by blast
    have claims: "claims_made (tr @ [l]) = ?cs"
      using pointers_step_frame(6) [OF ptrs progress(3) op] progress(1) by simp
    consider (withdraw) q i ev out where "op = AtSubmitTo q i ev" "op' = OutputReturned out"
      | (dispatched) d i q c where "op = AtDispatch d i q c"
      | (nothing) "\<And>p. event_label limit p l = []" "withdrawn every (ds_directory s) op op' = {#}"
      using op progress(1) by (cases op; cases op') auto
    then show ?thesis
    proof cases
      case (withdraw q i ev out)
      have home: "home ?cs q = Some i" using pointers_ok_operation [OF ptrs progress(2)] withdraw by simp
      then have q: "q < length ?cs" "fst (?cs ! q) = i" by (auto simp: home_def split: if_splits)
      obtain d where d: "decide_all Inactive (slot_events limit q tr) = Inr d"
        "dec_state d = slot_state (dir_slots (ds_directory s) ! q)"
        using slot_decides [OF inv [OF q(1)] pointers_ok_healthy(1) [OF ptrs q(1)]]
        unfolding represents_state by metis
      have "withdrawn_commands limit every (tr @ [l]) =
          (\<Sum>p<length ?cs. ?f p (canceled_all Inactive (slot_events limit p tr)) +
            (if q = p then canceled_load every i (slot_state (dir_slots (ds_directory s) ! q)) ev else {#}))"
        unfolding withdrawn_commands_def claims using progress(1) withdraw canceled_all_snoc [OF d(1), of ev] d(2) q(2)
        by (intro sum.cong) (auto simp: canceled_load_def)
      also have "\<dots> = withdrawn_commands limit every tr + canceled_load every i (slot_state (dir_slots (ds_directory s) ! q)) ev"
        using q(1) by (simp add: sum.distrib withdrawn_commands_def)
      finally show ?thesis using progress(1) withdraw by simp
    next
      case (dispatched d i q c)
      have "canceled_all Inactive (slot_events limit p (tr @ [l])) = canceled_all Inactive (slot_events limit p tr)"
        if p: "p < length ?cs" for p
      proof (rule slot_decides [OF inv [OF p] pointers_ok_healthy(1) [OF ptrs p]])
        fix d'
        assume "decide_all Inactive (slot_events limit p tr) = Inr d'"
        from canceled_all_snoc [OF this, of "Dispatch d c"] show ?thesis
          using progress(1) dispatched by (cases "(limit, p, l)" rule: event_label.cases) auto
      qed
      then show ?thesis using quiet claims dispatched by simp
    qed (use quiet claims in simp)
  qed
qed (auto simp: withdrawn_commands_def)

definition commands_accounted ::
  "NonZeroUsize \<Rightarrow> bool \<Rightarrow> ('i, 'c, 'e, 'l) DirectoryLabel list \<Rightarrow> ('i, 'c, 'e, 'l) DirectorySystem \<Rightarrow> bool" where
  "commands_accounted limit every tr s \<longleftrightarrow>
     finite (dom (ds_operations s)) \<and>
     within (every \<and> \<not> list_ex unwinds tr)
       (held_commands every tr s + called_commands every tr + withdrawn_commands limit every tr) (begun_commands every tr)"

lemma commands_accounted_step:
  assumes ptrs: "pointers_ok limit tr s" and slots: "slots_ok limit tr s" and step: "dir_step s l s'"
    and before: "commands_accounted limit every tr s"
  shows "commands_accounted limit every (tr @ [l]) s'"
proof -
  have fin: "finite (dom (ds_operations s))"
    and old: "within (every \<and> \<not> list_ex unwinds tr)
       (held_commands every tr s + called_commands every tr + withdrawn_commands limit every tr) (begun_commands every tr)"
    using before by (auto simp: commands_accounted_def)
  note update = holdings_update [OF fin, of "operation_load every"] and withdrawn = withdrawn_step [OF ptrs slots step, of every]
  from step show ?thesis
  proof (cases rule: dir_step_cases)
    case (begun k op)
    have "held_commands every (tr @ [l]) s' = held_commands every tr s + operation_load every op"
      using begun update [of k op] by (simp add: held_commands_def ac_simps)
    then show ?thesis
      using within_add [OF old, of "operation_load every op"] begun withdrawn fin by (simp add: commands_accounted_def ac_simps)
  next
    case (interpreted k op out)
    have "operation_load every op = operation_load every (interpret_output out)"
      using interpreted(3) by (cases op rule: returned_output.cases) (auto simp: interpret_output_def split: OutputTarget.splits)
    then have "held_commands every (tr @ [l]) s' = held_commands every tr s"
      using interpreted update [of k "interpret_output out"] by (simp add: held_commands_def)
    then show ?thesis using old interpreted withdrawn fin by (simp add: commands_accounted_def)
  next
    case (progress k op handled call op' dir')
    define A B where "A = holdings (operation_load every) (ds_operations s')" and "B = slots_load every (claims_made (tr @ [l])) dir'"
    define A0 B0 where "A0 = holdings (operation_load every) (ds_operations s)" and "B0 = slots_load every (claims_made tr) (ds_directory s)"
    define X where "X = called_commands every tr + withdrawn_commands limit every tr"
    define Y where "Y = call_load every call + withdrawn every (ds_directory s) op op'"
    have A: "A + operation_load every op = A0 + operation_load every op'"
      using update [of k op'] progress(2,4) by (simp add: A_def A0_def)
    have step_load: "within (every \<and> panicked op' = None) (operation_load every op' + B + Y) (operation_load every op + B0)"
      using operation_step_load [OF ptrs progress(2,3), of every] progress(1)
      by (simp add: B_def B0_def Y_def ac_simps)
    have "within (every \<and> panicked op' = None) (A + B + Y) (A0 + B0)"
    proof -
      have "A + B + Y + operation_load every op = (A + operation_load every op) + B + Y" by (simp add: ac_simps)
      also have "\<dots> = operation_load every op' + B + Y + A0" unfolding A by (simp add: ac_simps)
      finally have left: "A + B + Y + operation_load every op = operation_load every op' + B + Y + A0" .
      have right: "A0 + B0 + operation_load every op = operation_load every op + B0 + A0" by (simp add: ac_simps)
      have "within (every \<and> panicked op' = None) (A + B + Y + operation_load every op) (A0 + B0 + operation_load every op)"
        unfolding left right by (rule within_add [OF step_load])
      then show ?thesis by (simp add: within_def)
    qed
    then have new: "within (every \<and> panicked op' = None) (A + B + Y + X) (A0 + B0 + X)" by (rule within_add)
    have past: "within (every \<and> \<not> list_ex unwinds tr) (A0 + B0 + X) (begun_commands every tr)"
      using old by (simp add: A0_def B0_def X_def held_commands_def ac_simps)
    have "within (every \<and> \<not> list_ex unwinds (tr @ [l])) (A + B + Y + X) (begun_commands every tr)"
      by (rule within_weaken [OF within_trans [OF new past]]) (simp add: progress(1))
    moreover have "held_commands every (tr @ [l]) s' + called_commands every (tr @ [l]) + withdrawn_commands limit every (tr @ [l]) =
        A + B + Y + X"
      using progress withdrawn by (simp add: held_commands_def A_def B_def X_def Y_def ac_simps)
    ultimately show ?thesis using progress fin by (simp add: commands_accounted_def)
  qed
qed

lemma all_commands_accounted:
  assumes "with_hasher config h = Inr self" and "schedule dir_step (directory_start self) tr s"
  shows "commands_accounted (cfg_activation_waiters config) every tr s"
  using assms(2)
proof (induction tr arbitrary: s rule: rev_induct)
  case Nil
  have "dir_slots self = []" using assms(1) by (auto simp: with_hasher_def split: option.splits)
  then show ?case using Nil by (simp add: commands_accounted_def held_commands_def directory_start_def slots_load_def within_def)
next
  case (snoc l tr)
  then obtain s0 where s0: "schedule dir_step (directory_start self) tr s0" "dir_step s0 l s" by auto
  note reach = directory_reaches [OF assms(1) s0(1)]
  show ?case by (rule commands_accounted_step [OF reach(1,2) s0(2) snoc.IH [OF s0(1)]])
qed

end
