(* ===== verification/Runtime_Commands.thy ===== *)
theory Runtime_Commands
  imports Runtime_Progress Directory_Commands
begin

section \<open>Every dispatch, from its call to its answer\<close>

text \<open>
  A dispatch is known by its completion.  Its command passes through the directory as one of the
  commands that \<open>Directory_Commands\<close> accounts for, through the runtime as one delivery task, and back
  as the fact of a failed delivery; its completion is completed by the task or by a rejection.
\<close>

subsection \<open>Counting one dispatch\<close>

definition of_dispatch :: "nat \<Rightarrow> ('i EntityId option \<times> 'c PendingCommand) multiset \<Rightarrow> nat" where
  "of_dispatch n M = size (filter_mset (\<lambda>(i, pending). pc_completion pending = n) M)"

lemma of_dispatch_simps [simp]:
  "of_dispatch n {#} = 0" "of_dispatch n (X + Y) = of_dispatch n X + of_dispatch n Y"
  "of_dispatch n (add_mset (i, pending) X) = (if pc_completion pending = n then 1 else 0) + of_dispatch n X"
  by (simp_all add: of_dispatch_def)

lemma of_dispatch_mono: "X \<subseteq># Y \<Longrightarrow> of_dispatch n X \<le> of_dispatch n Y"
  by (simp add: of_dispatch_def multiset_filter_mono size_mset_mono)

lemma of_dispatch_pos: "0 < of_dispatch n X \<longleftrightarrow> (\<exists>(i, pending)\<in>#X. pc_completion pending = n)"
proof -
  have "of_dispatch n X = 0 \<longleftrightarrow> set_mset (filter_mset (\<lambda>(i, pending). pc_completion pending = n) X) = {}"
    by (simp add: of_dispatch_def)
  then show ?thesis by auto
qed

lemma of_dispatch_tag [simp]:
  "of_dispatch n {#tag every i pending#} = (if pc_completion pending = n then 1 else 0)"
  by (simp add: tag_def)

fun delivers_for :: "nat \<Rightarrow> ('i, 'c, 'e, 'l) Thread option \<Rightarrow> bool" where
  "delivers_for n (Some (TaskRunning (DeliverTask i a d endpoint pending))) = (pc_completion pending = n)"
| "delivers_for n _ = False"

text \<open>The delivery tasks that run for a dispatch.\<close>

definition deliveries_of :: "nat \<Rightarrow> ('i, 'c, 'e, 'l) RuntimeSystem \<Rightarrow> nat set" where
  "deliveries_of n s = {t. delivers_for n (rs_threads s t)}"

text \<open>The labels that begin a dispatch, spawn its delivery, end it, or reject it.\<close>

fun dispatch_label :: "nat \<Rightarrow> ('i, 'c, 'e, 'l) RuntimeLabel \<Rightarrow> bool" where
  "dispatch_label n (RtDispatch t i c, Some (Begin k (AtAllocate j pending))) = (pc_completion pending = n)"
| "dispatch_label n _ = False"

fun delivery_label :: "nat \<Rightarrow> ('i, 'c, 'e, 'l) RuntimeLabel \<Rightarrow> bool" where
  "delivery_label n (RtOperation t (Some (DeliverTask i a d endpoint pending)), l) = (pc_completion pending = n)"
| "delivery_label n _ = False"

fun delivered_label :: "nat \<Rightarrow> ('i, 'c, 'e, 'l) RuntimeLabel \<Rightarrow> bool" where
  "delivered_label n (RtAnswer t (DeliverTask i a d endpoint pending) (AnsDeliver (Inr _)), l) = (pc_completion pending = n)"
| "delivered_label n _ = False"

fun failed_label :: "nat \<Rightarrow> ('i, 'c, 'e, 'l) RuntimeLabel \<Rightarrow> bool" where
  "failed_label n (RtAnswer t (DeliverTask i a d endpoint pending) (AnsDeliver (Inl _)), l) = (pc_completion pending = n)"
| "failed_label n _ = False"

fun rejected_label :: "nat \<Rightarrow> ('i, 'c, 'e, 'l) RuntimeLabel \<Rightarrow> bool" where
  "rejected_label n (RtOperation t sp, Some (Progress k op (Some (CallReject d pending reason)) op')) = (pc_completion pending = n)"
| "rejected_label n _ = False"

definition count_labels :: "('x \<Rightarrow> bool) \<Rightarrow> 'x list \<Rightarrow> nat" where
  "count_labels P tr = length (filter P tr)"

lemma count_labels_simps [simp]:
  "count_labels P [] = 0" "count_labels P (tr @ [l]) = count_labels P tr + (if P l then 1 else 0)"
  by (simp_all add: count_labels_def)

text \<open>How often a dispatch was answered: its command delivered, or rejected.\<close>

definition answers_given :: "nat \<Rightarrow> ('i, 'c, 'e, 'l) RuntimeLabel list \<Rightarrow> nat" where
  "answers_given n tr = count_labels (delivered_label n) tr + count_labels (rejected_label n) tr"

subsection \<open>One step\<close>

lemma deliveries_step:
  assumes "finite (deliveries_of n s)" and "rt_step s l s'"
  shows "finite (deliveries_of n s') \<and>
    card (deliveries_of n s') + (if delivered_label n l then 1 else 0) + (if failed_label n l then 1 else 0) =
      card (deliveries_of n s) + (if delivery_label n l then 1 else 0)"
proof -
  have upd: "finite (deliveries_of n s') \<and> card (deliveries_of n s') + (if delivers_for n (rs_threads s t) then 1 else 0) =
      card (deliveries_of n s) + (if delivers_for n y then 1 else 0)"
    if "rs_threads s' = (rs_threads s)(t := y)" for t y
    using keys_update [of "delivers_for n" "rs_threads s" t y] assms(1) that by (auto simp: deliveries_of_def)
  show ?thesis
    using assms(2)
  proof cases
    case (rt_operation k op handled call op' dir' t)
    show ?thesis
    proof (cases "spawned handled call")
      case None
      then have "deliveries_of n s' = deliveries_of n s"
        using rt_operation by (simp add: deliveries_of_def run_callback_threads)
      then show ?thesis using None rt_operation(1) assms(1) by simp
    next
      case (Some task)
      then have "rs_threads s' = (rs_threads s)(t := Some (TaskRunning task))"
        using rt_operation by (simp add: run_callback_threads)
      from upd [OF this] show ?thesis using Some rt_operation by (cases task) auto
    qed
  next
    case (rt_advance t thread k op fresh thread' u d ds')
    then have "\<not> delivers_for n (Some thread)" by (cases thread) auto
    moreover have "\<not> delivers_for n (Some thread')"
      using advance_not_running [OF rt_advance(7)] by (cases thread') auto
    ultimately show ?thesis using upd [of t "Some thread'"] rt_advance by auto
  next
    case (rt_dispatch t k m op i c)
    then show ?thesis using upd [of t "Some (DispatchCall i m k)"] by auto
  next
    case (rt_passivate t k op i)
    then show ?thesis using upd [of t "Some (PassivateLook i k)"] by auto
  next
    case (rt_poll t wait waker r completion)
    then show ?thesis
      using upd [of t "Some (case r of None \<Rightarrow> DispatchWaiting wait | Some result \<Rightarrow> DispatchDone result)"]
      by (auto split: option.splits)
  next
    case (rt_drop t wait k upgraded cancel)
    then show ?thesis
      using upd [of t "Some (case cancel of None \<Rightarrow> WaitDropped | Some _ \<Rightarrow> WaitCancel k)"]
      by (auto split: option.splits)
  next
    case (rt_answer t task answer completed op k)
    then show ?thesis using upd [of t "Some (TaskFact k)"]
      by (cases "(task, answer)" rule: task_answer.cases) (auto split: sum.splits)
  qed
qed

text \<open>Commands begin with a dispatch or the fact of a failed delivery.\<close>

lemma begun_use: "thread_advance fresh thread op = Some (thread', UseBegin op') \<Longrightarrow> operation_load every op' = {#}"
proof (cases thread)
  case (DispatchCall i n k)
  moreover assume "thread_advance fresh thread op = Some (thread', UseBegin op')"
  ultimately show ?thesis
    by (cases "dispatch_result op"; cases "the (dispatch_result op)")
      (auto simp: thread_advance_def split: option.splits sum.splits)
qed (auto simp: thread_advance_def fact_defs split: option.splits if_splits)

lemma begun_step:
  assumes "rt_step s l s'"
  shows "of_dispatch n (case snd l of None \<Rightarrow> {#} | Some d \<Rightarrow> begun_load every d) =
    (if dispatch_label n l then 1 else 0) + (if every \<and> failed_label n l then 1 else 0)"
    and "dispatch_label n l \<longleftrightarrow> length (rs_completions s) = n \<and> length (rs_completions s') = Suc n"
    and "length (rs_completions s') = length (rs_completions s) \<or> length (rs_completions s') = Suc (length (rs_completions s))"
proof -
  show "of_dispatch n (case snd l of None \<Rightarrow> {#} | Some d \<Rightarrow> begun_load every d) =
    (if dispatch_label n l then 1 else 0) + (if every \<and> failed_label n l then 1 else 0)"
    using assms
  proof cases
    case (rt_advance t thread k op fresh thread' u d ds')
    then show ?thesis using begun_use [of fresh thread op thread' _ every]
      by (cases u) (auto simp: use_operation_def)
  next
    case (rt_drop t wait k upgraded cancel)
    then show ?thesis by (cases cancel) (auto simp: drop_wait_def fact_defs split: if_splits)
  next
    case (rt_answer t task answer completed op k)
    then show ?thesis
      by (cases "(task, answer)" rule: task_answer.cases) (auto simp: fact_defs split: sum.splits)
  qed (auto simp: fact_defs)
  have "(dispatch_label n l \<longleftrightarrow> length (rs_completions s) = n \<and> length (rs_completions s') = Suc n) \<and>
      (length (rs_completions s') = length (rs_completions s) \<or> length (rs_completions s') = Suc (length (rs_completions s)))"
    using assms
  proof cases
    case (rt_operation k op handled call op' dir' t)
    then show ?thesis by (auto simp: run_callback_def split: option.splits Callback.splits)
  qed (auto simp: fact_defs split: option.splits prod.splits)
  then show "dispatch_label n l \<longleftrightarrow> length (rs_completions s) = n \<and> length (rs_completions s') = Suc n"
    "length (rs_completions s') = length (rs_completions s) \<or> length (rs_completions s') = Suc (length (rs_completions s))"
    by blast+
qed

text \<open>Calls are delivery tasks and rejections; a delivery that could not be spawned is lost.\<close>

lemma called_step:
  assumes "rt_step s l s'"
  shows "(if delivery_label n l then 1 else 0) + (if every \<and> rejected_label n l then 1 else 0) \<le>
      of_dispatch n (case snd l of None \<Rightarrow> {#} | Some d \<Rightarrow> called_load every d)"
    and "returned_label l \<Longrightarrow> (if delivery_label n l then 1 else 0) + (if every \<and> rejected_label n l then 1 else 0) =
      of_dispatch n (case snd l of None \<Rightarrow> {#} | Some d \<Rightarrow> called_load every d)"
proof -
  have "(if delivery_label n l then 1 else 0) + (if every \<and> rejected_label n l then 1 else 0) \<le>
      of_dispatch n (case snd l of None \<Rightarrow> {#} | Some d \<Rightarrow> called_load every d) \<and>
    (returned_label l \<longrightarrow> (if delivery_label n l then 1 else 0) + (if every \<and> rejected_label n l then 1 else 0) =
      of_dispatch n (case snd l of None \<Rightarrow> {#} | Some d \<Rightarrow> called_load every d))"
    using assms
  proof cases
    case (rt_operation k op handled call op' dir' t)
    then show ?thesis by (cases "(every, call)" rule: call_load.cases) (auto simp: spawned_def)
  next
    case (rt_advance t thread k op fresh thread' u d ds')
    then show ?thesis by (cases u) (auto simp: use_operation_def)
  next
    case (rt_drop t wait k upgraded cancel)
    then show ?thesis by (cases cancel) auto
  qed auto
  then show "(if delivery_label n l then 1 else 0) + (if every \<and> rejected_label n l then 1 else 0) \<le>
      of_dispatch n (case snd l of None \<Rightarrow> {#} | Some d \<Rightarrow> called_load every d)"
    "returned_label l \<Longrightarrow> (if delivery_label n l then 1 else 0) + (if every \<and> rejected_label n l then 1 else 0) =
      of_dispatch n (case snd l of None \<Rightarrow> {#} | Some d \<Rightarrow> called_load every d)" by blast+
qed

subsection \<open>The accounts of a schedule\<close>

definition dispatch_accounts ::
  "nat \<Rightarrow> ('i, 'c, 'e, 'l) RuntimeLabel list \<Rightarrow> ('i, 'c, 'e, 'l) RuntimeSystem \<Rightarrow> bool" where
  "dispatch_accounts n tr s \<longleftrightarrow>
     finite (deliveries_of n s) \<and>
     card (deliveries_of n s) + count_labels (delivered_label n) tr + count_labels (failed_label n) tr =
       count_labels (delivery_label n) tr \<and>
     count_labels (dispatch_label n) tr = (if n < length (rs_completions s) then 1 else 0) \<and>
     (\<forall>every. of_dispatch n (begun_commands every (directory_trace tr)) =
        count_labels (dispatch_label n) tr + (if every then count_labels (failed_label n) tr else 0)) \<and>
     (\<forall>every. count_labels (delivery_label n) tr + (if every then count_labels (rejected_label n) tr else 0) \<le>
        of_dispatch n (called_commands every (directory_trace tr))) \<and>
     (list_all returned_label tr \<longrightarrow>
        count_labels (delivery_label n) tr + count_labels (rejected_label n) tr =
        of_dispatch n (called_commands True (directory_trace tr)))"

lemma dispatch_accountsD:
  assumes "dispatch_accounts n tr s"
  shows "finite (deliveries_of n s)"
    and "card (deliveries_of n s) + count_labels (delivered_label n) tr + count_labels (failed_label n) tr =
       count_labels (delivery_label n) tr"
    and "count_labels (dispatch_label n) tr = (if n < length (rs_completions s) then 1 else 0)"
    and "of_dispatch n (begun_commands every (directory_trace tr)) =
        count_labels (dispatch_label n) tr + (if every then count_labels (failed_label n) tr else 0)"
    and "count_labels (delivery_label n) tr + (if every then count_labels (rejected_label n) tr else 0) \<le>
        of_dispatch n (called_commands every (directory_trace tr))"
    and "list_all returned_label tr \<Longrightarrow> count_labels (delivery_label n) tr + count_labels (rejected_label n) tr =
        of_dispatch n (called_commands True (directory_trace tr))"
  using assms unfolding dispatch_accounts_def by blast+

lemma command_trace_snoc:
  "begun_commands every (directory_trace (tr @ [l])) =
     begun_commands every (directory_trace tr) + (case snd l of None \<Rightarrow> {#} | Some d \<Rightarrow> begun_load every d)"
  "called_commands every (directory_trace (tr @ [l])) =
     called_commands every (directory_trace tr) + (case snd l of None \<Rightarrow> {#} | Some d \<Rightarrow> called_load every d)"
  by (simp_all split: option.splits)

interpretation dispatch_schedule:
  trace_invariant rt_step "runtime_start self" "dispatch_accounts n"
  for self :: "('i, 'c PendingCommand, 'e, 'l) LocalDirectory" and n
proof unfold_locales
  show "dispatch_accounts n [] (runtime_start self)"
    by (simp add: dispatch_accounts_def runtime_start_def directory_start_def deliveries_of_def)
next
  fix tr l and s s' :: "('i, 'c, 'e, 'l) RuntimeSystem"
  assume before: "dispatch_accounts n tr s" and step: "rt_step s l s'"
  note old = dispatch_accountsD [OF before]
  show "dispatch_accounts n (tr @ [l]) s'"
    unfolding dispatch_accounts_def
  proof (intro conjI allI impI)
    show "finite (deliveries_of n s')" using deliveries_step [OF old(1) step] by blast
    show "card (deliveries_of n s') + count_labels (delivered_label n) (tr @ [l]) + count_labels (failed_label n) (tr @ [l]) =
        count_labels (delivery_label n) (tr @ [l])"
      using deliveries_step [OF old(1) step] old(2) by simp
    show "count_labels (dispatch_label n) (tr @ [l]) = (if n < length (rs_completions s') then 1 else 0)"
      using old(3) begun_step(2) [OF step, of n] begun_step(3) [OF step] by (auto split: if_splits)
    show "of_dispatch n (begun_commands every (directory_trace (tr @ [l]))) =
        count_labels (dispatch_label n) (tr @ [l]) + (if every then count_labels (failed_label n) (tr @ [l]) else 0)" for every
      using old(4) [of every] begun_step(1) [OF step, of n every] unfolding command_trace_snoc by simp
    show "count_labels (delivery_label n) (tr @ [l]) + (if every then count_labels (rejected_label n) (tr @ [l]) else 0) \<le>
        of_dispatch n (called_commands every (directory_trace (tr @ [l])))" for every
      using old(5) [of every] called_step(1) [OF step, of n every] unfolding command_trace_snoc by (simp split: if_splits)
    show "count_labels (delivery_label n) (tr @ [l]) + count_labels (rejected_label n) (tr @ [l]) =
        of_dispatch n (called_commands True (directory_trace (tr @ [l])))" if "list_all returned_label (tr @ [l])"
      using old(6) called_step(2) [OF step, of n True] that unfolding command_trace_snoc by (simp split: if_splits)
  qed
qed

text \<open>
  The balance of one dispatch: the places its command can be in, its answers and its withdrawal are
  at most one, and exactly one while nothing unwinds.
\<close>

definition places ::
  "NonZeroUsize \<Rightarrow> nat \<Rightarrow> ('i, 'c, 'e, 'l) RuntimeLabel list \<Rightarrow> ('i, 'c, 'e, 'l) RuntimeSystem \<Rightarrow> nat" where
  "places limit n tr s =
     of_dispatch n (held_commands True (directory_trace tr) (rs_directory s)) + card (deliveries_of n s) +
     answers_given n tr + of_dispatch n (withdrawn_commands limit True (directory_trace tr))"

lemma dispatch_balance:
  assumes "with_hasher config h = Inr self" and "schedule rt_step (runtime_start self) tr s"
  shows "places (cfg_activation_waiters config) n tr s \<le> (if n < length (rs_completions s) then 1 else 0)"
    and "\<not> list_ex unwinds (directory_trace tr) \<Longrightarrow> list_all returned_label tr \<Longrightarrow>
      places (cfg_activation_waiters config) n tr s = (if n < length (rs_completions s) then 1 else 0)"
    and "count_labels (delivery_label n) tr \<le> (if n < length (rs_completions s) then 1 else 0)"
proof -
  let ?limit = "cfg_activation_waiters config" and ?dtr = "directory_trace tr" and ?ds = "rs_directory s"
  note acc = dispatch_accountsD [OF dispatch_schedule.inv_schedule [OF assms(2)], of n]
  have dir: "within (every \<and> \<not> list_ex unwinds ?dtr)
      (held_commands every ?dtr ?ds + called_commands every ?dtr + withdrawn_commands ?limit every ?dtr) (begun_commands every ?dtr)" for every
    using all_commands_accounted [OF assms(1) runtime_directory [OF assms(2)], of every] by (simp add: commands_accounted_def)
  have le: "of_dispatch n (held_commands every ?dtr ?ds) + of_dispatch n (called_commands every ?dtr) +
      of_dispatch n (withdrawn_commands ?limit every ?dtr) \<le> of_dispatch n (begun_commands every ?dtr)" for every
    using of_dispatch_mono [of _ _ n] dir [of every] by (force simp: within_def simp flip: of_dispatch_simps(2))
  show "places ?limit n tr s \<le> (if n < length (rs_completions s) then 1 else 0)"
    using le [of True] acc(2) acc(4) [of True, simplified] acc(5) [of True, simplified]
    unfolding places_def answers_given_def acc(3) [symmetric] by linarith
  show "count_labels (delivery_label n) tr \<le> (if n < length (rs_completions s) then 1 else 0)"
    using le [of False] acc(4) [of False, simplified] acc(5) [of False, simplified]
    unfolding acc(3) [symmetric] by linarith
  show "places ?limit n tr s = (if n < length (rs_completions s) then 1 else 0)"
    if "\<not> list_ex unwinds ?dtr" "list_all returned_label tr"
  proof -
    have "of_dispatch n (held_commands True ?dtr ?ds) + of_dispatch n (called_commands True ?dtr) +
        of_dispatch n (withdrawn_commands ?limit True ?dtr) = of_dispatch n (begun_commands True ?dtr)"
      using dir [of True] that(1) unfolding within_def of_dispatch_simps(2) [symmetric] by simp
    then show ?thesis
      using acc(2,3) acc(4) [of True, simplified] acc(6) [OF that(2)] unfolding places_def answers_given_def by simp
  qed
qed

subsection \<open>Completions\<close>

lemma completion_complete_awaiting [simp]:
  "snd (completion_complete completion result) \<noteq> Awaiting w"
  by (cases completion) auto

lemma update_nth: "n < length xs \<Longrightarrow> xs[i := x] ! n = (if i = n then x else xs ! n)"
  by (cases "i = n") auto

lemma answer_label_simps:
  "rt_step s l s' \<Longrightarrow> delivered_label n l \<or> rejected_label n l \<Longrightarrow> n < length (rs_completions s) \<Longrightarrow>
     \<forall>w. rs_completions s' ! n \<noteq> Awaiting w"
proof (erule rt_stepE, goal_cases)
  case (3 k op handled call op' dir' t)
  then show ?case by (cases call; cases "the call") (auto simp: run_callback_def)
next
  case (7 t task answer completed op k)
  then show ?case by (cases "(task, answer)" rule: task_answer.cases) (auto split: sum.splits)
qed auto

lemma unanswered_step:
  assumes "rt_step s l s'" and "n < length (rs_completions s)" and "\<not> delivered_label n l" and "\<not> rejected_label n l"
  shows "(\<exists>w. rs_completions s' ! n = Awaiting w) \<longleftrightarrow> (\<exists>w. rs_completions s ! n = Awaiting w)"
  using assms(1)
proof cases
  case (rt_operation k op handled call op' dir' t)
  then show ?thesis using assms(2-4)
    by (cases call; cases "the call") (auto simp: run_callback_def update_nth)
next
  case (rt_poll t wait waker r completion)
  then show ?thesis using assms(2)
    by (cases "rs_completions s ! dw_completion wait") (auto simp: update_nth)
next
  case (rt_answer t task answer completed op k)
  then show ?thesis using assms(2-4)
    by (cases "(task, answer)" rule: task_answer.cases) (auto simp: update_nth split: sum.splits)
qed (use assms(2) in \<open>auto simp: nth_append\<close>)

lemma completion_answered:
  assumes "with_hasher config h = Inr self" and "schedule rt_step (runtime_start self) tr s"
    and "n < length (rs_completions s)"
  shows "(\<exists>w. rs_completions s ! n = Awaiting w) \<longleftrightarrow> answers_given n tr = 0"
  using assms(2,3)
proof (induction tr arbitrary: s rule: rev_induct)
  case Nil
  then show ?case by (simp add: runtime_start_def)
next
  case (snoc l tr)
  then obtain s0 where s0: "schedule rt_step (runtime_start self) tr s0" "rt_step s0 l s" by auto
  show ?case
  proof (cases "n < length (rs_completions s0)")
    case True
    then show ?thesis
      using snoc.IH [OF s0(1) True] answer_label_simps [OF s0(2), of n] unanswered_step [OF s0(2) True]
      by (auto simp: answers_given_def)
  next
    case False
    then have n: "n = length (rs_completions s0)" "dispatch_label n l"
      using begun_step(2,3) [OF s0(2)] snoc.prems(2) by auto
    then have "rs_completions s ! n = Awaiting None"
      using s0(2) by (elim rt_stepE) (auto simp: completion_new_state_def elim: dispatch_label.elims)
    moreover have "answers_given n tr = 0"
      using dispatch_balance(1) [OF assms(1) s0(1), of n] False by (simp add: places_def)
    moreover have "\<not> delivered_label n l" "\<not> rejected_label n l" using n(2) by (auto elim: dispatch_label.elims)
    ultimately show ?thesis by (simp add: answers_given_def)
  qed
qed

subsection \<open>What is delivered was dispatched\<close>

lemma step_delivery:
  assumes "rt_step s (RtOperation t (Some (DeliverTask i a d endpoint pending)), dl) s'"
  shows "\<exists>l. dl = Some l \<and> (Some i, pending) \<in># called_load False l"
  using assms by cases (auto simp: spawned_def tag_def split: option.splits Callback.splits if_splits elim!: on_call.elims)

lemma step_dispatch:
  assumes "rt_step s l s'" and "snd l = Some b" and "(Some i, pending) \<in># begun_load False b"
  shows "\<exists>t k. l = (RtDispatch t i (pc_command pending), Some (Begin k (dispatch i pending)))"
  using assms(1)
proof cases
  case (rt_advance t thread k op fresh thread' u dl ds')
  then show ?thesis using assms(2,3) begun_use [of fresh thread op thread' _ False]
    by (cases u) (auto simp: use_operation_def)
next
  case (rt_answer t task answer completed op k)
  then show ?thesis using assms(2,3)
    by (cases "(task, answer)" rule: task_answer.cases) (auto simp: fact_defs split: sum.splits)
next
  case (rt_drop t wait k upgraded cancel)
  then show ?thesis using assms(2,3) by (cases cancel) (auto simp: drop_wait_def fact_defs split: if_splits)
qed (use assms(2,3) in \<open>auto simp: fact_defs tag_def\<close>)

lemma delivered_was_dispatched:
  assumes "with_hasher config h = Inr self" and "schedule rt_step (runtime_start self) tr s"
    and "(RtOperation t (Some (DeliverTask i a d endpoint pending)), dl) \<in> set tr"
  shows "\<exists>t' k. (RtDispatch t' i (pc_command pending), Some (Begin k (dispatch i pending))) \<in> set tr"
proof -
  have called: "(Some i, pending) \<in># called_commands False (directory_trace tr)"
    using assms(2,3)
  proof (induction tr arbitrary: s rule: rev_induct)
    case (snoc l tr)
    then obtain s0 where s0: "schedule rt_step (runtime_start self) tr s0" "rt_step s0 l s" by auto
    show ?case
    proof (cases "l = (RtOperation t (Some (DeliverTask i a d endpoint pending)), dl)")
      case True
      then show ?thesis using step_delivery s0(2) unfolding command_trace_snoc by fastforce
    next
      case False
      then show ?thesis using snoc.IH [OF s0(1)] snoc.prems(2) unfolding command_trace_snoc by simp
    qed
  qed simp
  have "called_commands False (directory_trace tr) \<subseteq># begun_commands False (directory_trace tr)"
    using all_commands_accounted [OF assms(1) runtime_directory [OF assms(2)], of False]
    by (auto simp: commands_accounted_def within_def subseteq_mset_def trans_le_add2 intro: add_leE)
  with called have "(Some i, pending) \<in># begun_commands False (directory_trace tr)" by (rule mset_subset_eqD [rotated])
  with assms(2) show ?thesis
  proof (induction tr arbitrary: s rule: rev_induct)
    case (snoc l tr)
    then obtain s0 where s0: "schedule rt_step (runtime_start self) tr s0" "rt_step s0 l s" by auto
    from snoc.prems(2) consider "(Some i, pending) \<in># begun_commands False (directory_trace tr)"
      | b where "snd l = Some b" "(Some i, pending) \<in># begun_load False b"
      unfolding command_trace_snoc by (auto split: option.splits)
    then show ?case
    proof cases
      case 1
      then show ?thesis using snoc.IH [OF s0(1)] by fastforce
    next
      case 2
      then show ?thesis using step_dispatch [OF s0(2)] by fastforce
    qed
  qed simp
qed

subsection \<open>Schedules in which nothing unwinds\<close>

lemma call_unwinds:
  "operation_step (Some p) op self = (Some call, op', self') \<Longrightarrow> operation_ok cs op \<Longrightarrow> panicked op' \<noteq> None"
proof (cases op)
  case (AtInterpret i q pc effects)
  assume "operation_step (Some p) op self = (Some call, op', self')" "operation_ok cs op"
  then show ?thesis using AtInterpret
    by (cases effects; cases pc) (auto simp: Let_def split: prod.splits option.splits sum.splits)
next
  case (AtTransient i effects)
  assume "operation_step (Some p) op self = (Some call, op', self')"
  then show ?thesis using AtTransient by (cases effects) (auto simp: Let_def split: prod.splits option.splits)
qed (auto split: option.splits prod.splits sum.splits)

lemma callback_panic_unwinds: "callback_panic d \<Longrightarrow> unwinds d"
  by (elim callback_panic.elims) simp_all

lemma calm_callbacks:
  assumes "with_hasher config h = Inr self" and "schedule rt_step (runtime_start self) tr s"
    and "\<not> list_ex unwinds (directory_trace tr)"
  shows "callbacks_return tr"
  using assms(2,3)
proof (induction tr arbitrary: s rule: rev_induct)
  case Nil
  then show ?case by (simp add: callbacks_return_def)
next
  case (snoc l tr)
  then obtain s0 where s0: "schedule rt_step (runtime_start self) tr s0" "rt_step s0 l s" by auto
  have calm: "\<not> list_ex unwinds (directory_trace tr)" "snd l = Some d \<Longrightarrow> \<not> unwinds d" for d
    using snoc.prems(2) by auto
  have "returned_label l"
    using s0(2)
  proof cases
    case (rt_operation k op handled call op' dir' t)
    have ok: "operation_ok (claims_made (directory_trace tr)) op"
      by (rule pointers_ok_operation [OF directory_reaches(1) [OF assms(1) runtime_directory [OF s0(1)]] rt_operation(3)])
    have "panicked op' = None" using calm(2) rt_operation(1) by simp
    then have "call = None \<or> handled = None"
      using call_unwinds [OF _ ok] rt_operation(4) by (cases handled; cases call) auto
    then show ?thesis using rt_operation(1) by (auto simp: spawned_def)
  next
    case (rt_advance t thread k op fresh thread' u d ds')
    then show ?thesis by (cases u) (auto simp: use_operation_def)
  next
    case (rt_drop t wait k upgraded cancel)
    then show ?thesis by (cases cancel) auto
  qed auto
  then show ?case
    using snoc.IH [OF s0(1) calm(1)] calm(2) callback_panic_unwinds
    by (auto simp: callbacks_return_snoc split: option.splits)
qed

subsection \<open>At most once\<close>

text \<open>
  C3: Delivery is at most once and faithful: in every interleaving, whatever panics, at most one
  delivery task is ever spawned for a dispatch, and what any delivery task carries is the very
  command of a dispatch to the entity it delivers to; a dispatch is answered at most once, delivered
  or rejected; while a delivery task runs for it it is unanswered and no other place holds its
  command; and its completion is awaited exactly as long as it is unanswered.
\<close>

theorem dispatch_delivered_at_most_once:
  assumes "with_hasher config h = Inr self" and "schedule rt_step (runtime_start self) tr s"
  shows "count_labels (delivery_label n) tr \<le> 1 \<and> answers_given n tr \<le> 1 \<and>
     (deliveries_of n s \<noteq> {} \<longrightarrow> card (deliveries_of n s) = 1 \<and> answers_given n tr = 0 \<and>
        of_dispatch n (held_commands True (directory_trace tr) (rs_directory s)) = 0) \<and>
     (n < length (rs_completions s) \<longrightarrow> (\<exists>w. rs_completions s ! n = Awaiting w) = (answers_given n tr = 0)) \<and>
     (\<forall>t i a d endpoint pending label. (RtOperation t (Some (DeliverTask i a d endpoint pending)), label) \<in> set tr \<longrightarrow>
        (\<exists>t' k. (RtDispatch t' i (pc_command pending), Some (Begin k (dispatch i pending))) \<in> set tr))"
proof -
  have balance: "of_dispatch n (held_commands True (directory_trace tr) (rs_directory s)) + card (deliveries_of n s) + answers_given n tr \<le> 1"
    "count_labels (delivery_label n) tr \<le> 1"
    using dispatch_balance(1,3) [OF assms, of n] unfolding places_def by (auto split: if_splits)
  have "card (deliveries_of n s) \<noteq> 0" if "deliveries_of n s \<noteq> {}"
    using dispatch_accountsD(1) [OF dispatch_schedule.inv_schedule [OF assms(2)], of n] that by simp
  then have "card (deliveries_of n s) = 1 \<and> answers_given n tr = 0 \<and>
      of_dispatch n (held_commands True (directory_trace tr) (rs_directory s)) = 0" if "deliveries_of n s \<noteq> {}"
    using balance(1) that by linarith
  moreover have "answers_given n tr \<le> 1" using balance(1) by linarith
  ultimately show ?thesis
    using balance(2) completion_answered [OF assms, of n] delivered_was_dispatched [OF assms] by blast
qed

lemma sample_delivery:
  "case with_hasher sample_config sample_hash of Inl (_ :: nat PendingCommand DirectoryError) \<Rightarrow> False
   | Inr self \<Rightarrow>
       (case pick_all sample_path (runtime_start self) of None \<Rightarrow> False
        | Some (tr, s) \<Rightarrow> length (rs_completions s) = 1 \<and> rs_completions s ! 0 = Ready (Inr ()) \<and>
            answers_given 0 tr = 1 \<and> count_labels (delivery_label 0) tr = 1)"
  by code_simp

theorem dispatch_delivered_at_most_once_witness:
  "\<exists>(self :: (u64, nat PendingCommand, nat, nat) LocalDirectory) tr s.
     with_hasher sample_config sample_hash = Inr self \<and> schedule rt_step (runtime_start self) tr s \<and>
     count_labels (delivery_label 0) tr = 1 \<and> answers_given 0 tr = 1 \<and> deliveries_of 0 s = {}"
proof -
  obtain self :: "(u64, nat PendingCommand, nat, nat) LocalDirectory" and tr s where
    run: "with_hasher sample_config sample_hash = Inr self" "pick_all sample_path (runtime_start self) = Some (tr, s)"
    "answers_given 0 tr = 1" "count_labels (delivery_label 0) tr = 1"
    using sample_delivery by (auto split: sum.splits option.splits)
  note schedule = pick_all_schedule [OF run(2)]
  have "deliveries_of 0 s = {}"
    using dispatch_delivered_at_most_once [OF run(1) schedule, of 0] run(3) by auto
  then show ?thesis using run schedule by blast
qed

end
