(* ===== verification/Runtime_Answers.thy ===== *)
theory Runtime_Answers
  imports Runtime_Commands
begin

section \<open>No dispatch is forgotten\<close>

text \<open>
  A command leaves a slot without a call only when a cancellation with its dispatch identity is
  submitted.  Dispatch identities are never reused, so that cancellation was begun by the drop of
  that very dispatch's wait.  With the balance of \<open>Runtime_Commands\<close> this says where the command of a
  dispatch is once nothing moves any more.
\<close>

subsection \<open>Dispatch identities\<close>

fun ticket_label :: "('i, 'c, 'e, 'l) DirectoryLabel \<Rightarrow> (DispatchId \<times> 'c) list" where
  "ticket_label (Progress k (AtAllocate i c) call (AtLookup d j c')) = [(d, c)]"
| "ticket_label _ = []"

definition tickets :: "('i, 'c, 'e, 'l) DirectoryLabel list \<Rightarrow> (DispatchId \<times> 'c) list" where
  "tickets tr = concat (map ticket_label tr)"

lemma tickets_simps [simp]: "tickets [] = []" "tickets (tr @ [l]) = tickets tr @ ticket_label l"
  by (simp_all add: tickets_def)

definition began :: "('c, 'e, 'l) SlotEvent \<Rightarrow> ('i, 'c, 'e, 'l) DirectoryLabel list \<Rightarrow> bool" where
  "began ev tr \<longleftrightarrow> (\<exists>k i. Begin k (AtFind i ev) \<in> set tr)"

fun operation_ticketed :: "('i, 'c, 'e, 'l) DirectoryLabel list \<Rightarrow> ('i, 'c, 'e, 'l) Operation \<Rightarrow> bool" where
  "operation_ticketed tr (AtLookup d i c) = ((d, c) \<in> set (tickets tr))"
| "operation_ticketed tr (AtDispatch d i q c) = ((d, c) \<in> set (tickets tr))"
| "operation_ticketed tr (AtFind i ev) = began ev tr"
| "operation_ticketed tr (AtSubmitTo q i ev) = began ev tr"
| "operation_ticketed tr _ = True"

fun event_ticketed :: "('i, 'c, 'e, 'l) DirectoryLabel list \<Rightarrow> ('c, 'e, 'l) SlotEvent \<Rightarrow> bool" where
  "event_ticketed tr (ClaimActivation a d c limit) = ((d, c) \<in> set (tickets tr))"
| "event_ticketed tr (Dispatch d c) = ((d, c) \<in> set (tickets tr))"
| "event_ticketed tr ev = began ev tr"

definition ticketed :: "NonZeroUsize \<Rightarrow> ('i, 'c, 'e, 'l) DirectoryLabel list \<Rightarrow> ('i, 'c, 'e, 'l) DirectorySystem \<Rightarrow> bool" where
  "ticketed limit tr s \<longleftrightarrow>
     unat (dir_next_dispatch (ds_directory s)) = Suc (length (tickets tr)) \<and>
     (\<forall>j<length (tickets tr). fst (tickets tr ! j) = DispatchId (nz (of_nat (Suc j)))) \<and>
     (\<forall>k op. ds_operations s k = Some op \<longrightarrow> operation_ticketed tr op) \<and>
     (\<forall>p. \<forall>ev\<in>set (slot_events limit p tr). event_ticketed tr ev)"

lemma began_mono: "began ev tr \<Longrightarrow> began ev (tr @ [l])"
  by (auto simp: began_def)

lemma ticketed_mono:
  "operation_ticketed tr op \<Longrightarrow> operation_ticketed (tr @ [l]) op" "event_ticketed tr ev \<Longrightarrow> event_ticketed (tr @ [l]) ev"
  by (cases op; simp add: began_mono) (cases ev; simp add: began_mono)

lemma submit_at_sequence: "submit_at q ev self = (r, self') \<Longrightarrow> dir_next_dispatch self' = dir_next_dispatch self"
  by (auto simp: submit_at_def split: prod.splits)

lemma operation_step_sequence:
  assumes "operation_step handled op self = (call, op', self')"
  shows "dir_next_dispatch self' = dir_next_dispatch self \<and> ticket_label (Progress k op call op') = [] \<or>
    (\<exists>i c sequence. op = AtAllocate i c \<and> op' = AtLookup (DispatchId sequence) i c \<and>
       allocate (dir_next_dispatch self) = (Some sequence, dir_next_dispatch self'))"
proof (cases op)
  case (AtAllocate i c)
  then show ?thesis using assms by (auto split: option.splits prod.splits)
next
  case (AtLookup d i c)
  then show ?thesis using assms
    by (auto simp: dispatch_lookup_def Let_def alloc_slot_def dest!: submit_at_sequence
        split: sum.splits option.splits prod.splits)
next
  case (AtInterpret i q pc effects)
  then show ?thesis using assms by (cases effects) (auto simp: Let_def split: prod.splits option.splits)
next
  case (AtTransient i effects)
  then show ?thesis using assms by (cases effects) (auto simp: Let_def split: prod.splits option.splits)
qed (use assms in \<open>auto dest!: submit_at_sequence split: sum.splits option.splits prod.splits\<close>)

lemma operation_step_ticketed:
  assumes "operation_step handled op self = (call, op', self')" and "operation_ticketed tr op"
  shows "operation_ticketed (tr @ [Progress k op call op']) op'"
proof (cases op)
  case (AtLookup d i c)
  then show ?thesis using assms
    by (auto simp: dispatch_lookup_def Let_def alloc_slot_def split: sum.splits option.splits prod.splits)
next
  case (AtInterpret i q pc effects)
  then show ?thesis using assms by (cases effects) (auto simp: Let_def split: prod.splits option.splits)
next
  case (AtTransient i effects)
  then show ?thesis using assms by (cases effects) (auto simp: Let_def split: prod.splits option.splits)
qed (use assms in \<open>auto simp: began_mono split: sum.splits option.splits prod.splits\<close>)

lemma event_label_ticketed:
  assumes "ev \<in> set (event_label limit p (Progress k op call op'))" and "operation_ticketed tr op" and "operation_ok cs op"
  shows "event_ticketed tr ev"
proof -
  have fact: "event_ticketed tr ev" if "began ev tr" "event_generation ev \<noteq> None"
    using that by (cases ev) auto
  show ?thesis using assms fact
    by (cases "(limit, p, Progress k op call op')" rule: event_label.cases)
      (auto split: OutputTarget.splits option.splits if_splits)
qed

lemma ticketed_step:
  assumes ptrs: "pointers_ok limit tr s" and before: "ticketed limit tr s" and step: "dir_step s l s'"
  shows "ticketed limit (tr @ [l]) s'"
proof -
  have old: "unat (dir_next_dispatch (ds_directory s)) = Suc (length (tickets tr))"
    "\<And>j. j < length (tickets tr) \<Longrightarrow> fst (tickets tr ! j) = DispatchId (nz (of_nat (Suc j)))"
    "\<And>k op. ds_operations s k = Some op \<Longrightarrow> operation_ticketed tr op"
    "\<And>p ev. ev \<in> set (slot_events limit p tr) \<Longrightarrow> event_ticketed tr ev"
    using before by (auto simp: ticketed_def)
  have keep: "\<And>k op. ds_operations s k = Some op \<Longrightarrow> operation_ticketed (tr @ [l]) op"
    "\<And>p ev. ev \<in> set (slot_events limit p tr) \<Longrightarrow> event_ticketed (tr @ [l]) ev"
    using old(3,4) ticketed_mono by blast+
  from step show ?thesis
  proof (cases rule: dir_step_cases)
    case (begun k op)
    have "operation_ticketed (tr @ [l]) op" using begun by (cases op) (auto simp: began_def)
    then show ?thesis using begun old(1,2) keep by (auto simp: ticketed_def)
  next
    case (interpreted k op out)
    then show ?thesis using old(1,2) keep
      by (auto simp: ticketed_def interpret_output_def split: OutputTarget.splits)
  next
    case (progress k op handled call op' dir')
    have op': "operation_ticketed (tr @ [l]) op'"
      using operation_step_ticketed [OF progress(3) old(3) [OF progress(2)]] progress(1) by simp
    have events: "event_ticketed (tr @ [l]) ev" if "ev \<in> set (slot_events limit p (tr @ [l]))" for p ev
      using that keep(2) progress(1) ticketed_mono(2)
        event_label_ticketed [OF _ old(3) [OF progress(2)] pointers_ok_operation [OF ptrs progress(2)], of ev limit p k call op']
      by auto
    have "unat (dir_next_dispatch dir') = Suc (length (tickets (tr @ [l]))) \<and>
        (\<forall>j<length (tickets (tr @ [l])). fst (tickets (tr @ [l]) ! j) = DispatchId (nz (of_nat (Suc j))))"
      using operation_step_sequence [OF progress(3), of k]
    proof (elim disjE conjE exE)
      fix i c sequence
      assume alloc: "op = AtAllocate i c" "op' = AtLookup (DispatchId sequence) i c"
        "allocate (dir_next_dispatch (ds_directory s)) = (Some sequence, dir_next_dispatch dir')"
      let ?n = "dir_next_dispatch (ds_directory s)"
      have n: "of_nat (Suc (length (tickets tr))) = ?n" unfolding old(1) [symmetric] by simp
      have nonzero: "?n \<noteq> 0" using old(1) by auto
      have less: "unat ?n + 1 < 2 ^ 64"
        using alloc(3) allocate_simps(2) [of ?n] by (cases "unat ?n + 1 < 2 ^ 64") auto
      then have "sequence = nz ?n" "unat (dir_next_dispatch dir') = unat ?n + 1"
        using allocate_simps(1) [OF less nonzero] alloc(3) by auto
      then show ?thesis
        using progress(1) alloc(1,2) old(1,2) n by (auto simp: nth_append less_Suc_eq)
    qed (use old(1,2) progress(1) in simp)
    then show ?thesis
      using progress(4) op' events keep(1) by (auto simp: ticketed_def)
  qed
qed

lemma all_ticketed:
  assumes "with_hasher config h = Inr self" and "schedule dir_step (directory_start self) tr s"
  shows "ticketed (cfg_activation_waiters config) tr s"
  using assms(2)
proof (induction tr arbitrary: s rule: rev_induct)
  case Nil
  have "dir_next_dispatch self = 1" using assms(1) by (auto simp: with_hasher_def split: option.splits)
  then show ?case using Nil by (simp add: ticketed_def directory_start_def)
next
  case (snoc l tr)
  then obtain s0 where s0: "schedule dir_step (directory_start self) tr s0" "dir_step s0 l s" by auto
  show ?case by (rule ticketed_step [OF directory_reaches(1) [OF assms(1) s0(1)] snoc.IH [OF s0(1)] s0(2)])
qed

text \<open>A dispatch identity names one dispatch.\<close>

lemma tickets_unique:
  assumes "ticketed limit tr s" and "(d, c) \<in> set (tickets tr)" and "(d, c') \<in> set (tickets tr)"
  shows "c' = c"
proof -
  obtain j j' where j: "j < length (tickets tr)" "tickets tr ! j = (d, c)" "j' < length (tickets tr)" "tickets tr ! j' = (d, c')"
    using assms(2,3) by (auto simp: in_set_conv_nth)
  have "length (tickets tr) < 2 ^ 64 - 1"
    using assms(1) unat_u64_less [of "dir_next_dispatch (ds_directory s)"] by (auto simp: ticketed_def)
  then have less: "Suc j < 2 ^ 64" "Suc j' < 2 ^ 64" using j by auto
  have "DispatchId (nz (of_nat (Suc j))) = DispatchId (nz (of_nat (Suc j')))"
    using assms(1) j unfolding ticketed_def by (metis fst_conv)
  then have "slot_id j = slot_id j'" by (simp add: slot_id_def del: of_nat_Suc nz_eq_iff)
  then have "j = j'" using slot_id_inject [OF less] by simp
  then show ?thesis using j by simp
qed

subsection \<open>What a cancellation withdraws\<close>

fun dispatches :: "DispatchId \<Rightarrow> 'c \<Rightarrow> ('c, 'e, 'l) SlotEvent \<Rightarrow> bool" where
  "dispatches d c (ClaimActivation a d' c' limit) = (d' = d \<and> c' = c)"
| "dispatches d c (Dispatch d' c') = (d' = d \<and> c' = c)"
| "dispatches d c _ = False"

lemma reduce_waiters:
  assumes "reduce st ev = Inr r" and "(d, c) \<in># slot_commands (dec_state r)"
  shows "(d, c) \<in># slot_commands st \<or> dispatches d c ev"
proof -
  have filtered: "x \<in> (\<lambda>w. (wt_dispatch_id w, wt_command w)) ` set ws"
    if "x \<in> (\<lambda>w. (wt_dispatch_id w, wt_command w)) ` {w \<in> set ws. P w}" for x P and ws :: "'a ActivationWaiter list"
    using that by auto
  show ?thesis
    using assms
    by (cases st; cases ev)
      (auto simp: reducer_simps split: option.splits prod.splits Ordering.splits DrainProgress.splits
        ReservationCount.splits ReservationResolution.splits if_splits dest: filtered)
qed

lemma canceled_pair:
  "(d, c) \<in># canceled_all st evs \<Longrightarrow>
     (\<exists>a. CancelWaiter a d \<in> set evs) \<and> ((d, c) \<in># slot_commands st \<or> list_ex (dispatches d c) evs)"
proof (induction evs arbitrary: st)
  case (Cons ev evs)
  have now: "(\<exists>a. ev = CancelWaiter a d) \<and> (d, c) \<in># slot_commands st" if "(d, c) \<in># canceled_commands st ev"
    using that by (cases "(st, ev)" rule: canceled_commands.cases) (auto split: if_splits)
  from Cons.prems consider "(d, c) \<in># canceled_commands st ev"
    | r where "reduce st ev = Inr r" "(d, c) \<in># canceled_all (dec_state r) evs"
    by (auto split: sum.splits)
  then show ?case
  proof cases
    case 1
    then show ?thesis using now by fastforce
  next
    case 2
    from Cons.IH [OF 2(2)] show ?thesis using reduce_waiters [OF 2(1)] by auto
  qed
qed simp

lemma withdrawn_ticket:
  assumes "with_hasher config h = Inr self" and "schedule dir_step (directory_start self) tr s"
    and "0 < of_dispatch n (withdrawn_commands (cfg_activation_waiters config) True tr)"
  shows "\<exists>a d pending. (d, pending) \<in> set (tickets tr) \<and> pc_completion pending = n \<and>
     began (CancelWaiter a d :: ('c PendingCommand, 'e, 'l) SlotEvent) tr"
proof -
  let ?limit = "cfg_activation_waiters config"
  have pos: "\<exists>x\<in>A. 0 < of_dispatch n (f x)" if "0 < of_dispatch n (sum f A)" "finite A" for f and A :: "nat set"
    using that(2,1) by (induction A rule: finite_induct) auto
  from pos [OF assms(3) [unfolded withdrawn_commands_def]] obtain p where p: "p < length (claims_made tr)"
    "0 < of_dispatch n (image_mset (\<lambda>(d, c). tag True (fst (claims_made tr ! p)) c) (canceled_all Inactive (slot_events ?limit p tr)))"
    by auto
  then obtain d pending where x: "(d, pending) \<in># canceled_all Inactive (slot_events ?limit p tr)" "pc_completion pending = n"
    by (auto simp: of_dispatch_pos tag_def)
  from canceled_pair [OF x(1)] obtain a where a: "CancelWaiter a d \<in> set (slot_events ?limit p tr)"
    "list_ex (dispatches d pending) (slot_events ?limit p tr)" by auto
  have events: "event_ticketed tr ev" if "ev \<in> set (slot_events ?limit p tr)" for ev
    using all_ticketed [OF assms(1,2)] that by (auto simp: ticketed_def)
  obtain ev where "ev \<in> set (slot_events ?limit p tr)" "dispatches d pending ev"
    using a(2) by (auto simp: list_ex_iff)
  with events have "(d, pending) \<in> set (tickets tr)" by (cases ev) fastforce+
  then show ?thesis using events [OF a(1)] x(2) by auto
qed

subsection \<open>The wait of a dispatch\<close>

text \<open>No two threads are in one operation.\<close>

definition keys_ok :: "('i, 'c, 'e, 'l) RuntimeSystem \<Rightarrow> bool" where
  "keys_ok s \<longleftrightarrow>
     (\<forall>t th k. rs_threads s t = Some th \<longrightarrow> thread_operation th = Some k \<longrightarrow> ds_operations (rs_directory s) k \<noteq> None) \<and>
     (\<forall>t t' th th' k. rs_threads s t = Some th \<longrightarrow> rs_threads s t' = Some th' \<longrightarrow>
        thread_operation th = Some k \<longrightarrow> thread_operation th' = Some k \<longrightarrow> t = t')"

lemma keys_ok_update:
  assumes "keys_ok s" and "rs_threads s' = (rs_threads s)(t \<mapsto> th)"
    and "\<And>k. ds_operations (rs_directory s) k \<noteq> None \<Longrightarrow> ds_operations (rs_directory s') k \<noteq> None"
    and "\<And>k. thread_operation th = Some k \<Longrightarrow> ds_operations (rs_directory s') k \<noteq> None \<and>
      (ds_operations (rs_directory s) k = None \<or> (\<exists>th0. rs_threads s t = Some th0 \<and> thread_operation th0 = Some k))"
  shows "keys_ok s'"
proof -
  have before: "rs_threads s t1 = Some th1 \<Longrightarrow> thread_operation th1 = Some k \<Longrightarrow> ds_operations (rs_directory s) k \<noteq> None"
    "rs_threads s t1 = Some th1 \<Longrightarrow> rs_threads s t2 = Some th2 \<Longrightarrow> thread_operation th1 = Some k \<Longrightarrow> thread_operation th2 = Some k \<Longrightarrow> t1 = t2"
    for t1 t2 th1 th2 k using assms(1) unfolding keys_ok_def by blast+
  have other: "t1 = t" if "rs_threads s t1 = Some th1" "thread_operation th1 = Some k" "thread_operation th = Some k" for t1 th1 k
    using assms(4) [OF that(3)] before that by metis
  show ?thesis
    unfolding keys_ok_def assms(2)
    using assms(3,4) before other by (auto split: if_splits)
qed

lemma advance_key:
  assumes "thread_advance fresh thread op = Some (thread', u)" and "thread_operation thread = Some k" and "thread_operation thread' = Some j"
  shows "j = k \<and> (\<exists>out. u = UseOutput out) \<or> j = fresh \<and> (\<exists>op'. u = UseBegin op')"
proof (cases thread)
  case (DispatchCall i n k)
  then show ?thesis using assms
    by (cases "dispatch_result op"; cases "the (dispatch_result op)")
      (auto simp: thread_advance_def split: option.splits sum.splits)
qed (use assms in \<open>auto simp: thread_advance_def split: option.splits if_splits\<close>)

lemma keys_ok_step: "keys_ok s \<Longrightarrow> rt_step s l s' \<Longrightarrow> keys_ok s'"
proof -
  assume before: "keys_ok s" and step: "rt_step s l s'"
  from step show ?thesis
  proof cases
    case (rt_operation k op handled call op' dir' t)
    show ?thesis
    proof (cases "spawned handled call")
      case None
      then show ?thesis using before rt_operation by (auto simp: keys_ok_def run_callback_threads)
    next
      case (Some task)
      then show ?thesis using rt_operation
        by (intro keys_ok_update [OF before, of s' t "TaskRunning task"]) (auto simp: run_callback_threads)
    qed
  next
    case (rt_advance t thread k op fresh thread' u d ds')
    then show ?thesis
      by (intro keys_ok_update [OF before, of s' t thread'])
        (auto simp: use_operation_def dest: advance_key split: OperationUse.splits)
  next
    case (rt_dispatch t k n op i c)
    then show ?thesis by (intro keys_ok_update [OF before, of s' t "DispatchCall i n k"]) auto
  next
    case (rt_passivate t k op i)
    then show ?thesis by (intro keys_ok_update [OF before, of s' t "PassivateLook i k"]) auto
  next
    case (rt_poll t wait waker r completion)
    then show ?thesis
      by (intro keys_ok_update [OF before, of s' t "case r of None \<Rightarrow> DispatchWaiting wait | Some result \<Rightarrow> DispatchDone result"])
        (auto split: option.splits)
  next
    case (rt_drop t wait k upgraded cancel)
    then show ?thesis
      by (intro keys_ok_update [OF before, of s' t "case cancel of None \<Rightarrow> WaitDropped | Some _ \<Rightarrow> WaitCancel k"])
        (auto split: option.splits)
  next
    case (rt_answer t task answer completed op k)
    then show ?thesis by (intro keys_ok_update [OF before, of s' t "TaskFact k"]) auto
  qed
qed

interpretation key_schedule:
  trace_invariant rt_step "runtime_start self" "\<lambda>_. keys_ok"
  for self :: "('i, 'c PendingCommand, 'e, 'l) LocalDirectory"
  by unfold_locales (simp add: keys_ok_def runtime_start_def, rule keys_ok_step)

text \<open>
  What the threads of a schedule know: \<open>known tr ops t th\<close> is about thread \<open>t\<close>, in code position
  \<open>th\<close>, the operation it is in, and the past \<open>tr\<close>.  Only the steps of that operation and of the
  thread itself have to be looked at, because no two threads share an operation.
\<close>

locale thread_knowledge =
  fixes good :: "('i, 'c, 'e, 'l) RuntimeLabel list \<Rightarrow> ('i, 'c PendingCommand, 'e, 'l) DirectorySystem \<Rightarrow> bool"
    and known :: "('i, 'c, 'e, 'l) RuntimeLabel list \<Rightarrow> (nat \<Rightarrow> ('i, 'c PendingCommand, 'e, 'l) Operation option) \<Rightarrow>
      nat \<Rightarrow> ('i, 'c, 'e, 'l) Thread \<Rightarrow> bool"
  assumes known_mono:
      "known tr ops t th \<Longrightarrow> (\<And>k. thread_operation th = Some k \<Longrightarrow> ops' k = ops k) \<Longrightarrow> known (tr @ [l]) ops' t th"
    and known_operation:
      "good tr ds \<Longrightarrow> known tr (ds_operations ds) t th \<Longrightarrow> thread_operation th = Some k \<Longrightarrow> ds_operations ds k = Some op \<Longrightarrow>
         operation_step handled op (ds_directory ds) = (call, op', dir') \<Longrightarrow> snd l = Some (Progress k op call op') \<Longrightarrow>
         known (tr @ [l]) ((ds_operations ds)(k \<mapsto> op')) t th"
    and known_advance:
      "known tr (ds_operations ds) t th \<Longrightarrow> thread_operation th = Some k \<Longrightarrow> ds_operations ds k = Some op \<Longrightarrow>
         thread_advance fresh th op = Some (th', u) \<Longrightarrow> use_operation k fresh u ds = (dl, ds') \<Longrightarrow>
         known (tr @ [(RtAdvance t, dl)]) (ds_operations ds') t th'"
    and known_dispatch:
      "op = dispatch i \<lparr>pc_command = c, pc_completion = n\<rparr> \<Longrightarrow>
         known (tr @ [(RtDispatch t i c, Some (Begin k op))]) (ops(k \<mapsto> op)) t (DispatchCall i n k)"
    and known_passivate:
      "op = current_activation i \<Longrightarrow>
         known (tr @ [(RtPassivate t i, Some (Begin k op))]) (ops(k \<mapsto> op)) t (PassivateLook i k)"
    and known_trivial:
      "known tr ops t (TaskRunning task)" "known tr ops t (TaskFact k)" "known tr ops t (DispatchDone result)"
      "known tr ops t WaitDropped" "known tr ops t (WaitCancel k)"
begin

lemma known_update:
  assumes "keys_ok s" and "\<forall>t th. rs_threads s t = Some th \<longrightarrow> known tr (ds_operations (rs_directory s)) t th"
    and "rs_threads s' = (rs_threads s)(t \<mapsto> th)"
    and "ds_operations (rs_directory s') = (ds_operations (rs_directory s))(k := y)"
    and "ds_operations (rs_directory s) k = None \<or> (\<exists>th0. rs_threads s t = Some th0 \<and> thread_operation th0 = Some k) \<or>
      y = ds_operations (rs_directory s) k"
    and "known (tr @ [l]) (ds_operations (rs_directory s')) t th"
  shows "\<forall>t th. rs_threads s' t = Some th \<longrightarrow> known (tr @ [l]) (ds_operations (rs_directory s')) t th"
proof (intro allI impI)
  fix t1 th1
  assume th1: "rs_threads s' t1 = Some th1"
  show "known (tr @ [l]) (ds_operations (rs_directory s')) t1 th1"
  proof (cases "t1 = t")
    case True
    then show ?thesis using th1 assms(3,6) by simp
  next
    case False
    then have old: "rs_threads s t1 = Some th1" using th1 assms(3) by simp
    have "ds_operations (rs_directory s') j = ds_operations (rs_directory s) j" if "thread_operation th1 = Some j" for j
      using assms(1,4,5) old that False unfolding keys_ok_def by (metis fun_upd_apply)
    then show ?thesis using assms(2) old known_mono by blast
  qed
qed

lemma known_step:
  assumes keys: "keys_ok s" and good: "good tr (rs_directory s)"
    and before: "\<forall>t th. rs_threads s t = Some th \<longrightarrow> known tr (ds_operations (rs_directory s)) t th"
    and step: "rt_step s l s'"
  shows "\<forall>t th. rs_threads s' t = Some th \<longrightarrow> known (tr @ [l]) (ds_operations (rs_directory s')) t th"
proof -
  let ?ops = "ds_operations (rs_directory s)"
  from step show ?thesis
  proof cases
    case (rt_operation k op handled call op' dir' t)
    have kept: "known (tr @ [l]) (?ops(k \<mapsto> op')) t1 th1" if "rs_threads s t1 = Some th1" for t1 th1
    proof (cases "thread_operation th1 = Some k")
      case True
      then show ?thesis using before that rt_operation(1)
        by (intro known_operation [OF good _ _ rt_operation(3,4)]) auto
    next
      case False
      then show ?thesis using before that by (intro known_mono) auto
    qed
    show ?thesis using kept known_trivial(1) rt_operation(2)
      by (auto simp: run_callback_threads split: option.splits if_splits)
  next
    case (rt_advance t thread k op fresh thread' u d ds')
    have "known tr ?ops t thread" using before rt_advance(3) by blast
    from known_advance [OF this rt_advance(4,5,7,8)]
    have new: "known (tr @ [l]) (ds_operations (rs_directory s')) t thread'" using rt_advance(1,2) by simp
    show ?thesis
    proof (cases u)
      case Leave
      then show ?thesis using rt_advance new
        by (intro known_update [OF keys before, of s' t thread' k "?ops k"]) (auto simp: use_operation_def)
    next
      case (UseOutput out)
      then show ?thesis using rt_advance new
        by (intro known_update [OF keys before, of s' t thread' k "Some (interpret_output out)"]) (auto simp: use_operation_def)
    next
      case (UseBegin op')
      then show ?thesis using rt_advance new
        by (intro known_update [OF keys before, of s' t thread' fresh "Some op'"]) (auto simp: use_operation_def)
    qed
  next
    case (rt_dispatch t k n op i c)
    then show ?thesis
      by (intro known_update [OF keys before, of s' t "DispatchCall i n k" k "Some op"])
        (auto intro!: known_dispatch)
  next
    case (rt_passivate t k op i)
    then show ?thesis
      by (intro known_update [OF keys before, of s' t "PassivateLook i k" k "Some op"])
        (auto intro!: known_passivate)
  next
    case (rt_poll t wait waker r completion)
    have "known (tr @ [l]) ?ops t (DispatchWaiting wait)" using before rt_poll(3) known_mono by blast
    then show ?thesis using rt_poll known_trivial(3)
      by (intro known_update [OF keys before, of s' t
            "case r of None \<Rightarrow> DispatchWaiting wait | Some result \<Rightarrow> DispatchDone result" 0 "?ops 0"])
        (auto split: option.splits)
  next
    case (rt_drop t wait k upgraded cancel)
    then show ?thesis using known_trivial(4,5)
      by (intro known_update [OF keys before, of s' t
            "case cancel of None \<Rightarrow> WaitDropped | Some _ \<Rightarrow> WaitCancel k" k "if cancel = None then ?ops k else cancel"])
        (auto split: option.splits)
  next
    case (rt_answer t task answer completed op k)
    then show ?thesis using known_trivial(2)
      by (intro known_update [OF keys before, of s' t "TaskFact k" k "Some op"]) auto
  qed
qed

end

text \<open>Thread \<open>t\<close> is the call that began dispatch \<open>n\<close>.\<close>

definition caller :: "('i, 'c, 'e, 'l) RuntimeLabel list \<Rightarrow> nat \<Rightarrow> nat \<Rightarrow> bool" where
  "caller tr t n \<longleftrightarrow>
     (\<exists>i c k pending. (RtDispatch t i c, Some (Begin k (dispatch i pending))) \<in> set tr \<and> pc_completion pending = n)"

definition holds_ticket :: "('i, 'c, 'e, 'l) RuntimeLabel list \<Rightarrow> DispatchId \<Rightarrow> nat \<Rightarrow> bool" where
  "holds_ticket tr d n \<longleftrightarrow> (\<exists>pending. (d, pending) \<in> set (tickets (directory_trace tr)) \<and> pc_completion pending = n)"

fun error_known :: "nat \<Rightarrow> 'c PendingCommand DirectoryError \<Rightarrow> bool" where
  "error_known n InvalidShardCount = False"
| "error_known n (ActivationIdsExhausted pending) = (pc_completion pending = n)"
| "error_known n (DispatchIdsExhausted pending) = (pc_completion pending = n)"

fun call_known ::
  "('i, 'c, 'e, 'l) RuntimeLabel list \<Rightarrow> nat \<Rightarrow> ('i, 'c PendingCommand, 'e, 'l) Operation option \<Rightarrow> bool" where
  "call_known tr n (Some (AtAllocate i pending)) = (pc_completion pending = n)"
| "call_known tr n (Some (AtLookup d i pending)) = (pc_completion pending = n \<and> holds_ticket tr d n)"
| "call_known tr n (Some (AtDispatch d i q pending)) = holds_ticket tr d n"
| "call_known tr n (Some (DispatchReturned (Inl error))) = error_known n error"
| "call_known tr n (Some (DispatchReturned (Inr out))) = holds_ticket tr (dp_dispatch_id out) n"
| "call_known tr n (Some (OperationUnwound p)) = True"
| "call_known tr n _ = False"

fun wait_known ::
  "('i, 'c, 'e, 'l) RuntimeLabel list \<Rightarrow> (nat \<Rightarrow> ('i, 'c PendingCommand, 'e, 'l) Operation option) \<Rightarrow> nat \<Rightarrow>
     ('i, 'c, 'e, 'l) Thread \<Rightarrow> bool" where
  "wait_known tr ops t (DispatchCall i n k) = (caller tr t n \<and> call_known tr n (ops k))"
| "wait_known tr ops t (DispatchEffects wait k) =
     (caller tr t (dw_completion wait) \<and> holds_ticket tr (dw_dispatch_id wait) (dw_completion wait))"
| "wait_known tr ops t (DispatchWaiting wait) =
     (caller tr t (dw_completion wait) \<and> holds_ticket tr (dw_dispatch_id wait) (dw_completion wait))"
| "wait_known tr ops t _ = True"

definition waits_known :: "('i, 'c, 'e, 'l) RuntimeLabel list \<Rightarrow> ('i, 'c, 'e, 'l) RuntimeSystem \<Rightarrow> bool" where
  "waits_known tr s \<longleftrightarrow>
     (\<forall>t th. rs_threads s t = Some th \<longrightarrow> wait_known tr (ds_operations (rs_directory s)) t th)"

lemma caller_mono: "caller tr t n \<Longrightarrow> caller (tr @ [l]) t n"
  by (auto simp: caller_def)

lemma holds_ticket_mono: "holds_ticket tr d n \<Longrightarrow> holds_ticket (tr @ [l]) d n"
  by (auto simp: holds_ticket_def split: option.splits)

lemma call_known_mono: "call_known tr n op \<Longrightarrow> call_known (tr @ [l]) n op"
  by (cases "(tr, n, op)" rule: call_known.cases) (auto simp: holds_ticket_mono)

lemma wait_known_mono:
  "wait_known tr ops t th \<Longrightarrow> (\<And>k. thread_operation th = Some k \<Longrightarrow> ops' k = ops k) \<Longrightarrow> wait_known (tr @ [l]) ops' t th"
  by (cases "(tr, ops, t, th)" rule: wait_known.cases) (auto simp: caller_mono holds_ticket_mono call_known_mono)

lemma call_known_step:
  assumes "operation_step handled op self = (call, op', self')" and "call_known tr n (Some op)"
    and "snd l = Some (Progress k op call op')"
  shows "call_known (tr @ [l]) n (Some op')"
proof (cases op)
  case (AtAllocate i pending)
  then show ?thesis using assms by (auto simp: holds_ticket_def split: option.splits prod.splits)
next
  case (AtLookup d i pending)
  then show ?thesis using assms
    by (auto simp: dispatch_lookup_def Let_def alloc_slot_def holds_ticket_mono split: sum.splits option.splits prod.splits)
next
  case (AtDispatch d i q pending)
  then show ?thesis using assms by (auto simp: holds_ticket_mono split: sum.splits prod.splits)
next
  case (DispatchReturned r)
  then show ?thesis using assms by (cases r) (auto simp: holds_ticket_mono)
qed (use assms in auto)

lemma advance_wait:
  assumes "thread_advance fresh thread op = Some (thread', u)" and "wait_known tr ops t thread"
    and "thread_operation thread = Some k" and "ops k = Some op"
  shows "wait_known (tr @ [l]) ops' t thread'"
proof (cases thread)
  case (DispatchCall i n j)
  show ?thesis
  proof (cases op)
    case (DispatchReturned r)
    then show ?thesis using assms DispatchCall
      by (cases r) (auto simp: thread_advance_def caller_mono holds_ticket_mono split: sum.splits)
  qed (use assms DispatchCall in \<open>auto simp: thread_advance_def split: option.splits\<close>)
next
  case (DispatchEffects wait j)
  then show ?thesis using assms
    by (auto simp: thread_advance_def caller_mono holds_ticket_mono split: option.splits if_splits)
qed (use assms in \<open>auto simp: thread_advance_def split: option.splits if_splits\<close>)

interpretation waits:
  thread_knowledge "\<lambda>_ _. True"
    "wait_known :: ('i, 'c, 'e, 'l) RuntimeLabel list \<Rightarrow> (nat \<Rightarrow> ('i, 'c PendingCommand, 'e, 'l) Operation option) \<Rightarrow>
       nat \<Rightarrow> ('i, 'c, 'e, 'l) Thread \<Rightarrow> bool"
proof
  fix tr :: "('i, 'c, 'e, 'l) RuntimeLabel list" and ds :: "('i, 'c PendingCommand, 'e, 'l) DirectorySystem"
    and t th k op handled call op' dir' and l :: "('i, 'c, 'e, 'l) RuntimeLabel"
  assume "wait_known tr (ds_operations ds) t th" and "thread_operation th = Some k" and "ds_operations ds k = Some op"
    and "operation_step handled op (ds_directory ds) = (call, op', dir')" and "snd l = Some (Progress k op call op')"
  then show "wait_known (tr @ [l]) ((ds_operations ds)(k \<mapsto> op')) t th"
    using call_known_step [of handled op "ds_directory ds" call op' dir' tr _ l k]
    by (cases "(tr, ds_operations ds, t, th)" rule: wait_known.cases) (auto simp: caller_mono holds_ticket_mono)
next
  fix op :: "('i, 'c PendingCommand, 'e, 'l) Operation" and i c n k t ops and tr :: "('i, 'c, 'e, 'l) RuntimeLabel list"
  assume op: "op = dispatch i \<lparr>pc_command = c, pc_completion = n\<rparr>"
  let ?l = "(RtDispatch t i c, Some (Begin k op))"
  have "caller (tr @ [?l]) t n"
    unfolding caller_def op
    by (intro exI [of _ i] exI [of _ c] exI [of _ k] exI [of _ "\<lparr>pc_command = c, pc_completion = n\<rparr>"]) simp
  then show "wait_known (tr @ [?l]) (ops(k \<mapsto> op)) t (DispatchCall i n k)" by (simp add: op dispatch_def)
qed (auto intro: wait_known_mono advance_wait)

lemma waits_known_step: "keys_ok s \<Longrightarrow> waits_known tr s \<Longrightarrow> rt_step s l s' \<Longrightarrow> waits_known (tr @ [l]) s'"
  unfolding waits_known_def using waits.known_step [of s tr l s'] by blast

lemma all_waits_known: "schedule rt_step (runtime_start self) tr s \<Longrightarrow> waits_known tr s"
proof (induction tr arbitrary: s rule: rev_induct)
  case Nil
  then show ?case by (simp add: waits_known_def runtime_start_def)
next
  case (snoc l tr)
  then obtain s0 where s0: "schedule rt_step (runtime_start self) tr s0" "rt_step s0 l s" by auto
  show ?case by (rule waits_known_step [OF key_schedule.inv_schedule [OF s0(1)] snoc.IH [OF s0(1)] s0(2)])
qed

lemma waiting_known:
  assumes "waits_known tr s" and "rs_threads s t = Some (DispatchWaiting wait)"
  shows "caller tr t (dw_completion wait)" and "holds_ticket tr (dw_dispatch_id wait) (dw_completion wait)"
  using assms unfolding waits_known_def by (metis wait_known.simps(3))+

text \<open>A caller that drops its wait, and the cancellation that begins.\<close>

lemma cancellation_is_drop:
  assumes "schedule rt_step (runtime_start self) tr s"
    and "began (CancelWaiter a d :: ('c PendingCommand, 'e, 'l) SlotEvent) (directory_trace tr)"
  shows "\<exists>t k op n. (RtDrop t, Some (Begin k op)) \<in> set tr \<and> caller tr t n \<and> holds_ticket tr d n"
  using assms
proof (induction tr arbitrary: s rule: rev_induct)
  case Nil
  then show ?case by (simp add: began_def)
next
  case (snoc l tr)
  from snoc.prems(1) obtain s0 where s0: "schedule rt_step (runtime_start self) tr s0" "rt_step s0 l s" by auto
  let ?ev = "CancelWaiter a d :: ('c PendingCommand, 'e, 'l) SlotEvent"
  from snoc.prems(2) consider "began ?ev (directory_trace tr)" | k i where "snd l = Some (Begin k (AtFind i ?ev))"
    by (auto simp: began_def split: option.splits) metis
  then show ?case
  proof cases
    case 1
    then obtain t k op n where "(RtDrop t, Some (Begin k op)) \<in> set tr" "caller tr t n" "holds_ticket tr d n"
      using snoc.IH [OF s0(1)] by blast
    then show ?thesis
      by (intro exI [of _ t] exI [of _ k] exI [of _ op] exI [of _ n]) (simp add: caller_mono holds_ticket_mono)
  next
    case (2 k i)
    from s0(2) show ?thesis
    proof cases
      case (rt_drop t wait j upgraded cancel)
      then have d: "dw_dispatch_id wait = d" "l = (RtDrop t, Some (Begin k (AtFind i ?ev)))"
        using 2 by (auto simp: drop_wait_def fact_defs split: if_splits)
      have "caller tr t (dw_completion wait)" "holds_ticket tr d (dw_completion wait)"
        using waiting_known [OF all_waits_known [OF s0(1)] rt_drop(3)] d(1) by simp_all
      then show ?thesis using d(2)
        by (intro exI [of _ t] exI [of _ k] exI [of _ "AtFind i ?ev"] exI [of _ "dw_completion wait"])
          (simp add: caller_mono holds_ticket_mono)
    next
      case (rt_advance t thread m op fresh thread' u dl ds')
      then have "u = UseBegin (AtFind i ?ev)" using 2 by (cases u) (auto simp: use_operation_def)
      then have "thread_advance fresh thread op = Some (thread', UseBegin (AtFind i ?ev))" using rt_advance by simp
      then have "thread_returned fresh thread op = Some (thread', UseBegin (AtFind i ?ev))"
        by (auto simp: thread_advance_def split: option.splits)
      then show ?thesis
        by (cases "(fresh, thread, op)" rule: thread_returned.cases)
          (auto simp: fact_defs split: option.splits if_splits sum.splits, metis sum.exhaust)
    next
      case (rt_answer t task answer completed op j)
      then show ?thesis using 2
        by (cases "(task, answer)" rule: task_answer.cases) (auto simp: fact_defs split: sum.splits)
    qed (use 2 in \<open>auto simp: fact_defs\<close>)
  qed
qed

lemma withdrawn_dropped:
  fixes tr :: "('i, 'c, 'e, 'l) RuntimeLabel list"
  assumes "with_hasher config h = Inr self" and "schedule rt_step (runtime_start self) tr s"
    and "0 < of_dispatch n (withdrawn_commands (cfg_activation_waiters config) True (directory_trace tr))"
  shows "\<exists>t k op. caller tr t n \<and> (RtDrop t, Some (Begin k op)) \<in> set tr"
proof -
  note dir = runtime_directory [OF assms(2)]
  obtain a d pending where w: "(d, pending) \<in> set (tickets (directory_trace tr))" "pc_completion pending = n"
    "began (CancelWaiter a d :: ('c PendingCommand, 'e, 'l) SlotEvent) (directory_trace tr)"
    using withdrawn_ticket [OF assms(1) dir assms(3)] by blast
  obtain t k op m where t: "(RtDrop t, Some (Begin k op)) \<in> set tr" "caller tr t m" "holds_ticket tr d m"
    using cancellation_is_drop [OF assms(2) w(3)] by blast
  have "m = n" using t(3) w(1,2) tickets_unique [OF all_ticketed [OF assms(1) dir]] by (auto simp: holds_ticket_def)
  then show ?thesis using t by blast
qed

subsection \<open>Where a command rests\<close>

lemma of_dispatch_sum: "finite A \<Longrightarrow> 0 < of_dispatch n (sum f A) \<Longrightarrow> \<exists>x\<in>A. 0 < of_dispatch n (f x)"
  by (induction A rule: finite_induct) auto

text \<open>An activating slot in which dispatch \<open>n\<close> waits.\<close>

definition waits_in :: "nat \<Rightarrow> ('c PendingCommand, 'e, 'l) Slot \<Rightarrow> bool" where
  "waits_in n slot \<longleftrightarrow>
     (case slot_state slot of
        Activating st \<Rightarrow> list_ex (\<lambda>w. pc_completion (wt_command w) = n) (ag_waiters st)
      | _ \<Rightarrow> False)"

text \<open>A dispatch that returned with its command, because an identity space is exhausted.\<close>

definition refused :: "nat \<Rightarrow> ('i, 'c PendingCommand, 'e, 'l) Operation \<Rightarrow> bool" where
  "refused n op \<longleftrightarrow>
     (case dispatch_result op of
        Some (Inl (ActivationIdsExhausted pending)) \<Rightarrow> pc_completion pending = n
      | Some (Inl (DispatchIdsExhausted pending)) \<Rightarrow> pc_completion pending = n
      | _ \<Rightarrow> False)"

lemma rested_load: "at_rest op \<Longrightarrow> 0 < of_dispatch n (operation_load True op) \<Longrightarrow> refused n op"
  by (cases op rule: at_rest.cases)
    (auto simp: refused_def split: DirectoryError.splits if_splits elim!: error_load.elims)

lemma waiting_load: "0 < of_dispatch n (state_load every i (slot_state slot)) \<Longrightarrow> waits_in n slot"
  by (cases "slot_state slot")
    (auto simp: of_dispatch_pos state_load_def tag_def waits_in_def list_ex_iff split: if_splits)

lemma rested_commands:
  assumes "with_hasher config h = Inr self" and "schedule rt_step (runtime_start self) tr s"
    and "\<not> list_ex unwinds (directory_trace tr)"
    and "\<And>k op. ds_operations (rs_directory s) k = Some op \<Longrightarrow> at_rest op"
    and "0 < of_dispatch n (held_commands True (directory_trace tr) (rs_directory s))"
  shows "(\<exists>p<length (claims_made (directory_trace tr)). waits_in n (dir_slots (ds_directory (rs_directory s)) ! p)) \<or>
     (\<exists>k op. ds_operations (rs_directory s) k = Some op \<and> refused n op)"
proof -
  let ?ds = "rs_directory s" and ?dtr = "directory_trace tr"
  note dir = runtime_directory [OF assms(2)]
  have fin: "finite (dom (ds_operations ?ds))"
    using all_commands_accounted [OF assms(1) dir, of True] by (simp add: commands_accounted_def)
  have quiet: "\<not> list_ex callback_panic ?dtr"
    using calm_callbacks [OF assms(1-3)] by (simp add: callbacks_return_def)
  from assms(5) consider "0 < of_dispatch n (holdings (operation_load True) (ds_operations ?ds))"
    | "0 < of_dispatch n (slots_load True (claims_made ?dtr) (ds_directory ?ds))"
    by (auto simp: held_commands_def)
  then show ?thesis
  proof cases
    case 1
    then obtain k where "k \<in> dom (ds_operations ?ds)" "0 < of_dispatch n (operation_load True (the (ds_operations ?ds k)))"
      using of_dispatch_sum [OF fin] unfolding holdings_def by blast
    then show ?thesis using assms(4) rested_load by fastforce
  next
    case 2
    then obtain p where p: "p < length (dir_slots (ds_directory ?ds))"
      "0 < of_dispatch n (slot_load True (fst (claims_made ?dtr ! p)) (dir_slots (ds_directory ?ds) ! p))"
      using of_dispatch_sum [of "{..<length (dir_slots (ds_directory ?ds))}"] unfolding slots_load_def by blast
    have claimed: "p < length (claims_made ?dtr)"
      using p(1) pointers_ok_facts(3) [OF directory_reaches(1) [OF assms(1) dir]] by simp
    obtain rest where rest: "rest_is ?ds p rest" using slot_life [OF assms(1) dir claimed] by blast
    have "le_outputs (guarded (dir_slots (ds_directory ?ds) ! p)) = []"
      by (rule rested_applied(2) [OF assms(1) dir claimed quiet assms(4) rest])
    then have "waits_in n (dir_slots (ds_directory ?ds) ! p)" using p(2) waiting_load by (simp add: slot_load_def)
    then show ?thesis using claimed by blast
  qed
qed

text \<open>A slot somebody waits in is represented, so its activation is running.\<close>

lemma awaited_activation:
  assumes "with_hasher config h = Inr self" and "schedule rt_step (runtime_start self) tr s"
    and "\<not> list_ex unwinds (directory_trace tr)"
    and "\<And>k op. ds_operations (rs_directory s) k = Some op \<Longrightarrow> at_rest op"
    and "p < length (claims_made (directory_trace tr))" and "waits_in n (dir_slots (ds_directory (rs_directory s)) ! p)"
  shows "\<exists>!t. t \<in> tasks_of (slot_id p, DutyActivation) s"
proof -
  let ?slot = "dir_slots (ds_directory (rs_directory s)) ! p" and ?dtr = "directory_trace tr"
  note dir = runtime_directory [OF assms(2)]
  have "\<not> ended ?slot" using assms(6) by (auto simp: ended_def waits_in_def slot_state_def)
  then have "\<not> list_ex is_remove (applied_effects p ?dtr)" using removed_ended [OF assms(1) dir assms(5)] by blast
  then have entry: "shard_entry (dir_shards (ds_directory (rs_directory s))) (fst (claims_made ?dtr ! p)) = Some p"
    using directory_reaches(4) [OF assms(1) dir] assms(5) by (simp add: entries_exact_def)
  show ?thesis
  proof (rule rested_tasks [OF assms(1,2) calm_callbacks [OF assms(1-3)] assms(5) entry assms(4)])
    fix st
    assume st: "represents ?slot st" "slot_activation_id st = Some (slot_id p)"
      "\<And>k. owed st (slot_id p, k) = 1 \<Longrightarrow> \<exists>!t. t \<in> tasks_of (slot_id p, k) s"
    have "slot_state ?slot = st" using st(1) by (simp add: represents_state)
    then obtain ag where "st = Activating ag" using assms(6) by (auto simp: waits_in_def split: EntitySlot.splits)
    then show ?thesis using st(2) by (intro st(3)) simp
  qed
qed

text \<open>Where the command of a dispatch is that is not answered yet.\<close>

lemma dispatch_remembered:
  assumes "with_hasher config h = Inr self" and "schedule rt_step (runtime_start self) tr s"
    and "\<not> list_ex unwinds (directory_trace tr)"
    and "\<forall>k op. ds_operations (rs_directory s) k = Some op \<longrightarrow> at_rest op"
    and "n < length (rs_completions s)" and "rs_completions s ! n = Awaiting waker"
  shows "(\<exists>!t. t \<in> deliveries_of n s) \<or>
     (\<exists>p<length (claims_made (directory_trace tr)). waits_in n (dir_slots (ds_directory (rs_directory s)) ! p) \<and>
        (\<exists>!t. t \<in> tasks_of (slot_id p, DutyActivation) s)) \<or>
     (\<exists>k op. ds_operations (rs_directory s) k = Some op \<and> refused n op) \<or>
     (\<exists>t k op. caller tr t n \<and> (RtDrop t, Some (Begin k op)) \<in> set tr)"
proof -
  let ?held = "of_dispatch n (held_commands True (directory_trace tr) (rs_directory s))"
    and ?withdrawn = "of_dispatch n (withdrawn_commands (cfg_activation_waiters config) True (directory_trace tr))"
  have "list_all returned_label tr" using calm_callbacks [OF assms(1-3)] by (simp add: callbacks_return_def)
  then have "?held + card (deliveries_of n s) + answers_given n tr + ?withdrawn = 1"
    using dispatch_balance(2) [OF assms(1-3), of n] assms(5) by (simp add: places_def)
  moreover have "answers_given n tr = 0" using completion_answered [OF assms(1,2,5)] assms(6) by blast
  ultimately consider "card (deliveries_of n s) = 1" | "0 < ?held" | "0 < ?withdrawn" by linarith
  then show ?thesis
  proof cases
    case 1
    then show ?thesis by (metis card_1_singletonE empty_iff insert_iff)
  next
    case 2
    have activation: "\<exists>!t. t \<in> tasks_of (slot_id p, DutyActivation) s"
      if "p < length (claims_made (directory_trace tr))" "waits_in n (dir_slots (ds_directory (rs_directory s)) ! p)" for p
      by (rule awaited_activation [OF assms(1-3) _ that]) (use assms(4) in blast)
    have "(\<exists>p<length (claims_made (directory_trace tr)). waits_in n (dir_slots (ds_directory (rs_directory s)) ! p)) \<or>
        (\<exists>k op. ds_operations (rs_directory s) k = Some op \<and> refused n op)"
      by (rule rested_commands [OF assms(1-3) _ 2]) (use assms(4) in blast)
    then show ?thesis
    proof
      assume "\<exists>p<length (claims_made (directory_trace tr)). waits_in n (dir_slots (ds_directory (rs_directory s)) ! p)"
      then obtain p where "p < length (claims_made (directory_trace tr))"
        "waits_in n (dir_slots (ds_directory (rs_directory s)) ! p)" by blast
      then show ?thesis using activation by (intro disjI2 disjI1 exI [of _ p]) simp
    qed simp
  next
    case 3
    from withdrawn_dropped [OF assms(1,2) this] show ?thesis by blast
  qed
qed

text \<open>
  C5: No dispatch is forgotten: in every interleaving in which nothing unwinds, once every operation
  has returned and its output was interpreted, a dispatch that is not answered yet is being
  delivered by exactly one running task, or waits in a slot whose one activation task is running, or
  was refused because an identity space is exhausted, or its own caller dropped its wait.
\<close>

theorem no_dispatch_is_forgotten:
  assumes "with_hasher config h = Inr self" and "schedule rt_step (runtime_start self) tr s"
    and "\<not> list_ex unwinds (directory_trace tr)"
    and "\<And>k op. ds_operations (rs_directory s) k = Some op \<Longrightarrow> at_rest op"
    and "n < length (rs_completions s)" and "rs_completions s ! n = Awaiting waker"
  shows "(\<exists>!t. t \<in> deliveries_of n s) \<or>
     (\<exists>p<length (claims_made (directory_trace tr)). waits_in n (dir_slots (ds_directory (rs_directory s)) ! p) \<and>
        (\<exists>!t. t \<in> tasks_of (slot_id p, DutyActivation) s)) \<or>
     (\<exists>k op. ds_operations (rs_directory s) k = Some op \<and> refused n op) \<or>
     (\<exists>t k op. caller tr t n \<and> (RtDrop t, Some (Begin k op)) \<in> set tr)"
  by (rule dispatch_remembered [OF assms(1-3) _ assms(5,6)]) (use assms(4) in blast)

subsection \<open>An instance\<close>

text \<open>A command is dispatched to an absent entity, and its activation is spawned.\<close>

definition waiting_path :: "(u64, nat, nat, nat) Choice list" where
  "waiting_path = take 7 sample_path @ [ChooseOperation 0 50, ChooseOperation 0 50]"

fun is_drop :: "('i, 'c, 'e, 'l) RuntimeLabel \<Rightarrow> bool" where
  "is_drop (RtDrop t, l) = True"
| "is_drop _ = False"

definition command_waits ::
  "(u64, nat, nat, nat) RuntimeLabel list \<Rightarrow> (u64, nat, nat, nat) RuntimeSystem \<Rightarrow> bool" where
  "command_waits tr s \<longleftrightarrow>
     \<not> list_ex unwinds (directory_trace tr) \<and> \<not> list_ex is_drop tr \<and> count_labels (delivery_label 0) tr = 0 \<and>
     rs_completions s = [Awaiting None] \<and> rested_on [0, 99] s \<and>
     list_all (\<lambda>k. case ds_operations (rs_directory s) k of None \<Rightarrow> True | Some op \<Rightarrow> \<not> refused 0 op) [0, 99]"

lemma waiting_run:
  "case with_hasher sample_config sample_hash of Inl (_ :: nat PendingCommand DirectoryError) \<Rightarrow> False
   | Inr self \<Rightarrow>
       (case pick_all waiting_path (runtime_start self) of None \<Rightarrow> False
        | Some (tr, s) \<Rightarrow> command_waits tr s)"
  by code_simp

theorem no_dispatch_is_forgotten_witness:
  "\<exists>(self :: (u64, nat PendingCommand, nat, nat) LocalDirectory) tr s p.
     with_hasher sample_config sample_hash = Inr self \<and> schedule rt_step (runtime_start self) tr s \<and>
     waits_in 0 (dir_slots (ds_directory (rs_directory s)) ! p) \<and> (\<exists>!t. t \<in> tasks_of (slot_id p, DutyActivation) s)"
proof -
  obtain self :: "(u64, nat PendingCommand, nat, nat) LocalDirectory" and tr s where
    run: "with_hasher sample_config sample_hash = Inr self"
    "pick_all waiting_path (runtime_start self) = Some (tr, s)" "command_waits tr s"
    using waiting_run by (auto split: sum.splits option.splits)
  note schedule = pick_all_schedule [OF run(2)]
  have waits: "\<not> list_ex unwinds (directory_trace tr)" "\<not> list_ex is_drop tr" "count_labels (delivery_label 0) tr = 0"
    "rs_completions s = [Awaiting None]" "rested_on [0, 99] s"
    using run(3) by (auto simp: command_waits_def)
  have key: "k \<in> {0, 99}" if "ds_operations (rs_directory s) k = Some op" for k op
  proof (rule ccontr)
    assume "k \<notin> {0, 99}"
    then have "ds_operations (rs_directory s) k = None"
      by (intro pick_all_begins [OF run(2)])
        (auto simp: waiting_path_def sample_path_def runtime_start_def directory_start_def)
    then show False using that by simp
  qed
  have rest: "at_rest op" if "ds_operations (rs_directory s) k = Some op" for k op
    using key [OF that] waits(5) that by (auto simp: rested_on_def split: option.splits)
  have accepted: "\<not> refused 0 op" if "ds_operations (rs_directory s) k = Some op" for k op
    using key [OF that] run(3) that by (auto simp: command_waits_def split: option.splits)
  note acc = dispatch_accountsD(1,2) [OF dispatch_schedule.inv_schedule [OF schedule], of 0]
  have "deliveries_of 0 s = {}" using acc waits(3) by simp
  moreover have "\<not> (RtDrop t, label) \<in> set tr" for t label using waits(2) by (auto simp: list_ex_iff)
  ultimately have "\<exists>p. waits_in 0 (dir_slots (ds_directory (rs_directory s)) ! p) \<and> (\<exists>!t. t \<in> tasks_of (slot_id p, DutyActivation) s)"
    using no_dispatch_is_forgotten [OF run(1) schedule waits(1) _, of 0 None] rest accepted waits(4) by auto
  then show ?thesis using run(1) schedule by blast
qed

end
