(* ===== verification/Runtime_Returns.thy ===== *)
theory Runtime_Returns
  imports Runtime_Answers
begin

section \<open>What a dispatch returns\<close>

text \<open>
  An answer is never made up: \<open>Ok\<close> follows an accepted delivery of that dispatch, and a refusal hands
  back a command of that dispatch, its own or the one the actor runtime returned for it.  The
  commands come from the conservation law of \<open>Directory_Commands\<close>: whatever is called or returned was
  begun.
\<close>

subsection \<open>The commands of a dispatch\<close>

text \<open>The command dispatch \<open>n\<close> was called with, or what the actor runtime handed back for it.\<close>

definition own_command :: "('i, 'c, 'e, 'l) RuntimeLabel list \<Rightarrow> nat \<Rightarrow> 'c \<Rightarrow> bool" where
  "own_command tr n c \<longleftrightarrow>
     (\<exists>t i k. (RtDispatch t i c, Some (Begin k (dispatch i \<lparr>pc_command = c, pc_completion = n\<rparr>))) \<in> set tr) \<or>
     (\<exists>t i a d endpoint pending dl.
        (RtAnswer t (DeliverTask i a d endpoint pending) (AnsDeliver (Inl c)), dl) \<in> set tr \<and> pc_completion pending = n)"

lemma own_command_mono: "own_command tr n c \<Longrightarrow> own_command (tr @ [l]) n c"
  unfolding own_command_def by (simp, blast)

lemma own_commandI:
  "(RtDispatch t i c, Some (Begin k (dispatch i \<lparr>pc_command = c, pc_completion = n\<rparr>))) \<in> set tr \<Longrightarrow> own_command tr n c"
  "(RtAnswer t (DeliverTask i a d endpoint pending) (AnsDeliver (Inl c)), dl) \<in> set tr \<Longrightarrow>
     pc_completion pending = n \<Longrightarrow> own_command tr n c"
  unfolding own_command_def by blast+

lemma begun_own:
  assumes "rt_step s l s'" and "snd l = Some b" and "(x, pending) \<in># begun_load True b"
  shows "own_command (tr @ [l]) (pc_completion pending) (pc_command pending)"
  using assms(1)
proof cases
  case (rt_dispatch t k n op i c)
  then have "pending = \<lparr>pc_command = c, pc_completion = n\<rparr>" using assms(2,3) by (auto simp: fact_defs tag_def)
  then show ?thesis using rt_dispatch own_commandI(1) [of t i c k n "tr @ [l]"] by simp
next
  case (rt_advance t thread k op fresh thread' u dl ds')
  then show ?thesis using assms(2,3) begun_use [of fresh thread op thread' _ True]
    by (cases u) (auto simp: use_operation_def)
next
  case (rt_answer t task answer completed op k)
  have "(x, pending) \<in># operation_load True op" using rt_answer(1) assms(2,3) by auto
  then obtain i a d endpoint old c where "task = DeliverTask i a d endpoint old" "answer = AnsDeliver (Inl c)"
    "pending = \<lparr>pc_command = c, pc_completion = pc_completion old\<rparr>"
    using rt_answer(4) by (cases "(task, answer)" rule: task_answer.cases) (auto simp: fact_defs tag_def split: sum.splits)
  then show ?thesis using rt_answer(1) own_commandI(2) [of t i a d endpoint old c "Some (Begin k op)" "tr @ [l]" "pc_completion old"] by simp
next
  case (rt_drop t wait k upgraded cancel)
  then show ?thesis using assms(2,3) by (cases cancel) (auto simp: drop_wait_def fact_defs split: if_splits)
qed (use assms(2,3) in \<open>auto simp: fact_defs\<close>)

lemma begun_commands_own:
  assumes "schedule rt_step (runtime_start self) tr s" and "(x, pending) \<in># begun_commands True (directory_trace tr)"
  shows "own_command tr (pc_completion pending) (pc_command pending)"
  using assms
proof (induction tr arbitrary: s rule: rev_induct)
  case (snoc l tr)
  then obtain s0 where s0: "schedule rt_step (runtime_start self) tr s0" "rt_step s0 l s" by auto
  from snoc.prems(2) consider "(x, pending) \<in># begun_commands True (directory_trace tr)"
    | b where "snd l = Some b" "(x, pending) \<in># begun_load True b"
    unfolding command_trace_snoc by (auto split: option.splits)
  then show ?case
  proof cases
    case 1
    show ?thesis by (rule own_command_mono [OF snoc.IH [OF s0(1) 1]])
  next
    case (2 b)
    show ?thesis by (rule begun_own [OF s0(2) 2])
  qed
qed simp

text \<open>Whatever the directory calls back with, or still holds, belongs to its dispatch.\<close>

lemma held_or_called_own:
  assumes "with_hasher config h = Inr self" and "schedule rt_step (runtime_start self) tr s"
    and "(x, pending) \<in># called_commands True (directory_trace tr) + held_commands True (directory_trace tr) (rs_directory s)"
  shows "own_command tr (pc_completion pending) (pc_command pending)"
proof -
  let ?limit = "cfg_activation_waiters config" and ?dtr = "directory_trace tr"
  have "held_commands True ?dtr (rs_directory s) + called_commands True ?dtr + withdrawn_commands ?limit True ?dtr
      \<subseteq># begun_commands True ?dtr"
    using all_commands_accounted [OF assms(1) runtime_directory [OF assms(2)], of True]
    by (auto simp: commands_accounted_def within_def)
  moreover have "(x, pending) \<in># held_commands True ?dtr (rs_directory s) + called_commands True ?dtr + withdrawn_commands ?limit True ?dtr"
    using assms(3) by auto
  ultimately have "(x, pending) \<in># begun_commands True ?dtr" by (rule mset_subset_eqD)
  then show ?thesis by (rule begun_commands_own [OF assms(2)])
qed

lemma returned_error_own:
  fixes s :: "('i, 'c, 'e, 'l) RuntimeSystem"
  assumes "with_hasher config h = Inr self" and "schedule rt_step (runtime_start self) tr s"
    and "ds_operations (rs_directory s) k = Some (DispatchReturned (Inl error))" and "error_known n error"
  obtains failure where "dispatch_failure error = Inr failure"
    "case failure of Refused c reason \<Rightarrow> False | RefusedActivationIds c \<Rightarrow> own_command tr n c | RefusedDispatchIds c \<Rightarrow> own_command tr n c"
proof -
  have fin: "finite (dom (ds_operations (rs_directory s)))"
    using all_commands_accounted [OF assms(1) runtime_directory [OF assms(2)], of True] by (simp add: commands_accounted_def)
  note member = holdings_member [OF fin assms(3), of "operation_load True"]
  have held: "(None, pending) \<in># held_commands True (directory_trace tr) (rs_directory s)"
    if "error_load True error = {#(None :: 'i EntityId option, pending)#}" for pending
    using mset_subset_eqD [OF member, of "(None, pending)"] that by (auto simp: held_commands_def)
  show thesis
  proof (cases error)
    case (ActivationIdsExhausted pending)
    then have "own_command tr n (pc_command pending)"
      using held_or_called_own [OF assms(1,2)] held [of pending] assms(4) by fastforce
    then show thesis using that ActivationIdsExhausted by (simp add: dispatch_failure_def)
  next
    case (DispatchIdsExhausted pending)
    then have "own_command tr n (pc_command pending)"
      using held_or_called_own [OF assms(1,2)] held [of pending] assms(4) by fastforce
    then show thesis using that DispatchIdsExhausted by (simp add: dispatch_failure_def)
  qed (use assms(4) in simp)
qed

subsection \<open>Answers\<close>

text \<open>The call of the directory that rejected pending command \<open>pending\<close>.\<close>

definition rejected_with :: "('i, 'c, 'e, 'l) RuntimeLabel list \<Rightarrow> 'c PendingCommand \<Rightarrow> Refusal \<Rightarrow> bool" where
  "rejected_with tr pending reason \<longleftrightarrow>
     (\<exists>k op d op'. Progress k op (Some (CallReject d pending reason)) op' \<in> set (directory_trace tr))"

definition delivered_to_actor :: "('i, 'c, 'e, 'l) RuntimeLabel list \<Rightarrow> nat \<Rightarrow> bool" where
  "delivered_to_actor tr n \<longleftrightarrow>
     (\<exists>t i a d endpoint pending dl.
        (RtAnswer t (DeliverTask i a d endpoint pending) (AnsDeliver (Inr ())), dl) \<in> set tr \<and> pc_completion pending = n)"

lemma delivered_to_actorI:
  "(RtAnswer t (DeliverTask i a d endpoint pending) (AnsDeliver (Inr ())), dl) \<in> set tr \<Longrightarrow>
     pc_completion pending = n \<Longrightarrow> delivered_to_actor tr n"
  unfolding delivered_to_actor_def by blast

text \<open>A result of dispatch \<open>n\<close> that says what happened.\<close>

definition truthful :: "('i, 'c, 'e, 'l) RuntimeLabel list \<Rightarrow> nat \<Rightarrow> 'c DispatchResult \<Rightarrow> bool" where
  "truthful tr n result \<longleftrightarrow>
     (case result of
        Inr _ \<Rightarrow> delivered_to_actor tr n
      | Inl (Refused c reason) \<Rightarrow>
          own_command tr n c \<and> rejected_with tr \<lparr>pc_command = c, pc_completion = n\<rparr> reason
      | Inl (RefusedActivationIds c) \<Rightarrow> own_command tr n c
      | Inl (RefusedDispatchIds c) \<Rightarrow> own_command tr n c)"

lemma truthful_mono: "truthful tr n result \<Longrightarrow> truthful (tr @ [l]) n result"
proof -
  have "delivered_to_actor tr n \<Longrightarrow> delivered_to_actor (tr @ [l]) n" unfolding delivered_to_actor_def by (simp, blast)
  moreover have "rejected_with tr pending reason \<Longrightarrow> rejected_with (tr @ [l]) pending reason" for pending reason
    unfolding rejected_with_def by (simp split: option.splits, blast)
  ultimately show "truthful tr n result \<Longrightarrow> truthful (tr @ [l]) n result"
    unfolding truthful_def using own_command_mono [of tr n _ l] by (auto split: sum.splits DispatchFailure.splits)
qed

text \<open>Every stored answer and every returned result is truthful.\<close>

definition answers_truthful :: "('i, 'c, 'e, 'l) RuntimeLabel list \<Rightarrow> ('i, 'c, 'e, 'l) RuntimeSystem \<Rightarrow> bool" where
  "answers_truthful tr s \<longleftrightarrow>
     (\<forall>n<length (rs_completions s). \<forall>result. rs_completions s ! n = Ready result \<longrightarrow> truthful tr n result) \<and>
     (\<forall>t result. rs_threads s t = Some (DispatchDone result) \<longrightarrow> (\<exists>n. caller tr t n \<and> truthful tr n result)) \<and>
     (\<forall>t n. caller tr t n \<longrightarrow> n < length (rs_completions s))"

lemma answers_truthfulD:
  assumes "answers_truthful tr s"
  shows "n < length (rs_completions s) \<Longrightarrow> rs_completions s ! n = Ready result \<Longrightarrow> truthful tr n result"
    and "rs_threads s t = Some (DispatchDone result) \<Longrightarrow> \<exists>n. caller tr t n \<and> truthful tr n result"
    and "caller tr t n \<Longrightarrow> n < length (rs_completions s)"
  using assms unfolding answers_truthful_def by blast+

lemma caller_step: "caller (tr @ [l]) t n \<Longrightarrow> caller tr t n \<or> dispatch_label n l"
  by (auto simp: caller_def fact_defs)

text \<open>A step that completes: the completion it stores.\<close>

fun stored_by :: "('i, 'c, 'e, 'l) RuntimeLabel \<Rightarrow> (nat \<times> 'c DispatchResult) option" where
  "stored_by (RtOperation t sp, Some (Progress k op (Some (CallReject d pending reason)) op')) =
     Some (pc_completion pending, Inl (Refused (pc_command pending) reason))"
| "stored_by (RtAnswer t (DeliverTask i a d endpoint pending) (AnsDeliver (Inr u)), dl) = Some (pc_completion pending, Inr ())"
| "stored_by _ = None"

lemma stored_step:
  assumes "rt_step s l s'" and "n < length (rs_completions s')" and "rs_completions s' ! n = Ready result"
  shows "n < length (rs_completions s) \<and> rs_completions s ! n = Ready result \<or> stored_by l = Some (n, result)"
  using assms(1)
proof cases
  case (rt_operation k op handled call op' dir' t)
  then show ?thesis using assms(2,3)
    by (cases call; cases "the call"; cases "rs_completions s ! n")
      (auto simp: run_callback_def update_nth split: if_splits)
next
  case (rt_poll t wait waker r completion)
  then show ?thesis using assms(2,3)
    by (cases "rs_completions s ! dw_completion wait") (auto simp: update_nth split: if_splits)
next
  case (rt_answer t task answer completed op k)
  then show ?thesis using assms(2,3)
    by (cases "(task, answer)" rule: task_answer.cases; cases "rs_completions s ! n")
      (auto simp: update_nth split: sum.splits if_splits)
next
  case (rt_dispatch t k n' op i c)
  then show ?thesis using assms(2,3) by (auto simp: nth_append completion_new_state_def split: if_splits)
qed (use assms(2,3) in auto)

lemma stored_truthful:
  assumes "with_hasher config h = Inr self" and "schedule rt_step (runtime_start self) (tr @ [l]) s"
    and "stored_by l = Some (n, result)"
  shows "truthful (tr @ [l]) n result"
  using assms(3)
proof (cases l rule: stored_by.cases)
  case (1 t sp k op d pending reason op')
  have "(None, pending) \<in># called_commands True (directory_trace (tr @ [l]))" using 1 by simp
  then have "own_command (tr @ [l]) (pc_completion pending) (pc_command pending)"
    by (intro held_or_called_own [OF assms(1,2)]) auto
  moreover have "rejected_with (tr @ [l]) \<lparr>pc_command = pc_command pending, pc_completion = pc_completion pending\<rparr> reason"
    unfolding rejected_with_def using 1 by auto
  ultimately show ?thesis using 1 assms(3) by (auto simp: truthful_def)
next
  case (2 t i a d endpoint pending u dl)
  then show ?thesis
    using assms(3) delivered_to_actorI [of t i a d endpoint pending dl "tr @ [l]" n] by (auto simp: truthful_def)
qed auto

lemma answers_truthful_step:
  assumes self: "with_hasher config h = Inr self" and run: "schedule rt_step (runtime_start self) tr s"
    and step: "rt_step s l s'" and before: "answers_truthful tr s"
  shows "answers_truthful (tr @ [l]) s'"
proof -
  note old = answers_truthfulD [OF before] and waits = all_waits_known [OF run]
  have run': "schedule rt_step (runtime_start self) (tr @ [l]) s'" using run step by auto
  have answers: "truthful (tr @ [l]) n result" if "n < length (rs_completions s')" "rs_completions s' ! n = Ready result" for n result
    using stored_step [OF step that] old(1) truthful_mono stored_truthful [OF self run'] by blast
  have callers: "n < length (rs_completions s')" if "caller (tr @ [l]) t n" for t n
    using caller_step [OF that] old(3) begun_step(2,3) [OF step] by fastforce
  have kept: "\<exists>n. caller (tr @ [l]) t n \<and> truthful (tr @ [l]) n result" if "\<exists>n. caller tr t n \<and> truthful tr n result" for t result
    using that caller_mono truthful_mono by blast
  have "\<exists>n. caller (tr @ [l]) t1 n \<and> truthful (tr @ [l]) n result" if done1: "rs_threads s' t1 = Some (DispatchDone result)" for t1 result
  proof (cases "rs_threads s t1 = Some (DispatchDone result)")
    case True
    then show ?thesis using kept old(2) by blast
  next
    case new: False
    from step show ?thesis
    proof cases
      case (rt_advance t thread k op fresh thread' u d ds')
      then have "t1 = t" "thread' = DispatchDone result" using done1 new by (auto split: if_splits)
      then obtain i n where thread: "thread = DispatchCall i n k"
        using rt_advance(4,7) by (cases thread) (auto simp: thread_advance_def split: option.splits if_splits)
      then obtain error failure where op: "op = DispatchReturned (Inl error)" "dispatch_failure error = Inr failure" "result = Inl failure"
        using rt_advance(7) \<open>thread' = DispatchDone result\<close>
        by (cases op; cases "the (dispatch_result op)") (auto simp: thread_advance_def split: sum.splits option.splits)
      have "wait_known tr (ds_operations (rs_directory s)) t (DispatchCall i n k)"
        using waits rt_advance(3) thread unfolding waits_known_def by blast
      then have known: "caller tr t n" "error_known n error" using rt_advance(5) op(1) by simp_all
      obtain failure' where "dispatch_failure error = Inr failure'"
        "case failure' of Refused c reason \<Rightarrow> False | RefusedActivationIds c \<Rightarrow> own_command tr n c | RefusedDispatchIds c \<Rightarrow> own_command tr n c"
        by (rule returned_error_own [OF self run rt_advance(5) [unfolded op(1)] known(2)])
      then have "truthful tr n result" using op(2,3) by (auto simp: truthful_def split: DispatchFailure.splits)
      then show ?thesis using kept known(1) \<open>t1 = t\<close> by blast
    next
      case (rt_poll t wait waker r completion)
      then have t: "t1 = t" "r = Some result" using done1 new by (auto split: if_splits option.splits)
      then have "rs_completions s ! dw_completion wait = Ready result"
        using rt_poll(4) by (cases "rs_completions s ! dw_completion wait") auto
      moreover have "caller tr t (dw_completion wait)" by (rule waiting_known(1) [OF waits rt_poll(3)])
      ultimately show ?thesis using old(1,3) kept t(1) by blast
    qed (use done1 new in \<open>auto simp: run_callback_threads split: if_splits option.splits\<close>)
  qed
  then show ?thesis unfolding answers_truthful_def using answers callers by blast
qed

lemma all_answers_truthful:
  assumes "with_hasher config h = Inr self"
  shows "schedule rt_step (runtime_start self) tr s \<Longrightarrow> answers_truthful tr s"
proof (induction tr arbitrary: s rule: rev_induct)
  case Nil
  then show ?case by (simp add: answers_truthful_def runtime_start_def caller_def)
next
  case (snoc l tr)
  then obtain s0 where s0: "schedule rt_step (runtime_start self) tr s0" "rt_step s0 l s" by auto
  show ?case by (rule answers_truthful_step [OF assms s0 snoc.IH [OF s0(1)]])
qed

subsection \<open>Properties\<close>

text \<open>
  C2: What \<open>dispatch\<close> returns is true: in every interleaving, whatever panics, a call that returned
  did so for a dispatch of its own; \<open>Ok\<close> only after the actor runtime accepted the delivery of that
  dispatch; \<open>Refused\<close> only after the directory rejected that very dispatch for that reason; and every
  error hands back a command of that dispatch, the one it was called with or the one the actor
  runtime returned when it could not deliver it.
\<close>

theorem dispatch_returns_the_truth:
  assumes "with_hasher config h = Inr self" and "schedule rt_step (runtime_start self) tr s"
    and "rs_threads s t = Some (DispatchDone result)"
  shows "\<exists>n. caller tr t n \<and>
     (case result of
        Inr _ \<Rightarrow> delivered_to_actor tr n
      | Inl (Refused c reason) \<Rightarrow> own_command tr n c \<and> rejected_with tr \<lparr>pc_command = c, pc_completion = n\<rparr> reason
      | Inl (RefusedActivationIds c) \<Rightarrow> own_command tr n c
      | Inl (RefusedDispatchIds c) \<Rightarrow> own_command tr n c)"
  using answers_truthfulD(2) [OF all_answers_truthful [OF assms(1,2)] assms(3)] unfolding truthful_def .

subsection \<open>An instance\<close>

text \<open>A dispatch to an absent entity, its activation, its delivery, and their answers.\<close>

definition served_path :: "(u64, nat, nat, nat) Choice list" where
  "served_path =
     [ChooseOperation 0 50, ChooseOperation 0 50, ChooseAdvance 1 99,
      ChooseOperation 0 50, ChooseOperation 0 50, ChooseOperation 0 2, ChooseOperation 0 50, ChooseOperation 0 50,
      ChooseAdvance 1 99,
      ChooseAnswer 2 1 (AnsActivate (Inr \<lparr>activated_endpoint = 70, activated_lease = 80\<rparr>)),
      ChooseOperation 1 50, ChooseOperation 1 50, ChooseAdvance 2 99,
      ChooseOperation 1 50, ChooseOperation 1 50, ChooseOperation 1 3, ChooseOperation 1 50, ChooseOperation 1 50,
      ChooseAdvance 2 99,
      ChooseAnswer 3 2 (AnsDeliver (Inr ())),
      ChooseOperation 2 50, ChooseOperation 2 50, ChooseAdvance 3 99,
      ChooseOperation 2 50, ChooseOperation 2 50, ChooseOperation 2 50, ChooseOperation 2 50,
      ChooseAdvance 3 99]"

definition answer_waits :: "(u64, nat, nat, nat) RuntimeSystem \<Rightarrow> bool" where
  "answer_waits s \<longleftrightarrow> rs_completions s = [Ready (Inr ())] \<and>
     (case rs_threads s 1 of Some (DispatchWaiting wait) \<Rightarrow> dw_completion wait = 0 | _ \<Rightarrow> False)"

lemma returning_run:
  "case with_hasher sample_config sample_hash of Inl (_ :: nat PendingCommand DirectoryError) \<Rightarrow> False
   | Inr self \<Rightarrow>
       (case pick_all (ChooseDispatch 1 0 (EntityId 5) 100 # served_path) (runtime_start self) of None \<Rightarrow> False
        | Some (tr, s) \<Rightarrow> answer_waits s)"
  by code_simp

theorem dispatch_returns_the_truth_witness:
  "\<exists>(self :: (u64, nat PendingCommand, nat, nat) LocalDirectory) tr s n.
     with_hasher sample_config sample_hash = Inr self \<and> schedule rt_step (runtime_start self) tr s \<and>
     rs_threads s 1 = Some (DispatchDone (Inr ())) \<and> caller tr 1 n \<and> delivered_to_actor tr n"
proof -
  obtain self :: "(u64, nat PendingCommand, nat, nat) LocalDirectory" and tr s where
    run: "with_hasher sample_config sample_hash = Inr self"
    "pick_all (ChooseDispatch 1 0 (EntityId 5) 100 # served_path) (runtime_start self) = Some (tr, s)"
    "answer_waits s"
    using returning_run by (auto split: sum.splits option.splits simp del: pick_all.simps)
  obtain wait where wait: "rs_threads s 1 = Some (DispatchWaiting wait)" "dw_completion wait = 0" "rs_completions s = [Ready (Inr ())]"
    using run(3) by (auto simp: answer_waits_def split: option.splits Thread.splits)
  then have "poll_take (rs_completions s ! dw_completion wait) 7 = (Some (Inr ()), Consumed)" by simp
  note poll = rt_poll [OF wait(1) this]
  let ?l = "(RtPoll 1 7, None) :: (u64, nat, nat, nat) RuntimeLabel"
  obtain s' where s': "rt_step s ?l s'" "rs_threads s' 1 = Some (DispatchDone (Inr ()))" using poll by force
  have schedule: "schedule rt_step (runtime_start self) (tr @ [?l]) s'"
    by (rule schedule_step [OF pick_all_schedule [OF run(2)] s'(1)])
  have "\<exists>n. caller (tr @ [?l]) 1 n \<and> delivered_to_actor (tr @ [?l]) n"
    using dispatch_returns_the_truth [OF run(1) schedule s'(2)] by simp
  then show ?thesis using run(1) schedule s'(2) by blast
qed

end
