(* ===== verification/Directory_Settles.thy ===== *)
theory Directory_Settles
  imports Directory_Commands
begin

section \<open>Directory operations end\<close>

text \<open>
  A potential of the directory: the steps its operations still make, the steps the queued outputs
  will cost their dispatcher, and what each slot can still cause by itself.  An effect that spawns a
  task is charged with all that the task's answer will cause, an activation with the drain that may
  end it, a waiter with its delivery.  Every step of an operation that has not ended lowers the
  potential, whatever the callbacks do, so operations cannot keep each other busy for ever.
\<close>

subsection \<open>The potential\<close>

text \<open>
  What a running task costs: its answer, two returns of its thread, and the fact with the effects
  that fact may need paid for.
\<close>

fun call_work :: "('i, 'c, 'e, 'l) RuntimeCall \<Rightarrow> nat" where
  "call_work (CallStartActivation i a) = 19"
| "call_work (CallDeliver i a d endpoint c) = 10"
| "call_work (CallReject d c reason) = 0"
| "call_work (CallEnqueueFence i a endpoint) = 9"
| "call_work (CallRetire i a lease mode) = 9"

fun effect_work :: "('c, 'e, 'l) SlotEffect \<Rightarrow> nat" where
  "effect_work (StartActivation a) = 20"
| "effect_work (Deliver a d endpoint c) = 11"
| "effect_work (Reject d c reason) = 1"
| "effect_work (EnqueueFence a endpoint) = 10"
| "effect_work (Retire a lease mode) = 10"
| "effect_work (Remove a) = 1"

definition effects_work :: "('c, 'e, 'l) SlotEffect list \<Rightarrow> nat" where
  "effects_work effects = (\<Sum>e\<leftarrow>effects. effect_work e)"

text \<open>What a slot can still cause: deliveries of its waiters, a drain, a fence, a retirement, a removal.\<close>

fun state_work :: "('c, 'e, 'l) EntitySlot \<Rightarrow> nat" where
  "state_work Inactive = 0"
| "state_work (Activating ag) = 21 + 11 * length (ag_waiters ag)"
| "state_work (Active ac) = 21"
| "state_work (Draining dr) = (case dr_progress dr of Reservations n \<Rightarrow> 21 | FenceAcknowledgement \<Rightarrow> 11)"
| "state_work (Retiring a) = 1"

fun event_work :: "('c, 'e, 'l) SlotEvent \<Rightarrow> nat" where
  "event_work (ClaimActivation a d c limit) = 52"
| "event_work (Dispatch d c) = 11"
| "event_work (ActivationSucceeded a endpoint lease) = 10"
| "event_work (DeliveryResolved a failure) = 1"
| "event_work _ = 0"

text \<open>An output is taken, its effects are applied, and its handler returns.\<close>

definition outputs_work :: "('c, 'e, 'l) LifecycleOutput list \<Rightarrow> nat" where
  "outputs_work outs = (\<Sum>out\<leftarrow>outs. effects_work (as_slice (out_effects out)) + 2)"

definition slot_work :: "('c, 'e, 'l) Slot \<Rightarrow> nat" where
  "slot_work slot = state_work (slot_state slot) + outputs_work (le_outputs (guarded slot))"

definition slots_work :: "('i, 'c, 'e, 'l) LocalDirectory \<Rightarrow> nat" where
  "slots_work self = (\<Sum>slot\<leftarrow>dir_slots self. slot_work slot)"

fun invocation_work :: "'o Invocation \<Rightarrow> nat" where
  "invocation_work AtAcquire = 2"
| "invocation_work (AtNext _) = 1"
| "invocation_work (AtHandle _ _) = 2"
| "invocation_work (Returned _) = 0"
| "invocation_work (Unwound _) = 0"

text \<open>The work of \<open>interpret\<close> on an output.\<close>

definition output_work :: "('i, 'c, 'e, 'l) DirectoryOutput \<Rightarrow> nat" where
  "output_work out = (case do_target out of Mapped _ \<Rightarrow> 2 | Transient effects \<Rightarrow> effects_work (as_slice effects))"

fun operation_work :: "('i, 'c, 'e, 'l) Operation \<Rightarrow> nat" where
  "operation_work (AtAllocate i c) = 59"
| "operation_work (AtLookup d i c) = 58"
| "operation_work (AtDispatch d i q c) = 16"
| "operation_work (DispatchReturned (Inl error)) = 0"
| "operation_work (DispatchReturned (Inr out)) = output_work (dp_output out)"
| "operation_work (AtFind i ev) = 6 + event_work ev"
| "operation_work (AtSubmitTo q i ev) = 5 + event_work ev"
| "operation_work (OutputReturned out) = output_work out"
| "operation_work (AtInterpret i q pc effects) = invocation_work pc + effects_work effects"
| "operation_work (AtTransient i effects) = effects_work effects"
| "operation_work (AtCurrent i) = 1"
| "operation_work (CurrentReturned activation) = 0"
| "operation_work (OperationUnwound p) = 0"

text \<open>The operations that still take steps of their own.\<close>

fun stepping :: "('i, 'c, 'e, 'l) Operation \<Rightarrow> bool" where
  "stepping (DispatchReturned result) = False"
| "stepping (OutputReturned out) = False"
| "stepping (AtInterpret i q (Returned outcome) effects) = (effects \<noteq> [])"
| "stepping (AtInterpret i q (Unwound p) effects) = (effects \<noteq> [])"
| "stepping (AtTransient i effects) = (effects \<noteq> [])"
| "stepping (CurrentReturned activation) = False"
| "stepping (OperationUnwound p) = False"
| "stepping _ = True"

lemma effects_work_simps [simp]:
  "effects_work [] = 0" "effects_work (e # es) = effect_work e + effects_work es"
  "effects_work (es @ es') = effects_work es + effects_work es'"
  by (simp_all add: effects_work_def)

lemma outputs_work_simps [simp]:
  "outputs_work [] = 0" "outputs_work (out # outs) = effects_work (as_slice (out_effects out)) + 2 + outputs_work outs"
  "outputs_work (outs @ outs') = outputs_work outs + outputs_work outs'"
  by (simp_all add: outputs_work_def)

lemma effects_work_waiters:
  "effects_work (map (\<lambda>w. Deliver a (f w) endpoint (g w)) ws) = 11 * length ws"
  "effects_work (map (\<lambda>w. Reject (f w) (g w) reason) ws) = length ws"
  by (induction ws) auto

lemma effect_work_pos: "0 < effect_work e"
  by (cases e) auto

lemma apply_effect_work:
  "apply_effect i target e shs = (call, r) \<Longrightarrow> (case call of None \<Rightarrow> 0 | Some c \<Rightarrow> call_work c) < effect_work e"
  by (cases e) auto

subsection \<open>One decision\<close>

text \<open>A decision is paid for by its event and by what its slot could cause before.\<close>

lemma reduce_work:
  assumes "reduce st ev = Inr d"
  shows "effects_work (as_slice (dec_effects d)) + state_work (dec_state d) \<le> state_work st + event_work ev"
proof (cases st)
  case (Activating ag)
  have "length (filter P (ag_waiters ag)) \<le> length (ag_waiters ag)" for P
    by (rule length_filter_le)
  then show ?thesis using assms Activating
    by (cases ev) (auto simp: reducer_simps effects_work_waiters split: option.splits prod.splits Ordering.splits)
next
  case Inactive
  then show ?thesis using assms
    by (cases ev) (auto simp: reducer_simps split: option.splits prod.splits)
next
  case (Active ac)
  then show ?thesis using assms
    by (cases ev)
      (auto simp: reducer_simps split: option.splits prod.splits ReservationCount.splits ReservationResolution.splits if_splits)
next
  case (Draining dr)
  then show ?thesis using assms
    by (cases ev) (auto simp: reducer_simps split: option.splits prod.splits DrainProgress.splits if_splits)
next
  case (Retiring a)
  then show ?thesis using assms
    by (cases ev) (auto simp: reducer_simps split: option.splits prod.splits)
qed

subsection \<open>One slot\<close>

lemma slot_submit_work:
  assumes "slot_submit slot ev = (r, slot')" and "slot_healthy slot"
  shows "slot_work slot' \<le> slot_work slot + 2 + event_work ev"
proof -
  have "linearized_submit lifecycle_step output_evidence slot ev = (r, slot')"
    using assms(1) by (simp add: slot_submit_def)
  then show ?thesis
  proof (cases rule: submit_cases)
    case poisoned
    then show ?thesis using assms(1)
      by (auto simp: slot_submit_def linearized_submit_def lock_def slot_work_def slot_state_def)
  next
    case (linearized m m' out e)
    have trans: "base_transition m = transition" using assms(2) linearized(2) by (auto simp: slot_healthy_def)
    obtain st' where st': "transition (base_state m) ev = Inr (out, st')" "m' = m\<lparr>base_state := st'\<rparr>"
      using linearized(3) trans by (auto simp: lifecycle_step_Inr)
    then obtain d where d: "reduce (base_state m) ev = Inr d" "st' = dec_state d" "out_effects out = dec_effects d"
      by (auto simp: transition_Inr)
    then show ?thesis using linearized st' reduce_work [OF d(1)] by (simp add: slot_work_def slot_state_def)
  qed (simp_all add: slot_work_def slot_state_def)
qed

lemma dispatch_step_work:
  assumes "dispatch_pending_step handled pc slot = (pc', slot')" and "0 < invocation_work pc"
  shows "invocation_work pc' + (case pc' of AtHandle _ out \<Rightarrow> effects_work (as_slice (out_effects out)) | _ \<Rightarrow> 0) + slot_work slot'
    < invocation_work pc + slot_work slot"
proof -
  have state: "slot_state slot' = slot_state slot" using dispatch_step_frame(2) [OF assms(1)] by (simp add: slot_state_def)
  have outs: "taken_label (Advance 0 pc pc') @ le_outputs (guarded slot') = le_outputs (guarded slot)"
    by (rule dispatch_step_frame(4) [OF assms(1)])
  show ?thesis
  proof (cases pc)
    case AtAcquire
    then show ?thesis using assms outs [symmetric] by (auto simp: slot_work_def state executor_defs split: sum.splits option.splits prod.splits DispatchState.splits)
  next
    case (AtNext ow)
    then show ?thesis using assms outs [symmetric] 
      by (cases pc') (auto simp: slot_work_def state split: sum.splits option.splits prod.splits)
  next
    case (AtHandle ow out)
    then show ?thesis using assms outs [symmetric] by (auto simp: slot_work_def state split: option.splits)
  qed (use assms in auto)
qed

subsection \<open>One step of the directory\<close>

lemma slots_work_update:
  assumes "q < length (dir_slots self)"
  shows "slots_work (self\<lparr>dir_slots := (dir_slots self)[q := slot]\<rparr>) + slot_work (dir_slots self ! q) = slots_work self + slot_work slot"
proof -
  have "slot_work (dir_slots self ! q) \<le> (\<Sum>slot\<leftarrow>dir_slots self. slot_work slot)"
    using assms elem_le_sum_list [of q "map slot_work (dir_slots self)"] by simp
  then show ?thesis
    using assms sum_list_update [of q "map slot_work (dir_slots self)" "slot_work slot"]
    by (simp add: slots_work_def map_update)
qed

lemma submit_at_work:
  assumes "submit_at q ev self = (r, self')" and "q < length (dir_slots self)" and "slot_healthy (dir_slots self ! q)"
  shows "slots_work self' \<le> slots_work self + 2 + event_work ev"
proof -
  obtain slot where "slot_submit (dir_slots self ! q) ev = (r, slot)" "self' = self\<lparr>dir_slots := (dir_slots self)[q := slot]\<rparr>"
    using assms(1) by (auto simp: submit_at_def split: prod.splits)
  then show ?thesis using slot_submit_work [OF _ assms(3)] slots_work_update [OF assms(2), of slot] by fastforce
qed

lemma submit_absent_work:
  assumes "submit_absent i ev = Inr out"
  shows "output_work out \<le> event_work ev"
proof -
  obtain lout m where step: "lifecycle_step fresh_machine ev = Inr (lout, m)"
    and out: "out = directory_output i (out_evidence lout) (out_activation_id lout) (Transient (out_effects lout))"
    using assms by (auto simp: submit_absent_def lifecycle_machine_fresh split: prod.splits)
  from step obtain d where "reduce Inactive ev = Inr d" "out_effects lout = dec_effects d"
    by (auto simp: lifecycle_step_Inr transition_Inr)
  then show ?thesis using reduce_work [of Inactive ev d] by (simp add: out output_work_def directory_output_def)
qed

lemma slots_work_cong: "dir_slots self' = dir_slots self \<Longrightarrow> slots_work self' = slots_work self"
  by (simp add: slots_work_def)

lemma operation_step_work:
  assumes ptrs: "pointers_ok limit tr s"
    and op: "ds_operations s k = Some op" "stepping op"
    and st: "operation_step handled op (ds_directory s) = (call, op', self')"
  shows "operation_work op' + (case call of None \<Rightarrow> 0 | Some c \<Rightarrow> call_work c) + slots_work self' <
    operation_work op + slots_work (ds_directory s)"
proof -
  let ?cs = "claims_made tr" and ?self = "ds_directory s"
  note shards = pointers_ok_facts(1) [OF ptrs] and len = pointers_ok_facts(3) [OF ptrs] and ok = pointers_ok_operation [OF ptrs op(1)]
  have homed: "q < length (dir_slots ?self)" "slot_healthy (dir_slots ?self ! q)" if "home ?cs q = Some i" for q i
    using that len pointers_ok_healthy(1) [OF ptrs] by (auto simp: home_def split: if_splits)
  have submit: "slots_work self1 \<le> slots_work ?self + 2 + event_work ev" if "submit_at q ev ?self = (r, self1)" "home ?cs q = Some i" for q i r ev self1
    by (rule submit_at_work [OF that(1) homed [OF that(2)]])
  show ?thesis
  proof (cases op)
    case (AtAllocate i c)
    then show ?thesis using st by (auto simp: slots_work_def split: option.splits prod.splits)
  next
    case (AtLookup d i c)
    have lookup: "dispatch_lookup d i c ?self = (op', self')" "call = None" using st AtLookup by simp_all
    from lookup(1) show ?thesis
    proof (cases rule: dispatch_lookup_cases [OF shards pointers_ok_facts(5) [OF ptrs], consumes 1, case_names found exhausted claimed])
      case (claimed ev slot out)
      have "slot_work slot \<le> 54"
        using slot_submit_work [OF claimed(4) slot_new_load(2)] by (simp add: slot_work_def slot_state_def linearized_new_def)
      then show ?thesis using claimed(3,7) AtLookup lookup(2) by (simp add: slots_work_def output_work_def directory_output_def)
    qed (use AtLookup lookup(2) in simp_all)
  next
    case (AtDispatch d i q c)
    obtain r self1 where sub: "submit_at q (Dispatch d c) ?self = (r, self1)" by fastforce
    have "slots_work self1 \<le> slots_work ?self + 2 + event_work (Dispatch d c :: ('b, 'c, 'd) SlotEvent)" using submit [OF sub] ok AtDispatch by simp
    then show ?thesis using st AtDispatch sub
      by (auto simp: output_work_def directory_output_def split: sum.splits)
  next
    case (AtFind i ev)
    obtain entries where "lock_shard (dir_shards ?self) i = Inr entries" using lock_shard_ok [OF shards] by blast
    then show ?thesis using st AtFind submit_absent_work by (fastforce split: option.splits sum.splits)
  next
    case (AtSubmitTo q i ev)
    obtain r self1 where sub: "submit_at q ev ?self = (r, self1)" by fastforce
    have "slots_work self1 \<le> slots_work ?self + 2 + event_work ev" using submit [OF sub] ok AtSubmitTo by simp
    then show ?thesis using st AtSubmitTo sub
      by (auto simp: output_work_def directory_output_def split: sum.splits)
  next
    case (AtInterpret i q pc effects)
    have q: "q < length (dir_slots ?self)" using ok AtInterpret homed by simp
    show ?thesis
    proof (cases effects)
      case Nil
      obtain pc' slot where step: "dispatch_pending_step None pc (dir_slots ?self ! q) = (pc', slot)" by fastforce
      have "0 < invocation_work pc" using op(2) AtInterpret Nil by (cases pc) auto
      from dispatch_step_work [OF step this] show ?thesis
        using st AtInterpret Nil step slots_work_update [OF q, of slot] by (cases pc') (auto simp: Let_def)
    next
      case (Cons e es)
      obtain c r where app: "apply_effect i (Some q) e (dir_shards ?self) = (c, r)" by fastforce
      have call: "call = c" using st AtInterpret Cons app by (auto simp: Let_def split: option.splits prod.splits)
      note paid = apply_effect_work [OF app]
      let ?unwound = "case r of Inl p \<Rightarrow> Some p | Inr _ \<Rightarrow> Option.bind c (\<lambda>_. handled)"
      show ?thesis
      proof (cases ?unwound)
        case None
        then show ?thesis using st AtInterpret Cons app call paid by (auto simp: Let_def slots_work_def)
      next
        case (Some p)
        obtain pc' slot where step: "dispatch_pending_step (Some p) pc (dir_slots ?self ! q) = (pc', slot)" by fastforce
        have pc: "in_flight pc \<noteq> []" using ok AtInterpret Cons by simp
        then have "0 < invocation_work pc" by (cases pc) auto
        from dispatch_step_work [OF step this] show ?thesis
          using st AtInterpret Cons app call paid Some step slots_work_update [OF q, of slot]
          by (auto simp: Let_def slots_work_def)
      qed
    qed
  next
    case (AtTransient i effects)
    then obtain e es where effects: "effects = e # es" using op(2) by (cases effects) auto
    obtain c r where app: "apply_effect i None e (dir_shards ?self) = (c, r)" by fastforce
    have "call = c" using st AtTransient effects app by (auto split: option.splits)
    then show ?thesis using st AtTransient effects app apply_effect_work [OF app] by (auto split: option.splits)
  next
    case (AtCurrent i)
    then show ?thesis using st by (auto simp: slots_work_def split: option.splits sum.splits)
  qed (use op(2) in auto)
qed

text \<open>What is left to do in the directory.\<close>

definition directory_work :: "('i, 'c, 'e, 'l) DirectorySystem \<Rightarrow> nat" where
  "directory_work s = holdings operation_work (ds_operations s) + slots_work (ds_directory s)"

lemma directory_work_step:
  assumes "with_hasher config h = Inr self" and "schedule dir_step (directory_start self) tr s"
    and "dir_step s (Progress k op call op') s'" and "stepping op"
  shows "directory_work s' + (case call of None \<Rightarrow> 0 | Some c \<Rightarrow> call_work c) < directory_work s"
proof -
  note reach = directory_reaches [OF assms(1,2)]
  from assms(3) obtain handled dir' where step: "ds_operations s k = Some op"
    "operation_step handled op (ds_directory s) = (call, op', dir')"
    "s' = s\<lparr>ds_directory := dir', ds_operations := (ds_operations s)(k \<mapsto> op')\<rparr>" by auto
  from operation_step_work [OF reach(1) step(1) assms(4) step(2)] show ?thesis
    using holdings_update [OF pointers_ok_healthy(2) [OF reach(1)], of operation_work k op'] step(1,3) by (simp add: directory_work_def)
qed

end
