(* ===== verification/Runtime_Settles.thy ===== *)
theory Runtime_Settles
  imports Runtime_Returns Directory_Settles
begin

section \<open>The runtime settles\<close>

text \<open>
  Without new calls of the application the system comes to rest: every step it still takes (an
  operation's, a thread's, an answer of the actor runtime) lowers a potential, and as long as an
  operation has not ended, a thread is in an operation or a task runs, some step is possible.  At
  rest there is no task left to carry a dispatch, so every dispatch has its answer.
\<close>

subsection \<open>The potential\<close>

text \<open>What a thread still does when its operation returned, and the work of what it begins.\<close>

fun task_work :: "('i, 'c, 'e, 'l) Task \<Rightarrow> nat" where
  "task_work (ActivateTask i a) = 19"
| "task_work (DeliverTask i a d endpoint pending) = 10"
| "task_work (FenceTask i a endpoint) = 9"
| "task_work (RetireTask i a lease mode) = 9"

fun thread_work :: "('i, 'c, 'e, 'l) Thread \<Rightarrow> nat" where
  "thread_work (DispatchCall i n k) = 2"
| "thread_work (DispatchEffects wait k) = 1"
| "thread_work (WaitCancel k) = 2"
| "thread_work (WaitCancelEffects k) = 1"
| "thread_work (PassivateLook i k) = 9"
| "thread_work (PassivateDrain k) = 2"
| "thread_work (PassivateEffects passivation k) = 1"
| "thread_work (TaskRunning task) = task_work task"
| "thread_work (TaskFact k) = 2"
| "thread_work (TaskEffects k) = 1"
| "thread_work _ = 0"

definition runtime_work :: "('i, 'c, 'e, 'l) RuntimeSystem \<Rightarrow> nat" where
  "runtime_work s = holdings thread_work (rs_threads s) + directory_work (rs_directory s)"

text \<open>The steps the application has no part in.\<close>

fun settling :: "('i, 'c, 'e, 'l) RuntimeLabel \<Rightarrow> bool" where
  "settling (RtOperation t sp, Some (Progress k op call op')) = stepping op"
| "settling (RtAdvance t, d) = True"
| "settling (RtAnswer t task answer, d) = True"
| "settling _ = False"

lemma spawned_work:
  "(case spawned handled call of None \<Rightarrow> 0 | Some task \<Rightarrow> task_work task) \<le> (case call of None \<Rightarrow> 0 | Some c \<Rightarrow> call_work c)"
  by (cases call; cases "the call") (auto simp: spawned_def)

lemma answer_work: "task_answer task answer = Some (completed, op) \<Longrightarrow> operation_work op + 2 < task_work task"
  by (cases "(task, answer)" rule: task_answer.cases)
    (auto simp: activation_succeeded_def activation_failed_def delivery_resolved_def fence_acknowledged_def
      force_drain_of_def terminated_def submit_or_inactive_def split: sum.splits)

lemma operation_work_output: "returned_output op = Some out \<Longrightarrow> operation_work (interpret_output out) = operation_work op"
  by (cases op rule: returned_output.cases)
    (auto simp: output_work_def interpret_output_def split: OutputTarget.splits)

text \<open>A thread that goes on pays for the operation it begins.\<close>

lemma advance_work:
  assumes "thread_advance fresh thread op = Some (thread', u)" and "thread_operation thread = Some k"
  shows "thread_work thread' + (case u of UseBegin op' \<Rightarrow> operation_work op' | _ \<Rightarrow> 0) < thread_work thread"
proof (cases thread)
  case (DispatchCall i n k)
  then show ?thesis using assms
    by (cases "dispatch_result op"; cases "the (dispatch_result op)")
      (auto simp: thread_advance_def split: option.splits sum.splits)
qed (use assms in \<open>auto simp: thread_advance_def begin_drain_of_def submit_or_inactive_def split: option.splits if_splits\<close>)

subsection \<open>Threads and their operations\<close>

text \<open>What a thread does in its operation, and what an operation is doing.\<close>

datatype Stage = InDispatch | InLook | InFact | InEffects

fun thread_stage :: "('i, 'c, 'e, 'l) Thread \<Rightarrow> Stage option" where
  "thread_stage (DispatchCall i n k) = Some InDispatch"
| "thread_stage (PassivateLook i k) = Some InLook"
| "thread_stage (WaitCancel k) = Some InFact"
| "thread_stage (PassivateDrain k) = Some InFact"
| "thread_stage (TaskFact k) = Some InFact"
| "thread_stage (DispatchEffects wait k) = Some InEffects"
| "thread_stage (WaitCancelEffects k) = Some InEffects"
| "thread_stage (PassivateEffects passivation k) = Some InEffects"
| "thread_stage (TaskEffects k) = Some InEffects"
| "thread_stage _ = None"

fun operation_stage :: "('i, 'c, 'e, 'l) Operation \<Rightarrow> Stage option" where
  "operation_stage (AtAllocate i c) = Some InDispatch"
| "operation_stage (AtLookup d i c) = Some InDispatch"
| "operation_stage (AtDispatch d i q c) = Some InDispatch"
| "operation_stage (DispatchReturned result) = Some InDispatch"
| "operation_stage (AtCurrent i) = Some InLook"
| "operation_stage (CurrentReturned activation) = Some InLook"
| "operation_stage (AtFind i ev) = Some InFact"
| "operation_stage (AtSubmitTo q i ev) = Some InFact"
| "operation_stage (OutputReturned out) = Some InFact"
| "operation_stage (AtInterpret i q pc effects) = Some InEffects"
| "operation_stage (AtTransient i effects) = Some InEffects"
| "operation_stage (OperationUnwound p) = None"

definition fits :: "('i, 'c, 'e, 'l) Thread \<Rightarrow> ('i, 'c PendingCommand, 'e, 'l) Operation \<Rightarrow> bool" where
  "fits th op \<longleftrightarrow> operation_stage op = None \<or> operation_stage op = thread_stage th"

text \<open>An operation that ended, and nobody has to go on with.\<close>

definition ended_operation :: "('i, 'c, 'e, 'l) Operation \<Rightarrow> bool" where
  "ended_operation op \<longleftrightarrow> at_rest op \<or> panicked op \<noteq> None"

lemma interpret_stage: "operation_stage (interpret_output out) = Some InEffects"
  by (auto simp: interpret_output_def split: OutputTarget.splits)

lemma operation_stage_step:
  assumes "operation_step handled op self = (call, op', self')"
  shows "operation_stage op' = operation_stage op \<or> operation_stage op' = None"
proof (cases op)
  case (AtLookup d i c)
  then show ?thesis using assms
    by (auto simp: dispatch_lookup_def Let_def split: sum.splits option.splits prod.splits)
next
  case (AtInterpret i q pc effects)
  then show ?thesis using assms
    by (cases effects) (auto simp: Let_def split: prod.splits option.splits)
next
  case (AtTransient i effects)
  then show ?thesis using assms
    by (cases effects) (auto simp: Let_def split: prod.splits option.splits)
qed (use assms in \<open>auto split: sum.splits option.splits prod.splits\<close>)

text \<open>A thread whose operation ended goes on.\<close>

lemma fits_advances:
  assumes "fits th op" and "\<not> stepping op"
  shows "\<exists>r. thread_advance fresh th op = Some r"
proof (cases "panicked op")
  case None
  show ?thesis
  proof (cases "operation_stage op")
    case (Some stage)
    then have "thread_stage th = Some stage" using assms(1) by (simp add: fits_def)
    then show ?thesis using None Some assms(2)
      by (cases th; cases op rule: stepping.cases) (auto simp: thread_advance_def)
  qed (use None in \<open>cases op; simp\<close>)
qed (simp add: thread_advance_def)

lemma answer_stage: "task_answer task answer = Some (completed, op) \<Longrightarrow> operation_stage op = Some InFact"
  by (cases "(task, answer)" rule: task_answer.cases)
    (auto simp: activation_succeeded_def activation_failed_def delivery_resolved_def fence_acknowledged_def
      force_drain_of_def terminated_def submit_or_inactive_def split: sum.splits)

lemma ended_step: "operation_step handled op self = (call, op', self') \<Longrightarrow> ended_operation op \<Longrightarrow> ended_operation op'"
proof (cases op)
  case (AtInterpret i q pc effects)
  assume "operation_step handled op self = (call, op', self')" "ended_operation op"
  then show ?thesis using AtInterpret
    by (cases effects; cases pc) (auto simp: ended_operation_def Let_def split: prod.splits option.splits)
next
  case (DispatchReturned r)
  assume "operation_step handled op self = (call, op', self')" "ended_operation op"
  then show ?thesis using DispatchReturned by simp
qed (auto simp: ended_operation_def)

text \<open>What a thread that goes on leaves behind.\<close>

lemma advance_cases:
  assumes "thread_advance fresh th op = Some (th', u)" and "thread_operation th = Some k"
  shows "case u of
      Leave \<Rightarrow> thread_operation th' = None \<and> ended_operation op
    | UseOutput out \<Rightarrow> thread_operation th' = Some k \<and> thread_stage th' = Some InEffects
    | UseBegin op' \<Rightarrow> thread_operation th' = Some fresh \<and> thread_stage th' = operation_stage op' \<and> ended_operation op"
proof (cases "panicked op")
  case (Some p)
  then show ?thesis using assms(1) by (auto simp: thread_advance_def ended_operation_def)
next
  case None
  have rested: "at_rest op" if "interpreted op" using that by (cases op rule: interpreted.cases) auto
  have looked: "at_rest op" if "current_result op = Some activation" for activation
    using that by (cases op) auto
  have refused: "at_rest op" if "dispatch_result op = Some (Inl e)" for e using that by (cases op) auto
  show ?thesis
  proof (cases th)
    case (DispatchCall i n k)
    then obtain result where "dispatch_result op = Some result" using assms(1) None by (auto simp: thread_advance_def)
    then show ?thesis using assms DispatchCall None refused
      by (cases result) (auto simp: thread_advance_def ended_operation_def split: sum.splits)
  qed (use assms None rested looked in \<open>auto simp: thread_advance_def ended_operation_def begin_drain_of_def
        submit_or_inactive_def split: option.splits if_splits\<close>)
qed

subsection \<open>Every operation is attended\<close>

definition occupied :: "('i, 'c, 'e, 'l) RuntimeSystem \<Rightarrow> nat \<Rightarrow> bool" where
  "occupied s k \<longleftrightarrow> (\<exists>t th. rs_threads s t = Some th \<and> thread_operation th = Some k)"

definition attended :: "('i, 'c, 'e, 'l) RuntimeSystem \<Rightarrow> bool" where
  "attended s \<longleftrightarrow> keys_ok s \<and> finite (dom (rs_threads s)) \<and>
     (\<forall>t th k op. rs_threads s t = Some th \<longrightarrow> thread_operation th = Some k \<longrightarrow>
        ds_operations (rs_directory s) k = Some op \<longrightarrow> fits th op) \<and>
     (\<forall>k op. ds_operations (rs_directory s) k = Some op \<longrightarrow> ended_operation op \<or> occupied s k)"

lemma attendedD:
  assumes "attended s"
  shows "keys_ok s" and "finite (dom (rs_threads s))"
    and "\<And>t th k op. rs_threads s t = Some th \<Longrightarrow> thread_operation th = Some k \<Longrightarrow>
      ds_operations (rs_directory s) k = Some op \<Longrightarrow> fits th op"
    and "\<And>k op. ds_operations (rs_directory s) k = Some op \<Longrightarrow> ended_operation op \<or> occupied s k"
  using assms unfolding attended_def by blast+

lemma occupied_update:
  assumes "rs_threads s' = (rs_threads s)(t \<mapsto> th)"
    and "occupied s j" and "\<And>th0. rs_threads s t = Some th0 \<Longrightarrow> thread_operation th0 = Some j \<Longrightarrow> thread_operation th = Some j"
  shows "occupied s' j"
proof -
  obtain t0 th0 where "rs_threads s t0 = Some th0" "thread_operation th0 = Some j" using assms(2) by (auto simp: occupied_def)
  then show ?thesis using assms(1,3) unfolding occupied_def by (cases "t0 = t") auto
qed

text \<open>A thread without an operation goes on, perhaps into an operation it begins.\<close>

lemma attended_begin:
  assumes old: "attended s" and keys: "keys_ok s'" and th: "rs_threads s' = (rs_threads s)(t \<mapsto> th)"
    and idle: "\<And>th0. rs_threads s t = Some th0 \<Longrightarrow> thread_operation th0 = None"
    and ops: "case thread_operation th of None \<Rightarrow> ds_operations (rs_directory s') = ds_operations (rs_directory s)
      | Some k \<Rightarrow> ds_operations (rs_directory s) k = None \<and>
          (\<exists>op. ds_operations (rs_directory s') = (ds_operations (rs_directory s))(k \<mapsto> op) \<and> fits th op)"
  shows "attended s'"
proof -
  note before = attendedD [OF old]
  have keep: "occupied s' j" if "occupied s j" for j by (rule occupied_update [OF th that]) (simp add: idle)
  have still: "ended_operation op \<or> occupied s' k" if "ds_operations (rs_directory s) k = Some op" for k op
    using before(4) [OF that] keep by blast
  have known: "ds_operations (rs_directory s) k \<noteq> None" if "rs_threads s t0 = Some th0" "thread_operation th0 = Some k" for t0 th0 k
    using before(1) that unfolding keys_ok_def by blast
  show ?thesis
  proof (cases "thread_operation th")
    case None
    then show ?thesis using before(2,3) still ops keys unfolding attended_def th by (auto split: if_splits)
  next
    case (Some k)
    then obtain op where op: "ds_operations (rs_directory s) k = None"
      "ds_operations (rs_directory s') = (ds_operations (rs_directory s))(k \<mapsto> op)" "fits th op" using ops by auto
    have free: "thread_operation th0 \<noteq> Some k" if "rs_threads s t0 = Some th0" for t0 th0
      using known [OF that] op(1) by blast
    have "occupied s' k" unfolding occupied_def th using Some by auto
    then show ?thesis using before(2,3) still free op keys Some unfolding attended_def th op(2)
      by (auto split: if_splits)
  qed
qed

lemma attended_operation:
  assumes old: "attended s" and keys: "keys_ok s'" and op: "ds_operations (rs_directory s) k = Some op"
    and step: "operation_step handled op (ds_directory (rs_directory s)) = (call, op', dir')"
    and th: "rs_threads s' = (case sp of None \<Rightarrow> rs_threads s | Some task \<Rightarrow> (rs_threads s)(t \<mapsto> TaskRunning task))"
    and fresh: "rs_threads s t = None"
    and ops: "ds_operations (rs_directory s') = (ds_operations (rs_directory s))(k \<mapsto> op')"
  shows "attended s'"
proof -
  note before = attendedD [OF old]
  have keep: "occupied s' j" if "occupied s j" for j
  proof (cases sp)
    case (Some task)
    then show ?thesis using th fresh by (intro occupied_update [OF _ that]) auto
  qed (use that th in \<open>simp add: occupied_def\<close>)
  have fit: "fits th1 op'" if "fits th1 op" for th1
    using operation_stage_step [OF step] that by (auto simp: fits_def)
  have ended: "ended_operation op' \<or> occupied s' k"
    using before(4) [OF op] ended_step [OF step] keep by blast
  have still: "ended_operation op1 \<or> occupied s' j" if "ds_operations (rs_directory s) j = Some op1" for j op1
    using before(4) [OF that] keep by blast
  have fin: "finite (dom (rs_threads s'))" using before(2) by (cases sp) (auto simp: th)
  have inner: "thread_operation th1 = Some j \<Longrightarrow> rs_threads s t1 = Some th1" if "rs_threads s' t1 = Some th1" for t1 th1 j
    using that by (cases sp) (auto simp: th split: if_splits)
  have "fits th1 op1" if "rs_threads s' t1 = Some th1" "thread_operation th1 = Some j"
      "ds_operations (rs_directory s') j = Some op1" for t1 th1 j op1
    using before(3) [OF inner [OF that(1,2)] that(2)] fit op that(3) unfolding ops by (auto split: if_splits)
  then show ?thesis using fin keys ended still unfolding attended_def ops by (auto split: if_splits)
qed

lemma attended_advance:
  assumes old: "attended s" and keys: "keys_ok s'" and t: "rs_threads s t = Some th" "thread_operation th = Some k"
    and op: "ds_operations (rs_directory s) k = Some op" and fresh: "ds_operations (rs_directory s) fresh = None"
    and adv: "thread_advance fresh th op = Some (th', u)"
    and th: "rs_threads s' = (rs_threads s)(t \<mapsto> th')"
    and ops: "ds_operations (rs_directory s') =
      (case u of Leave \<Rightarrow> ds_operations (rs_directory s)
       | UseOutput out \<Rightarrow> (ds_operations (rs_directory s))(k \<mapsto> interpret_output out)
       | UseBegin op' \<Rightarrow> (ds_operations (rs_directory s))(fresh \<mapsto> op'))"
  shows "attended s'"
proof -
  note before = attendedD [OF old] and after = advance_cases [OF adv t(2)]
  have fin: "finite (dom (rs_threads s'))" using before(2) by (simp add: th)
  have unique: "t1 = t" if "rs_threads s t1 = Some th1" "thread_operation th1 = Some k" for t1 th1
    using before(1) that t unfolding keys_ok_def by blast
  have known: "ds_operations (rs_directory s) j \<noteq> None" if "rs_threads s t1 = Some th1" "thread_operation th1 = Some j" for t1 th1 j
    using before(1) that unfolding keys_ok_def by blast
  have moved: "occupied s' j" if "occupied s j" "j \<noteq> k" for j
    by (rule occupied_update [OF th that(1)]) (use t that(2) in auto)
  have mine: "occupied s' j" if "thread_operation th' = Some j" for j
    using that unfolding occupied_def th by auto
  have others: "ended_operation op1 \<or> occupied s' j" if "ds_operations (rs_directory s) j = Some op1" "j \<noteq> k" for j op1
    using before(4) [OF that(1)] moved [OF _ that(2)] by blast
  have left: "ended_operation op1 \<or> occupied s' j" if "ended_operation op" "ds_operations (rs_directory s) j = Some op1" for j op1
    using others [OF that(2)] that op by (cases "j = k") auto
  have old_fits: "fits th1 op1" if "rs_threads s t1 = Some th1" "thread_operation th1 = Some j"
      "ds_operations (rs_directory s) j = Some op1" for t1 th1 j op1
    by (rule before(3) [OF that])
  show ?thesis
  proof (cases u)
    case Leave
    then have "thread_operation th' = None" "ended_operation op" using after by auto
    then show ?thesis using left fin keys old_fits Leave ops unfolding attended_def th
      by (auto split: if_splits)
  next
    case (UseOutput out)
    then have th': "thread_operation th' = Some k" "thread_stage th' = Some InEffects" using after by auto
    have "fits th' (interpret_output out)" using th'(2) by (simp add: fits_def interpret_stage)
    then show ?thesis using fin keys others mine [OF th'(1)] old_fits th'(1) unique UseOutput ops unfolding attended_def th
      by (auto split: if_splits)
  next
    case (UseBegin op')
    then have th': "thread_operation th' = Some fresh" "thread_stage th' = operation_stage op'" "ended_operation op"
      using after by auto
    have "fits th' op'" using th'(2) by (simp add: fits_def)
    moreover have "thread_operation th1 \<noteq> Some fresh" if "rs_threads s t1 = Some th1" for t1 th1
      using known [OF that] fresh by blast
    ultimately show ?thesis using fin keys left [OF th'(3)] mine [OF th'(1)] old_fits th'(1) UseBegin ops unfolding attended_def th
      by (auto split: if_splits)
  qed
qed

lemma attended_step:
  assumes "attended s" and "rt_step s l s'"
  shows "attended s'"
proof -
  note keys = keys_ok_step [OF attendedD(1) [OF assms(1)] assms(2)]
  from assms(2) show ?thesis
  proof cases
    case (rt_operation k op handled call op' dir' t)
    then show ?thesis
      by (intro attended_operation [OF assms(1) keys rt_operation(3,4), where sp = "spawned handled call" and t = t])
        (simp_all add: run_callback_threads)
  next
    case (rt_advance t thread k op fresh thread' u d ds')
    then show ?thesis
      by (intro attended_advance [OF assms(1) keys rt_advance(3-7)])
        (auto simp: use_operation_def split: OperationUse.splits)
  next
    case (rt_dispatch t k n op i c)
    then show ?thesis
      by (intro attended_begin [OF assms(1) keys, of t "DispatchCall i n k"]) (auto simp: fits_def dispatch_def)
  next
    case (rt_passivate t k op i)
    then show ?thesis
      by (intro attended_begin [OF assms(1) keys, of t "PassivateLook i k"]) (auto simp: fits_def current_activation_def)
  next
    case (rt_poll t wait waker r completion)
    then show ?thesis
      by (intro attended_begin [OF assms(1) keys, of t "case r of None \<Rightarrow> DispatchWaiting wait | Some result \<Rightarrow> DispatchDone result"])
        (auto split: option.splits)
  next
    case (rt_drop t wait k upgraded cancel)
    have "operation_stage op = Some InFact" if "cancel = Some op" for op
      using rt_drop(5) that by (auto simp: drop_wait_def cancel_waiter_def submit_or_inactive_def split: if_splits)
    then show ?thesis using rt_drop
      by (intro attended_begin [OF assms(1) keys, of t "case cancel of None \<Rightarrow> WaitDropped | Some _ \<Rightarrow> WaitCancel k"])
        (auto simp: fits_def split: option.splits)
  next
    case (rt_answer t task answer completed op k)
    then show ?thesis
      by (intro attended_begin [OF assms(1) keys, of t "TaskFact k"]) (auto simp: fits_def answer_stage)
  qed
qed

lemma all_attended: "schedule rt_step (runtime_start self) tr s \<Longrightarrow> attended s"
proof (induction tr arbitrary: s rule: rev_induct)
  case Nil
  then show ?case
    by (simp add: attended_def keys_ok_def occupied_def runtime_start_def directory_start_def)
qed (auto dest: attended_step)

subsection \<open>The potential falls\<close>

lemma threads_update:
  assumes "attended s" and "rs_threads s' = (rs_threads s)(t \<mapsto> th)"
  shows "holdings thread_work (rs_threads s') + (case rs_threads s t of None \<Rightarrow> 0 | Some th0 \<Rightarrow> thread_work th0) =
    holdings thread_work (rs_threads s) + thread_work th"
  unfolding assms(2) by (rule holdings_update [OF attendedD(2) [OF assms(1)]])

lemma settling_work:
  assumes self: "with_hasher config h = Inr self" and run: "schedule rt_step (runtime_start self) tr s"
    and step: "rt_step s l s'" and "settling l"
  shows "runtime_work s' < runtime_work s"
proof -
  note attended = all_attended [OF run] and dir = runtime_directory [OF run]
  have fin: "finite (dom (ds_operations (rs_directory s)))"
    using all_commands_accounted [OF self dir, of True] by (simp add: commands_accounted_def)
  note begun = holdings_update [OF fin, of operation_work]
  from step show ?thesis
  proof cases
    case (rt_operation k op handled call op' dir' t)
    have "dir_step (rs_directory s) (Progress k op call op') (rs_directory s')"
      using rt_step_directory [OF step] rt_operation(1) by simp
    from directory_work_step [OF self dir this] have
      "directory_work (rs_directory s') + (case call of None \<Rightarrow> 0 | Some c \<Rightarrow> call_work c) < directory_work (rs_directory s)"
      using assms(4) rt_operation(1) by simp
    moreover have "holdings thread_work (rs_threads s') \<le>
        holdings thread_work (rs_threads s) + (case call of None \<Rightarrow> 0 | Some c \<Rightarrow> call_work c)"
    proof (cases "spawned handled call")
      case None
      then show ?thesis using rt_operation by (simp add: run_callback_threads)
    next
      case (Some task)
      then have "rs_threads s' = (rs_threads s)(t \<mapsto> TaskRunning task)" using rt_operation by (simp add: run_callback_threads)
      from threads_update [OF attended this] show ?thesis
        using spawned_work [of handled call] Some rt_operation by simp
    qed
    ultimately show ?thesis by (simp add: runtime_work_def)
  next
    case (rt_advance t thread k op fresh thread' u d ds')
    then have "rs_threads s' = (rs_threads s)(t \<mapsto> thread')" by simp
    note threads = threads_update [OF attended this]
    have out: "holdings operation_work ((ds_operations (rs_directory s))(k \<mapsto> interpret_output out)) =
        holdings operation_work (ds_operations (rs_directory s))" if "u = UseOutput out" for out
      using operation_work_output [OF thread_uses_output] rt_advance(5,7) that begun [of k "interpret_output out"] by fastforce
    have "directory_work (rs_directory s') =
        directory_work (rs_directory s) + (case u of UseBegin op' \<Rightarrow> operation_work op' | _ \<Rightarrow> 0)"
      using rt_advance begun [of fresh] out
      by (cases u) (auto simp: use_operation_def directory_work_def)
    then show ?thesis using threads advance_work [OF rt_advance(7,4)] rt_advance(3) by (simp add: runtime_work_def)
  next
    case (rt_answer t task answer completed op k)
    then have "rs_threads s' = (rs_threads s)(t \<mapsto> TaskFact k)" by simp
    from threads_update [OF attended this] show ?thesis
      using answer_work [OF rt_answer(4)] begun [of k op] rt_answer by (simp add: runtime_work_def directory_work_def)
  qed (use assms(4) in auto)
qed

lemma settling_bound:
  assumes "with_hasher config h = Inr self" and "schedule rt_step (runtime_start self) tr s"
    and "schedule rt_step s tr' s'" and "list_all settling tr'"
  shows "length tr' + runtime_work s' \<le> runtime_work s"
  using assms(3,4)
proof (induction tr' arbitrary: s' rule: rev_induct)
  case (snoc l tr')
  then obtain s1 where s1: "schedule rt_step s tr' s1" "rt_step s1 l s'" by auto
  have "schedule rt_step (runtime_start self) (tr @ tr') s1" using assms(2) s1(1) by (auto simp: schedule_append)
  from settling_work [OF assms(1) this s1(2)] snoc.IH [OF s1(1)] snoc.prems(2) show ?case by simp
qed simp

subsection \<open>Rest\<close>

text \<open>Every operation ended, no thread is in one, and no task runs.\<close>

definition quiet :: "('i, 'c, 'e, 'l) RuntimeSystem \<Rightarrow> bool" where
  "quiet s \<longleftrightarrow> (\<forall>k op. ds_operations (rs_directory s) k = Some op \<longrightarrow> ended_operation op) \<and>
     (\<forall>t th. rs_threads s t = Some th \<longrightarrow> thread_operation th = None \<and> (\<forall>task. th \<noteq> TaskRunning task))"

lemma quietD:
  assumes "quiet s"
  shows "\<And>k op. ds_operations (rs_directory s) k = Some op \<Longrightarrow> ended_operation op"
    and "\<And>t th. rs_threads s t = Some th \<Longrightarrow> thread_operation th = None"
    and "\<And>t task. rs_threads s t \<noteq> Some (TaskRunning task)"
  using assms unfolding quiet_def by blast+

lemma fresh_key: "finite (dom m) \<Longrightarrow> \<exists>k :: nat. m k = None"
  using ex_new_if_finite [OF infinite_UNIV_nat, of "dom m"] by auto

lemma task_answered: "\<exists>answer completed op. task_answer task answer = Some (completed, op)"
proof (cases task)
  case (ActivateTask i a)
  then have "task_answer task (AnsActivate (Inl ())) = Some (None, activation_failed i a)" by simp
  then show ?thesis by blast
next
  case (DeliverTask i a d endpoint pending)
  then have "task_answer task (AnsDeliver (Inr ())) = Some (Some (pc_completion pending, Inr ()), delivery_resolved i a None)" by simp
  then show ?thesis by blast
next
  case (FenceTask i a endpoint)
  then have "task_answer task (AnsFence (Inr ())) = Some (None, fence_acknowledged i a)" by simp
  then show ?thesis by blast
next
  case (RetireTask i a lease mode)
  then have "task_answer task AnsRetire = Some (None, terminated i a)" by simp
  then show ?thesis by blast
qed

text \<open>An operation that has not ended, or that a thread is in, can go on.\<close>

lemma goes_on:
  assumes "attended s" and fin: "finite (dom (ds_operations (rs_directory s)))"
    and op: "ds_operations (rs_directory s) k = Some op" and busy: "stepping op \<or> occupied s k"
  shows "\<exists>l s'. rt_step s l s' \<and> settling l"
proof (cases "stepping op")
  case True
  obtain call op' dir' where step: "operation_step None op (ds_directory (rs_directory s)) = (call, op', dir')"
    by (cases "operation_step None op (ds_directory (rs_directory s))") auto
  obtain t where t: "rs_threads s t = None" using fresh_key [OF attendedD(2) [OF assms(1)]] by blast
  from rt_operation [OF op step t] True show ?thesis
    by (intro exI [of _ "(RtOperation t (spawned None call), Some (Progress k op call op'))"]) auto
next
  case False
  then obtain t th where th: "rs_threads s t = Some th" "thread_operation th = Some k"
    using busy by (auto simp: occupied_def)
  obtain fresh where fresh: "ds_operations (rs_directory s) fresh = None" using fresh_key [OF fin] by blast
  obtain th' u where "thread_advance fresh th op = Some (th', u)"
    using fits_advances [OF attendedD(3) [OF assms(1) th op] False, of fresh] by auto
  from rt_advance [OF th op fresh this] show ?thesis
    by (cases "use_operation k fresh u (rs_directory s)") (metis settling.simps(2))
qed

lemma quiet_iff:
  assumes self: "with_hasher config h = Inr self" and run: "schedule rt_step (runtime_start self) tr s"
  shows "quiet s \<longleftrightarrow> \<not> (\<exists>l s'. rt_step s l s' \<and> settling l)"
proof -
  note attended = all_attended [OF run] and dir = runtime_directory [OF run]
  have fin: "finite (dom (ds_operations (rs_directory s)))"
    using all_commands_accounted [OF self dir, of True] by (simp add: commands_accounted_def)
  have still: "\<not> stepping op" if "ds_operations (rs_directory s) k = Some op" "ended_operation op" for k op
    using pointers_ok_operation [OF directory_reaches(1) [OF self dir] that(1)] that(2)
    by (cases op rule: stepping.cases) (auto simp: ended_operation_def)
  show ?thesis
  proof
    assume quiet: "quiet s"
    have "\<not> settling l" if "rt_step s l s'" for l s'
      using that
    proof cases
      case (rt_operation k op handled call op' dir' t)
      then show ?thesis using still quietD(1) [OF quiet] by auto
    next
      case (rt_advance t thread k op fresh thread' u d ds')
      then show ?thesis using quietD(2) [OF quiet] by fastforce
    next
      case (rt_answer t task answer completed op k)
      then show ?thesis using quietD(3) [OF quiet] by blast
    qed auto
    then show "\<not> (\<exists>l s'. rt_step s l s' \<and> settling l)" by blast
  next
    assume stuck: "\<not> (\<exists>l s'. rt_step s l s' \<and> settling l)"
    have ended: "ended_operation op" if "ds_operations (rs_directory s) k = Some op" for k op
      using goes_on [OF attended fin that] attendedD(4) [OF attended that] stuck by blast
    have idle: "thread_operation th = None" if th: "rs_threads s t = Some th" for t th
    proof (rule ccontr)
      assume "thread_operation th \<noteq> None"
      then obtain k where k: "thread_operation th = Some k" by blast
      then obtain op where op: "ds_operations (rs_directory s) k = Some op"
        using attendedD(1) [OF attended] th unfolding keys_ok_def by blast
      have "occupied s k" using th k by (auto simp: occupied_def)
      then show False using goes_on [OF attended fin op] stuck by blast
    qed
    have "rs_threads s t \<noteq> Some (TaskRunning task)" for t task
    proof
      assume t: "rs_threads s t = Some (TaskRunning task)"
      obtain answer completed op where answer: "task_answer task answer = Some (completed, op)" using task_answered by blast
      obtain k where "ds_operations (rs_directory s) k = None" using fresh_key [OF fin] by blast
      from rt_answer [OF t answer this] show False using stuck settling.simps(3) by blast
    qed
    then show "quiet s" using ended idle by (auto simp: quiet_def)
  qed
qed

text \<open>While nothing unwinds, an operation that ended is at rest.\<close>

lemma calm_operation:
  "schedule dir_step (directory_start self) tr s \<Longrightarrow> \<not> list_ex unwinds tr \<Longrightarrow> ds_operations s k = Some op \<Longrightarrow>
     panicked op = None"
proof (induction tr arbitrary: s k op rule: rev_induct)
  case (snoc l tr)
  then obtain s0 where s0: "schedule dir_step (directory_start self) tr s0" "dir_step s0 l s" by auto
  have public: "panicked op1 = None" if "public_operation op1" for op1 :: "('a, 'b, 'c, 'd) Operation"
    using that by (cases op1) auto
  have mapped: "panicked (interpret_output out) = None" for out :: "('a, 'b, 'c, 'd) DirectoryOutput"
    by (auto simp: interpret_output_def split: OutputTarget.splits)
  from s0(2) show ?case
    using snoc.IH [OF s0(1)] snoc.prems(2,3) public mapped
    by (cases rule: dir_step_cases) (auto split: if_splits)
qed (simp add: directory_start_def)

lemma quiet_rests:
  assumes "schedule rt_step (runtime_start self) tr s" and "\<not> list_ex unwinds (directory_trace tr)" and "quiet s"
    and "ds_operations (rs_directory s) k = Some op"
  shows "at_rest op"
  using quietD(1) [OF assms(3,4)] calm_operation [OF runtime_directory [OF assms(1)] assms(2,4)]
  by (simp add: ended_operation_def)

subsection \<open>Properties\<close>

text \<open>
  C4: The runtime settles: whatever the application did before, without further calls of it the
  steps of operations, threads and answered tasks are bounded by a number the state fixes, whatever
  the callbacks do; and they can go on exactly until every operation has ended, no thread is in an
  operation and no task runs.
\<close>

theorem runtime_settles:
  assumes "with_hasher config h = Inr self" and "schedule rt_step (runtime_start self) tr s"
    and "schedule rt_step s tr' s'" and "list_all settling tr'"
  shows "length tr' + runtime_work s' \<le> runtime_work s \<and>
    (quiet s' \<longleftrightarrow> \<not> (\<exists>l s''. rt_step s' l s'' \<and> settling l))"
proof
  show "length tr' + runtime_work s' \<le> runtime_work s" by (rule settling_bound [OF assms])
  have "schedule rt_step (runtime_start self) (tr @ tr') s'" using assms(2,3) by (auto simp: schedule_append)
  from quiet_iff [OF assms(1) this] show "quiet s' \<longleftrightarrow> \<not> (\<exists>l s''. rt_step s' l s'' \<and> settling l)" .
qed

lemma quiet_no_task:
  assumes "quiet s"
  shows "t \<notin> tasks_of x s" and "t \<notin> deliveries_of n s"
  using quietD(3) [OF assms, of t]
  by (auto simp: tasks_of_def deliveries_of_def elim!: runs.elims delivers_for.elims)

text \<open>
  C1: Nothing is left undone: in every interleaving in which nothing unwinds (only a panicking callback
  of the runtime can make an operation unwind), once the system has settled, every dispatch was answered truthfully (or was refused because an identity space is exhausted, or its
  own caller dropped its wait), and every entity the directory still represents is active with no
  delivery unresolved: no activation, drain, fence or retirement is left halfway.
\<close>

theorem nothing_is_left_undone:
  assumes "with_hasher config h = Inr self" and "schedule rt_step (runtime_start self) tr s"
    and "\<not> list_ex unwinds (directory_trace tr)" and "\<not> (\<exists>l s'. rt_step s l s' \<and> settling l)"
  shows "(\<forall>n<length (rs_completions s).
       (\<exists>result. rs_completions s ! n = Ready result \<and> truthful tr n result) \<or> rs_completions s ! n = Consumed \<or>
       (\<exists>k op. ds_operations (rs_directory s) k = Some op \<and> refused n op) \<or>
       (\<exists>t k op. caller tr t n \<and> (RtDrop t, Some (Begin k op)) \<in> set tr)) \<and>
     (\<forall>p<length (claims_made (directory_trace tr)).
       shard_entry (dir_shards (ds_directory (rs_directory s))) (fst (claims_made (directory_trace tr) ! p)) = Some p \<longrightarrow>
       (\<exists>active. represents (dir_slots (ds_directory (rs_directory s)) ! p) (Active active) \<and>
          ac_activation_id active = slot_id p \<and> ac_reservations active = Drained))"
proof (intro conjI allI impI)
  have quiet: "quiet s" using quiet_iff [OF assms(1,2)] assms(4) by blast
  have rest: "at_rest op" if "ds_operations (rs_directory s) k = Some op" for k op
    by (rule quiet_rests [OF assms(2,3) quiet that])
  note dir = runtime_directory [OF assms(2)] and callbacks = calm_callbacks [OF assms(1-3)]
  {
    fix n
    assume n: "n < length (rs_completions s)"
    show "(\<exists>result. rs_completions s ! n = Ready result \<and> truthful tr n result) \<or> rs_completions s ! n = Consumed \<or>
       (\<exists>k op. ds_operations (rs_directory s) k = Some op \<and> refused n op) \<or>
       (\<exists>t k op. caller tr t n \<and> (RtDrop t, Some (Begin k op)) \<in> set tr)"
    proof (cases "rs_completions s ! n")
      case (Awaiting waker)
      have "\<forall>k op. ds_operations (rs_directory s) k = Some op \<longrightarrow> at_rest op" using rest by blast
      from dispatch_remembered [OF assms(1-3) this n Awaiting] show ?thesis using quiet_no_task [OF quiet] by blast
    next
      case (Ready result)
      then show ?thesis using answers_truthfulD(1) [OF all_answers_truthful [OF assms(1,2)] n] by blast
    qed simp
  next
    fix p
    assume p: "p < length (claims_made (directory_trace tr))"
      "shard_entry (dir_shards (ds_directory (rs_directory s))) (fst (claims_made (directory_trace tr) ! p)) = Some p"
    show "\<exists>active. represents (dir_slots (ds_directory (rs_directory s)) ! p) (Active active) \<and>
          ac_activation_id active = slot_id p \<and> ac_reservations active = Drained"
    proof (rule rested_tasks [OF assms(1,2) callbacks p rest])
      fix st
      assume st: "represents (dir_slots (ds_directory (rs_directory s)) ! p) st" "st \<noteq> Inactive"
        "slot_activation_id st = Some (slot_id p)" "\<And>k. card (tasks_of (slot_id p, k) s) = owed st (slot_id p, k)"
      have none: "tasks_of x s = {}" for x using quiet_no_task(1) [OF quiet] by blast
      have "owed st (slot_id p, k) = 0" for k using st(4) [of k] by (simp add: none)
      from this [of DutyActivation] this [of DutyDelivery] this [of DutyFence] this [of DutyRetirement] show ?thesis
        using st(1-3)
          by (cases st) (auto simp: nz_get_pos [THEN gr_implies_not0] split: DrainProgress.splits if_splits elim: reservation_number.elims)
    qed
  }
qed

subsection \<open>Instances\<close>

text \<open>The driver starts threads only under the names its choices give.\<close>

fun names :: "('i, 'c, 'e, 'l) Choice \<Rightarrow> nat \<Rightarrow> bool" where
  "names (ChooseDispatch t k i c) j = (j = t)"
| "names (ChoosePassivate t k i) j = (j = t)"
| "names (ChooseOperation k t) j = (j = t)"
| "names (ChooseAdvance t fresh) j = (j = t)"
| "names (ChooseAnswer t k answer) j = (j = t)"

lemma pick_names:
  assumes "pick ch s = Some (l, s')" and "\<not> names ch j" and "rs_threads s j = None"
  shows "rs_threads s' j = None"
proof (cases ch)
  case (ChooseOperation k t)
  then show ?thesis using assms
    by (auto simp: Let_def run_callback_threads split: option.splits if_splits prod.splits)
next
  case (ChooseAdvance t fresh)
  then show ?thesis using assms
    by (auto simp: Let_def split: option.splits if_splits prod.splits)
next
  case (ChooseAnswer t k answer)
  then show ?thesis using assms by (auto split: option.splits Thread.splits if_splits)
qed (use assms in \<open>auto simp: Let_def split: if_splits\<close>)

lemma pick_all_names:
  "pick_all chs s = Some (tr, s') \<Longrightarrow> \<forall>ch\<in>set chs. \<not> names ch j \<Longrightarrow> rs_threads s j = None \<Longrightarrow> rs_threads s' j = None"
  by (induction chs arbitrary: s tr) (fastforce split: option.splits prod.splits dest: pick_names)+

definition quiet_on :: "nat list \<Rightarrow> nat list \<Rightarrow> ('i, 'c, 'e, 'l) RuntimeSystem \<Rightarrow> bool" where
  "quiet_on ks ts s \<longleftrightarrow>
     list_all (\<lambda>k. case ds_operations (rs_directory s) k of None \<Rightarrow> True | Some op \<Rightarrow> at_rest op) ks \<and>
     list_all (\<lambda>t. case rs_threads s t of None \<Rightarrow> True | Some th \<Rightarrow> thread_operation th = None \<and> thread_work th = 0) ts"

lemma served_run:
  "case with_hasher sample_config sample_hash of Inl (_ :: nat PendingCommand DirectoryError) \<Rightarrow> False
   | Inr self \<Rightarrow>
       (case pick_all [ChooseDispatch 1 0 (EntityId 5) 100] (runtime_start self) of None \<Rightarrow> False
        | Some (tr, s) \<Rightarrow>
            (case pick_all served_path s of None \<Rightarrow> False
             | Some (tr', s') \<Rightarrow>
                 list_all settling tr' \<and> length tr' = 28 \<and> \<not> list_ex unwinds (directory_trace (tr @ tr')) \<and>
                 quiet_on [0, 1, 2, 99] [1, 2, 3, 50] s' \<and>
                 map fst (claims_made (directory_trace (tr @ tr'))) = [EntityId 5] \<and>
                 shard_entry (dir_shards (ds_directory (rs_directory s'))) (EntityId 5) = Some 0))"
  by code_simp

lemma served_runs:
  obtains self :: "(u64, nat PendingCommand, nat, nat) LocalDirectory" and tr s tr' s' where
    "with_hasher sample_config sample_hash = Inr self" "schedule rt_step (runtime_start self) tr s"
    "schedule rt_step s tr' s'" "list_all settling tr'" "length tr' = 28"
    "\<not> list_ex unwinds (directory_trace (tr @ tr'))" "quiet s'"
    "0 < length (claims_made (directory_trace (tr @ tr')))"
    "shard_entry (dir_shards (ds_directory (rs_directory s'))) (fst (claims_made (directory_trace (tr @ tr')) ! 0)) = Some 0"
proof -
  let ?first = "[ChooseDispatch 1 0 (EntityId 5) 100] :: (u64, nat, nat, nat) Choice list"
  obtain self :: "(u64, nat PendingCommand, nat, nat) LocalDirectory" and tr s tr' s' where
    run: "with_hasher sample_config sample_hash = Inr self" "pick_all ?first (runtime_start self) = Some (tr, s)"
    "pick_all served_path s = Some (tr', s')" "list_all settling tr'" "length tr' = 28"
    "\<not> list_ex unwinds (directory_trace (tr @ tr'))" "quiet_on [0, 1, 2, 99] [1, 2, 3, 50] s'"
    "map fst (claims_made (directory_trace (tr @ tr'))) = [EntityId 5]"
    "shard_entry (dir_shards (ds_directory (rs_directory s'))) (EntityId 5) = Some 0"
    using served_run by (auto split: sum.splits option.splits simp del: pick_all.simps)
  note all = pick_all_append [OF run(2,3)]
  have key: "k \<in> {0, 1, 2, 99}" if "ds_operations (rs_directory s') k = Some op" for k op
  proof (rule ccontr)
    assume "k \<notin> {0, 1, 2, 99}"
    then have "ds_operations (rs_directory s') k = None"
      by (intro pick_all_begins [OF all]) (auto simp: served_path_def runtime_start_def directory_start_def)
    then show False using that by simp
  qed
  have name: "t \<in> {1, 2, 3, 50}" if "rs_threads s' t = Some th" for t th
  proof (rule ccontr)
    assume "t \<notin> {1, 2, 3, 50}"
    then have "rs_threads s' t = None"
      by (intro pick_all_names [OF all]) (auto simp: served_path_def runtime_start_def)
    then show False using that by simp
  qed
  have no_work: "th \<noteq> TaskRunning task" if "thread_work th = 0" for th :: "(u64, nat, nat, nat) Thread" and task
    using that by (cases task) auto
  have "ended_operation op" if "ds_operations (rs_directory s') k = Some op" for k op
    using key [OF that] run(7) that by (auto simp: quiet_on_def ended_operation_def)
  moreover have "thread_operation th = None \<and> thread_work th = 0" if "rs_threads s' t = Some th" for t th
    using name [OF that] run(7) that by (auto simp: quiet_on_def)
  ultimately have quiet: "quiet s'" using no_work unfolding quiet_def by blast
  have "claims_made (directory_trace (tr @ tr')) \<noteq> []" "fst (hd (claims_made (directory_trace (tr @ tr')))) = EntityId 5"
    using run(8) by auto
  then have "0 < length (claims_made (directory_trace (tr @ tr')))" "fst (claims_made (directory_trace (tr @ tr')) ! 0) = EntityId 5"
    by (simp_all add: hd_conv_nth)
  with that [OF run(1) pick_all_schedule [OF run(2)] pick_all_schedule [OF run(3)] run(4-6) quiet] run(9) show thesis by simp
qed

theorem runtime_settles_witness:
  "\<exists>(self :: (u64, nat PendingCommand, nat, nat) LocalDirectory) tr s tr' s'.
     schedule rt_step (runtime_start self) tr s \<and> schedule rt_step s tr' s' \<and> length tr' = 28 \<and>
     28 + runtime_work s' \<le> runtime_work s \<and> \<not> (\<exists>l s''. rt_step s' l s'' \<and> settling l)"
proof (rule served_runs)
  fix self :: "(u64, nat PendingCommand, nat, nat) LocalDirectory" and tr s tr' s'
  assume run: "with_hasher sample_config sample_hash = Inr self" "schedule rt_step (runtime_start self) tr s"
    "schedule rt_step s tr' s'" "list_all settling tr'" "length tr' = 28" "quiet s'"
  from runtime_settles [OF run(1-4)] show ?thesis using run by metis
qed

theorem nothing_is_left_undone_witness:
  "\<exists>(self :: (u64, nat PendingCommand, nat, nat) LocalDirectory) tr s active.
     schedule rt_step (runtime_start self) tr s \<and>
     represents (dir_slots (ds_directory (rs_directory s)) ! 0) (Active active) \<and> ac_reservations active = Drained"
proof (rule served_runs)
  fix self :: "(u64, nat PendingCommand, nat, nat) LocalDirectory" and tr s tr' s'
  assume run: "with_hasher sample_config sample_hash = Inr self" "schedule rt_step (runtime_start self) tr s"
    "schedule rt_step s tr' s'" "\<not> list_ex unwinds (directory_trace (tr @ tr'))" "quiet s'"
    "0 < length (claims_made (directory_trace (tr @ tr')))"
    "shard_entry (dir_shards (ds_directory (rs_directory s'))) (fst (claims_made (directory_trace (tr @ tr')) ! 0)) = Some 0"
  have all: "schedule rt_step (runtime_start self) (tr @ tr') s'" using run(2,3) by (auto simp: schedule_append)
  have "\<not> (\<exists>l s''. rt_step s' l s'' \<and> settling l)" using quiet_iff [OF run(1) all] run(5) by blast
  from nothing_is_left_undone [OF run(1) all run(4) this] show ?thesis using run(6,7) all by blast
qed

end
