(* ===== verification/Runtime_Passivates.thy ===== *)
theory Runtime_Passivates
  imports Runtime_Answers
begin

section \<open>What a passivation returns\<close>

text \<open>
  A \<open>passivate\<close> call looks for the incarnation its entity has, then submits a \<open>BeginDrain\<close> that names
  it, while other calls, tasks and callbacks go on.  Its answer is the truth about the moment the
  drain was submitted: the trace of the call contains its look and its drain, and the lifecycle of
  the slot at that moment is given by the events submitted to it before.
\<close>

subsection \<open>Evidence of a slot\<close>







subsection \<open>The entity over time\<close>












subsection \<open>The look and the drain of a call\<close>










subsection \<open>What a passivating thread knows\<close>























subsection \<open>Properties\<close>


subsection \<open>An instance\<close>




text \<open>
  A drain that comes late: passivation 10 finds incarnation 1 and names it, but before its drain is
  submitted another passivation retires that incarnation, a dispatch activates incarnation 2, and a
  third passivation begins to drain it.  Passivation 10 answers \<open>AlreadyPassivating\<close>, although no
  passivation of incarnation 1 is in progress.
\<close>

definition late_drain_path :: "(u64, nat, nat, nat) Choice list" where
  "late_drain_path = take 16 sample_path @
     [ChoosePassivate 10 10 (EntityId 5), ChooseOperation 10 50, ChooseAdvance 10 11,
      ChoosePassivate 3 3 (EntityId 5), ChooseOperation 3 50, ChooseAdvance 3 4, ChooseOperation 4 50, ChooseOperation 4 50] @
     map (ChooseOperation 0) [60, 61, 62, 63, 64, 65, 66, 67] @
     [ChooseAnswer 64 5 (AnsFence (Inr ())), ChooseOperation 5 50, ChooseOperation 5 50, ChooseAdvance 64 99] @
     map (ChooseOperation 5) [70, 71, 72, 73, 74] @
     [ChooseAnswer 72 6 AnsRetire, ChooseOperation 6 50, ChooseOperation 6 50, ChooseAdvance 72 99] @
     map (ChooseOperation 6) [75, 76, 77, 78, 79] @
     [ChooseDispatch 20 20 (EntityId 5) 11, ChooseOperation 20 50, ChooseOperation 20 50, ChooseAdvance 20 99] @
     map (ChooseOperation 20) [80, 81, 82, 83, 84] @
     [ChooseAnswer 82 21 (AnsActivate (Inr \<lparr>activated_endpoint = 7, activated_lease = 8\<rparr>)),
      ChooseOperation 21 50, ChooseOperation 21 50,
      ChoosePassivate 30 30 (EntityId 5), ChooseOperation 30 50, ChooseAdvance 30 31, ChooseOperation 31 50, ChooseOperation 31 50,
      ChooseOperation 11 50, ChooseOperation 11 50, ChooseAdvance 10 99] @
     map (ChooseOperation 11) [85, 86, 87, 88, 89, 90, 91, 92, 93, 94] @ [ChooseAdvance 10 99]"

fun late_drain :: "(u64, nat, nat, nat) RuntimeLabel \<Rightarrow> bool" where
  "late_drain (action, Some (Progress k (AtSubmitTo q i (BeginDrain a)) call op)) = (k = 11 \<and> q = 1 \<and> a = slot_id 0)"
| "late_drain _ = False"

lemma already_passivating_of_a_later_incarnation:
  "case with_hasher sample_config sample_hash of Inl (_ :: nat PendingCommand DirectoryError) \<Rightarrow> False
   | Inr self \<Rightarrow>
       (case pick_all late_drain_path (runtime_start self) of None \<Rightarrow> False
        | Some (tr, s) \<Rightarrow>
            rs_threads s 10 = Some (PassivateDone AlreadyPassivating) \<and> list_ex late_drain tr \<and>
            list_ex is_remove (applied_effects 0 (directory_trace tr)) \<and>
            map fst (claims_made (directory_trace tr)) = [EntityId 5, EntityId 5])"
  by code_simp

end
