(* ===== verification/Protocol.thy ===== *)
theory Protocol
  imports Prelude
begin

section \<open>The entity protocol around an application behavior\<close>

text \<open>
  \<open>crates/entity/src/protocol.rs\<close>.  The crate \<open>behavior\<close> is not part of the repository, so what the
  wrapper calls of it are parameters: the inner protocol's \<open>user\<close> and \<open>into_user\<close> (with \<open>User\<close> as a
  pair of sender and message), its optional system events, the inner behavior's \<open>init\<close> and
  \<open>transition\<close>, and the constructors of actions, gathered in \<open>ActionsApi\<close>.  The type variable
  \<open>'a\<close> is an address, \<open>'r\<close> a \<open>Recipient\<close> of acknowledgements, \<open>'b\<close> the wrapped behavior, which a
  call through \<open>&mut self\<close> may change whatever it returns, and which may panic.
\<close>

subsection \<open>Protocols\<close>

datatype DrainFenceAcknowledged = DrainFenceAcknowledged

datatype ('r, 'c) EntityProtocol =
    Command 'c
  | ProtocolDrainFence 'r

datatype ('a, 'r, 'ev) EntityEvent =
    Inner 'ev
  | DrainFence 'a 'r

definition entity_user ::
  "('a \<Rightarrow> 'c \<Rightarrow> 'ev) \<Rightarrow> 'a \<Rightarrow> ('r, 'c) EntityProtocol \<Rightarrow> ('a, 'r, 'ev) EntityEvent" where
  "entity_user user from message =
     (case message of
        Command command \<Rightarrow> Inner (user from command)
      | ProtocolDrainFence reply_to \<Rightarrow> DrainFence from reply_to)"

definition entity_into_user ::
  "('ev \<Rightarrow> 'ev + 'a \<times> 'c) \<Rightarrow> ('a, 'r, 'ev) EntityEvent \<Rightarrow>
     ('a, 'r, 'ev) EntityEvent + 'a \<times> ('r, 'c) EntityProtocol" where
  "entity_into_user into_user self =
     (case self of
        Inner event \<Rightarrow>
          (case into_user event of
             Inl event' \<Rightarrow> Inl (Inner event')
           | Inr (from, message) \<Rightarrow> Inr (from, Command message))
      | DrainFence from reply_to \<Rightarrow> Inr (from, ProtocolDrainFence reply_to))"

text \<open>
  The macro \<open>forward_optional_event\<close>, once for each of the seven system events; the argument is the
  inner protocol's constructor of that event.
\<close>

definition forward_optional_event ::
  "('x \<Rightarrow> 'ev option) \<Rightarrow> 'x \<Rightarrow> ('a, 'r, 'ev) EntityEvent option" where
  "forward_optional_event method event = map_option Inner (method event)"

subsection \<open>The wrapped behavior\<close>

record ('s, 't, 'act, 'out, 'r, 'dl, 'cr, 'stp) ActionsApi =
  map_sends :: "('s \<Rightarrow> 't) \<Rightarrow> 'act \<Rightarrow> 'out"
  send_product_new :: "'s \<Rightarrow> 'dl list \<Rightarrow> 't"
  sends_empty :: 's
  delivery_new :: "'r \<Rightarrow> DrainFenceAcknowledged \<Rightarrow> 'dl"
  actions_new :: "'t \<Rightarrow> 'cr list \<Rightarrow> 'stp \<Rightarrow> 'out"
  step_continue :: 'stp

datatype 'b EntityBehavior = EntityBehavior (inner: 'b)

definition into_inner_behavior :: "'b EntityBehavior \<Rightarrow> 'b" where
  "into_inner_behavior self = inner self"

text \<open>The actions of the inner behavior, with no acknowledgements beside its sends.\<close>

definition forward_actions ::
  "('s, 't, 'act, 'out, 'r, 'dl, 'cr, 'stp) ActionsApi \<Rightarrow>
     panic + ('err + 'act) \<times> 'b \<Rightarrow> panic + ('err + 'out) \<times> 'b EntityBehavior" where
  "forward_actions api acted =
     and_then acted (\<lambda>(result, b).
       Inr (case result of
              Inl err \<Rightarrow> Inl err
            | Inr actions \<Rightarrow> Inr (map_sends api (\<lambda>sends. send_product_new api sends []) actions),
            EntityBehavior b))"

definition entity_init ::
  "('s, 't, 'act, 'out, 'r, 'dl, 'cr, 'stp) ActionsApi \<Rightarrow> ('b \<Rightarrow> panic + ('err + 'act) \<times> 'b) \<Rightarrow>
     'b EntityBehavior \<Rightarrow> panic + ('err + 'out) \<times> 'b EntityBehavior" where
  "entity_init api init self = forward_actions api (init (inner self))"

definition entity_transition ::
  "('s, 't, 'act, 'out, 'r, 'dl, 'cr, 'stp) ActionsApi \<Rightarrow>
     ('b \<Rightarrow> 'ev \<Rightarrow> panic + ('err + 'act) \<times> 'b) \<Rightarrow> 'b EntityBehavior \<Rightarrow> ('a, 'r, 'ev) EntityEvent \<Rightarrow>
     panic + ('err + 'out) \<times> 'b EntityBehavior" where
  "entity_transition api transition self event =
     (case event of
        Inner event \<Rightarrow> forward_actions api (transition (inner self) event)
      | DrainFence _ reply_to \<Rightarrow>
          Inr (Inr (actions_new api
                 (send_product_new api (sends_empty api)
                    [delivery_new api reply_to DrainFenceAcknowledged])
                 [] (step_continue api)), self))"

subsection \<open>Runs\<close>

text \<open>A behavior fed a list of events, with the results of its transitions in order.\<close>

fun run_behavior ::
  "('b \<Rightarrow> 'ev \<Rightarrow> panic + 'r \<times> 'b) \<Rightarrow> 'b \<Rightarrow> 'ev list \<Rightarrow> panic + 'r list \<times> 'b" where
  "run_behavior step b [] = Inr ([], b)"
| "run_behavior step b (ev # evs) =
     and_then (step b ev) (\<lambda>(r, b'). and_then (run_behavior step b' evs) (\<lambda>(rs, b''). Inr (r # rs, b'')))"

fun inner_event :: "('a, 'r, 'ev) EntityEvent \<Rightarrow> 'ev option" where
  "inner_event (Inner ev) = Some ev"
| "inner_event (DrainFence _ _) = None"

text \<open>What the wrapper answers, given the answers of the inner behavior to the inner events.\<close>

fun interleave_answers ::
  "('s, 't, 'act, 'out, 'r, 'dl, 'cr, 'stp) ActionsApi \<Rightarrow> ('a, 'r, 'ev) EntityEvent list \<Rightarrow>
     ('err + 'act) list \<Rightarrow> ('err + 'out) list" where
  "interleave_answers api [] rs = []"
| "interleave_answers api (DrainFence _ reply_to # evs) rs =
     Inr (actions_new api
       (send_product_new api (sends_empty api) [delivery_new api reply_to DrainFenceAcknowledged])
       [] (step_continue api)) # interleave_answers api evs rs"
| "interleave_answers api (Inner _ # evs) rs =
     map_sum id (map_sends api (\<lambda>sends. send_product_new api sends [])) (hd rs) #
     interleave_answers api evs (tl rs)"

lemma entity_run:
  "run_behavior (entity_transition api transition) (EntityBehavior b) evs =
     and_then (run_behavior transition b (List.map_filter inner_event evs))
       (\<lambda>(rs, b'). Inr (interleave_answers api evs rs, EntityBehavior b'))"
proof (induction evs arbitrary: b)
  case (Cons ev evs)
  show ?case
  proof (cases ev)
    case (Inner e)
    show ?thesis
    proof (cases "transition b e")
      case (Inr rb)
      then obtain r b' where "transition b e = Inr (r, b')" by (cases rb) auto
      then show ?thesis
        using Cons.IH [of b'] Inner
        by (cases "run_behavior transition b' (List.map_filter inner_event evs)"; cases r)
          (auto simp: entity_transition_def forward_actions_def map_filter_simps)
    qed (simp add: Inner entity_transition_def forward_actions_def map_filter_simps)
  next
    case (DrainFence a r)
    then show ?thesis
      using Cons.IH [of b]
      by (cases "run_behavior transition b (List.map_filter inner_event evs)")
        (auto simp: entity_transition_def map_filter_simps)
  qed
qed (simp add: map_filter_simps)

lemma into_user_Inner [simp]:
  "entity_into_user iu (Inner e) = Inr (a, m) \<longleftrightarrow> (\<exists>c. m = Command c \<and> iu e = Inr (a, c))"
  "entity_into_user iu (Inner e) = Inl ev \<longleftrightarrow> (\<exists>e'. ev = Inner e' \<and> iu e = Inl e')"
  "entity_into_user iu (DrainFence b r) = Inr (b, ProtocolDrainFence r)"
  by (auto simp: entity_into_user_def split: sum.splits)

lemma entity_user_simps [simp]:
  "entity_user user a (Command c) = Inner (user a c)"
  "entity_user user a (ProtocolDrainFence r) = DrainFence a r"
  by (simp_all add: entity_user_def)

lemma all_messages: "(\<forall>m. P m) \<longleftrightarrow> (\<forall>c. P (Command c)) \<and> (\<forall>r. P (ProtocolDrainFence r))"
  by (metis EntityProtocol.exhaust)

lemma all_events: "(\<forall>ev. P ev) \<longleftrightarrow> (\<forall>e. P (Inner e)) \<and> (\<forall>a r. P (DrainFence a r))"
  by (metis EntityEvent.exhaust)

subsection \<open>Properties\<close>

text \<open>
  C38: The entity protocol is a faithful envelope: writing a message and reading it back returns the
  sender and the message for every drain fence, and for all messages exactly when the inner
  protocol does so for its commands; events are rebuilt from the messages read off them, and an
  event that is no message is handed back as it was, exactly when the inner protocol keeps these
  laws; and the system events of the inner protocol pass through the envelope unchanged.
\<close>

theorem entity_protocol_roundtrip:
  "((\<forall>from message. entity_into_user into_user (entity_user user from message :: ('a, 'r, 'ev) EntityEvent) =
        Inr (from, message)) \<longleftrightarrow>
      (\<forall>from command. into_user (user from command) = Inr (from, command))) \<and>
   entity_into_user into_user (entity_user user from (ProtocolDrainFence reply_to)) =
     Inr (from, ProtocolDrainFence reply_to) \<and>
   ((\<forall>(ev :: ('a, 'r, 'ev) EntityEvent) from message.
        entity_into_user into_user ev = Inr (from, message) \<longrightarrow> entity_user user from message = ev) \<longleftrightarrow>
      (\<forall>e from command. into_user e = Inr (from, command) \<longrightarrow> user from command = e)) \<and>
   ((\<forall>(ev :: ('a, 'r, 'ev) EntityEvent) ev'. entity_into_user into_user ev = Inl ev' \<longrightarrow> ev' = ev) \<longleftrightarrow>
      (\<forall>e e'. into_user e = Inl e' \<longrightarrow> e' = e)) \<and>
   Option.bind (forward_optional_event method x :: ('a, 'r, 'ev) EntityEvent option) inner_event = method x"
proof (intro conjI)
  show "(\<forall>from message. entity_into_user into_user (entity_user user from message :: ('a, 'r, 'ev) EntityEvent) =
        Inr (from, message)) \<longleftrightarrow> (\<forall>from command. into_user (user from command) = Inr (from, command))"
    unfolding all_messages by simp
  show "(\<forall>(ev :: ('a, 'r, 'ev) EntityEvent) from message.
        entity_into_user into_user ev = Inr (from, message) \<longrightarrow> entity_user user from message = ev) \<longleftrightarrow>
      (\<forall>e from command. into_user e = Inr (from, command) \<longrightarrow> user from command = e)"
    unfolding all_events all_messages by auto
  show "(\<forall>(ev :: ('a, 'r, 'ev) EntityEvent) ev'. entity_into_user into_user ev = Inl ev' \<longrightarrow> ev' = ev) \<longleftrightarrow>
      (\<forall>e e'. into_user e = Inl e' \<longrightarrow> e' = e)"
    unfolding all_events by auto
  show "Option.bind (forward_optional_event method x :: ('a, 'r, 'ev) EntityEvent option) inner_event = method x"
    by (cases "method x") (simp_all add: forward_optional_event_def)
qed simp

theorem entity_protocol_roundtrip_witness:
  "entity_into_user (\<lambda>e :: nat \<times> nat. Inr e) (entity_user Pair 1 (Command 2) :: (nat, nat, nat \<times> nat) EntityEvent) =
     Inr (1, Command 2)"
  using entity_protocol_roundtrip [of "\<lambda>e :: nat \<times> nat. Inr e" Pair 0 "0 :: nat" "\<lambda>_. None" 0] by simp

text \<open>
  C39: Drain fences are transparent to the application: whatever fences are mixed into a stream of
  events, the wrapped behavior goes through exactly the run it would make on the application
  events alone (and panics exactly where it would), its actions and errors are passed on in order
  with no acknowledgement added, and each fence is answered at its own place in the stream by one
  acknowledgement to its reply address and nothing else.
\<close>

theorem entity_behavior_fences_transparent:
  "run_behavior (entity_transition api transition) (EntityBehavior b) evs =
     and_then (run_behavior transition b (List.map_filter inner_event evs))
       (\<lambda>(rs, b'). Inr (interleave_answers api evs rs, EntityBehavior b'))"
  by (rule entity_run)

end
