(* ===== verification/Spec2Isabelle.thy ===== *)
theory Spec2Isabelle
  imports Effect_Batch Slot_Invariants Lifecycle_Machine Exclusive_Executor Linearized_Executor
    Turn_Receipt Sharded_Map Runtime_Settles
    Runtime_Passivates Protocol
begin

text \<open>
  \<^bold>\<open>A verification development for bombay-entity.\<close>

  The program gives every logical entity at most one live actor incarnation in one process.  Its
  core is a pure slot reducer (activate, deliver, drain, fence, retire, remove).  The reducer is
  wrapped as a machine with a declared topology, put behind a linearized executor, one executor per
  slot of a sharded directory, and the directory is put behind an asynchronous runtime facade that
  turns effects into spawned tasks and their answers back into typed facts.

  \<^bold>\<open>Parts and theories\<close> (paths under \<open>src/crates\<close>)

  \<^item> \<open>Prelude\<close>: \<open>u64\<close>, \<open>NonZeroU64\<close>, \<open>checked_add\<close>, \<open>checked_sub\<close>, panics as the left side of a sum,
    \<open>and_then\<close> for \<open>?\<close>-like sequencing, and the collection \<open>decision_defs\<close> of the reducer.
  \<^item> \<open>Slot_Types\<close>, \<open>Effect_Batch\<close>, \<open>Decision\<close>, \<open>Slot_Reducer\<close>: \<open>entity/src/lifecycle/mod.rs\<close> with
    \<open>inactive.rs\<close>, \<open>retiring.rs\<close> and \<open>transition/src/lib.rs\<close>. \<open>reduce\<close> is \<open>SlotReducer::reduce\<close>,
    \<open>decide_all\<close> its fold over a stream of events.
  \<^item> \<open>Slot_Invariants\<close>, \<open>Slot_Life\<close>, \<open>Slot_Duties\<close>: what one reduction and a stream of them keep.
  \<^item> \<open>Topology\<close>, \<open>Machine\<close>: \<open>transition/src/machine.rs\<close>, the structural half (\<open>validate\<close> with its
    256-entry table, Mermaid rendering) and the executable half (\<open>Base\<close>, \<open>Then\<close>, \<open>Product\<close>,
    \<open>Routed\<close>).  The shape of a composition and its postorder specify what \<open>describe\<close> visits.
  \<^item> \<open>Lifecycle_Machine\<close>: \<open>entity/src/lifecycle/machine.rs\<close>, the declared lifecycle topology, its
    validation, and \<open>transition\<close>, the reducer with evidence of the edge it took.
  \<^item> \<open>Concurrency\<close>: mutexes with poisoning, and schedules (labelled paths of a step relation) with
    the locale \<open>trace_invariant\<close> that every concurrent component instantiates.
  \<^item> \<open>Exclusive_Executor\<close>, \<open>Linearized_Executor\<close>, \<open>Serialized_Executor\<close>, \<open>Turn_Receipt\<close> (the
    condition variable of one receipt): \<open>driver/src/lib.rs\<close>.
  \<^item> \<open>Sharded_Map\<close>, \<open>Directory\<close>: \<open>entity/src/directory.rs\<close> (and the identifier type of
    \<open>entity/src/lib.rs\<close>).  An operation of the directory is a program that \<open>operation_step\<close> advances
    by one locked section; \<open>Arc<Slot>\<close> is an index into the slots allocated so far.
  \<^item> \<open>Directory_Schedules\<close>, \<open>Directory_Health\<close>, \<open>Directory_Pointers\<close>, \<open>Directory_Refinement\<close>,
    \<open>Directory_Safety\<close>: every interleaving of directory operations; no executor is ever asked to
    reserve more commands than it can count, so no lock is ever poisoned; each slot refines the
    linearized executor of the lifecycle machine.
    \<open>Directory_Served\<close>: queued outputs always have a dispatcher.  \<open>Directory_Commands\<close>: commands are
    conserved across operations and slots.  \<open>Directory_Settles\<close>: a potential that every step lowers.
  \<^item> \<open>Runtime\<close>: \<open>entity/src/runtime.rs\<close>.  Calls and spawned tasks are threads, completions are cells,
    the actor runtime behind \<open>LocalEntityRuntime\<close> answers a task at any time with any answer of its
    type.
  \<^item> \<open>Runtime_Duties\<close>, \<open>Runtime_Safety\<close>, \<open>Runtime_Ownership\<close>, \<open>Runtime_Progress\<close>: tasks and facts as the
    carriers of what a slot waits for.  \<open>Runtime_Commands\<close>, \<open>Runtime_Answers\<close>, \<open>Runtime_Returns\<close>: one
    dispatch, from its call to its answer.  \<open>Runtime_Passivates\<close>: one passivation, from its look to
    its answer.  Both read what a thread knows of the past off the locale \<open>thread_knowledge\<close>.
    \<open>Runtime_Settles\<close>: the system comes to rest, and how.
  \<^item> \<open>Protocol\<close>: \<open>entity/src/protocol.rs\<close>.  The crate \<open>behavior\<close> is not in the repository; what the
    wrapper calls of it are arguments of the definitions.

  \<^bold>\<open>How the parts interact.\<close>  \<open>rt_step\<close> (runtime) contains \<open>dir_step\<close> (directory): the label of a
  runtime step carries the directory step it makes, and \<open>directory_trace\<close> reads them off.  \<open>dir_step\<close>
  contains, for every slot, \<open>lin_step\<close> (executor): \<open>slot_system\<close> is the executor of one slot with the
  interpreters that work on it.  \<open>lin_step\<close> runs \<open>lifecycle_step\<close>, which runs \<open>transition\<close>, which
  runs \<open>reduce\<close>.  So a property of the reducer on streams of events is lifted level by level to
  every interleaving of the application, its cancellations, the tasks and the callbacks.

  \<^bold>\<open>What the lemmas show.\<close>  The reducer: commands and leases are conserved, stale facts are inert,
  closed admission stays closed, one start and one removal per incarnation, reservations are the
  unresolved deliveries, the only panic is \<open>usize::MAX\<close> reservations.  Duties: what a slot waits
  for is exactly what it asked for and was not told yet, and a closed slot is removed after a number
  of facts fixed by its state.  Topologies: validation accepts exactly the well-formed ones
  and reports the first defect; the lifecycle topology is valid, and its validation is compared with
  a literal list of the seven edges of the contract; the evidence of a transition is the
  edge it took; every composition of machines is described in postorder, before and after any run.  Executors: outputs are handled once, in acceptance order, by one dispatcher at a
  time, none is stranded, every receipt is resolved.  Directory: the shards are one map, each slot is
  one lifecycle, one live incarnation per entity, identities are never reused, reservations are fewer
  than the dispatch identities drawn, and the directory adds no panic of its own.  Runtime: what a
  passivation returns is true of the moment its drain was submitted, and unless it is \<open>NotActive\<close> the
  incarnation it found never admits again; graceful retirement comes after
  every delivery was answered, and every duty of a live incarnation is, at every moment, an effect
  about to be handed over, a running task or a fact on its way.  A dispatch is delivered at most once,
  with the very command of its call; it is answered at most once; what it returns is true; and it
  is never forgotten.  Left to itself the system settles after a number of steps its state bounds, and
  then every dispatch is answered and every represented entity is active with nothing unresolved.
  A waiter of a turn receipt is woken whatever the order of wait and completion.

  \<^bold>\<open>Bounds.\<close>  Words are 64 bits wide (\<open>u64\<close>, and \<open>usize\<close> of a 64-bit target).  The only loop with
  a bound of its own is the reachability table of \<open>validate\<close>: one round per declared vertex, at
  most 256, which \<open>Topology\<close> proves enough.  \<open>dispatch_alone\<close> and the drain of the serialized executor
  run with a number of steps that is proved sufficient from the queue length.

  \<^bold>\<open>Not modelled.\<close>  Tests, benchmarks and Loom models; \<open>Debug\<close>, \<open>Display\<close> and \<open>Error\<close> formatting;
  the wakers and the executor behind \<open>spawn\<close> (a waker is a number, a spawned task a thread);
  the seed of \<open>RandomState\<close> (the hash function is a parameter); reference counts (\<open>Weak::upgrade\<close>
  may succeed or fail when a wait is dropped); allocation failure; the \<open>behavior\<close> crate.  Panics of
  the type parameters' own \<open>Eq\<close>, \<open>Hash\<close> and \<open>Clone\<close>; callbacks of the directory may panic, but a spawned
  task runs to its fact, as the documentation of \<open>LocalEntityRuntime::spawn\<close> demands (so neither the
  actor runtime's futures nor a waker called by a delivery task unwinds it).

  \<^bold>\<open>Where a step is coarser than the code.\<close>  A callback that panics is taken to have spawned nothing
  (\<open>run_callback\<close>).  \<open>shards_len\<close> sums the shards at one moment; \<open>LocalDirectory::len\<close> locks them one
  after the other.  \<open>drop_ownership\<close> poisons the receipts of a serialized executor at one moment; the
  code completes them one by one, each under its own lock (\<open>Turn_Receipt\<close> has one receipt in detail).
  \<open>insert_entry\<close> is the map insertion in the middle of \<open>LocalDirectory::dispatch\<close>, named for the
  theorem on the sharded map; \<open>dispatch_lookup\<close> writes it in place.
\<close>

end
